(* ===== verification/Prelude.thy ===== *)
theory Prelude
  imports Main "HOL-Library.Word"
begin

text \<open>
  What every component of the development shares.

  \<^item> \<open>fault\<close> and \<open>res\<close>: the outcome of an operation of the C++ code. A value is
    \<open>Inr\<close>; every abort, failed assertion, null or dangling access, read of an
    indeterminate value, access outside a buffer, copy between overlapping regions,
    wait on a condition that does not hold and endless loop is an \<open>Inl\<close> with its reason.
  \<^item> \<open>heap\<close>: a typed heap with address 0 as the null pointer, an allocator that
    hands out fresh addresses until a limit is reached (then \<open>malloc\<close> returns
    null) and faulting reads, writes and frees.
  \<^item> \<open>path\<close>: the list segment reached through a \<open>_next\<close> field, with the
    lemmas on intrusive lists that all queues use, collected in the locale
    \<open>linked_cells\<close>.
  \<^item> bytes: the four byte encodings of a 32 bit integer in network and in host
    order.
\<close>

section \<open>Outcomes of an operation\<close>

type_synonym addr = nat
type_synonym byte = "8 word"

datatype fault =
    Null_deref
  | Dangling addr
  | Uninit
  | Out_of_bounds
  | Overlap
  | Abort
  | Assert_failed
  | Blocked
  | Diverge

type_synonym 'a res = "fault + 'a"

named_theorems heap_simps \<open>reads and writes of the typed heap\<close>
named_theorems inv_defs \<open>the definitions of the component invariants\<close>

fun bindr :: "'a res \<Rightarrow> ('a \<Rightarrow> 'b res) \<Rightarrow> 'b res" where
  "bindr (Inl e) f = Inl e"
| "bindr (Inr x) f = f x"

lemma bindr_cong [fundef_cong]:
  "m = m' \<Longrightarrow> (\<And>x. m' = Inr x \<Longrightarrow> f x = f' x) \<Longrightarrow> bindr m f = bindr m' f'"
  by (cases m') auto

lemma bindr_eq_Inr: "bindr m f = Inr y \<longleftrightarrow> (\<exists>x. m = Inr x \<and> f x = Inr y)"
  by (cases m) auto

lemma bindr_eq_Inl: "bindr m f = Inl e \<longleftrightarrow> m = Inl e \<or> (\<exists>x. m = Inr x \<and> f x = Inl e)"
  by (cases m) auto

lemma bindr_assoc: "bindr (bindr m f) g = bindr m (\<lambda>x. bindr (f x) g)"
  by (cases m) auto

definition guardr :: "fault \<Rightarrow> bool \<Rightarrow> unit res" where
  "guardr e b = (if b then Inr () else Inl e)"

lemma guardr_eq_Inr [simp]: "guardr e b = Inr u \<longleftrightarrow> b"
  by (simp add: guardr_def)

lemma guardr_True [simp]: "guardr e True = Inr ()"
  by (simp add: guardr_def)

lemma guardr_False [simp]: "guardr e False = Inl e"
  by (simp add: guardr_def)

text \<open>An indeterminate field is \<open>None\<close>; reading it is a fault.\<close>

definition init_of :: "'a option \<Rightarrow> 'a res" where
  "init_of v = (case v of None \<Rightarrow> Inl Uninit | Some x \<Rightarrow> Inr x)"

lemma init_of_simps [simp]:
  "init_of None = Inl Uninit"
  "init_of (Some x) = Inr x"
  by (simp_all add: init_of_def)

section \<open>Arrays\<close>

text \<open>An array from \<open>malloc\<close>: its elements are indeterminate until they are stored, and every access is checked against its size.\<close>

definition arr_put :: "'a option list \<Rightarrow> nat \<Rightarrow> 'a \<Rightarrow> 'a option list res" where
  "arr_put xs i v = (if i < length xs then Inr (xs[i := Some v]) else Inl Out_of_bounds)"

definition arr_at :: "'a option list \<Rightarrow> nat \<Rightarrow> 'a res" where
  "arr_at xs i = (if i < length xs then init_of (xs ! i) else Inl Out_of_bounds)"

text \<open>The loop \<open>for (i = from; ...; ++i) xs[i] = v_i\<close>.\<close>

primrec arr_fill :: "nat \<Rightarrow> 'a list \<Rightarrow> 'a option list \<Rightarrow> 'a option list res" where
  "arr_fill i [] xs = Inr xs"
| "arr_fill i (v # vs) xs = bindr (arr_put xs i v) (arr_fill (Suc i) vs)"

lemma arr_fill_fits:
  "i + length vs \<le> length xs \<Longrightarrow> arr_fill i vs xs = Inr (take i xs @ map Some vs @ drop (i + length vs) xs)"
proof (induction vs arbitrary: i xs)
  case (Cons v vs)
  then have "take (Suc i) (xs[i := Some v]) = take i xs @ [Some v]" by (simp add: take_Suc_conv_app_nth)
  then show ?case using Cons by (simp add: arr_put_def drop_update_cancel)
qed simp

lemma arr_fill_overflows: "i \<le> length xs \<Longrightarrow> length xs < i + length vs \<Longrightarrow> arr_fill i vs xs = Inl Out_of_bounds"
proof (induction vs arbitrary: i xs)
  case (Cons v vs)
  then show ?case by (cases "i < length xs") (simp_all add: arr_put_def)
qed simp

lemma arr_at_filled: "i < length vs \<Longrightarrow> arr_at (map Some vs @ xs) i = Inr (vs ! i)"
  by (simp add: arr_at_def nth_append)

section \<open>Lists of lists\<close>

lemma distinct_concat_disjoint:
  "distinct (concat xss) \<Longrightarrow> i < length xss \<Longrightarrow> j < length xss \<Longrightarrow> i \<noteq> j \<Longrightarrow> set (xss ! i) \<inter> set (xss ! j) = {}"
proof (induction xss arbitrary: i j)
  case (Cons xs xss)
  have "set xs \<inter> set (xss ! k) = {}" "set (xss ! k) \<inter> set xs = {}" if "k < length xss" for k
    using Cons.prems(1) nth_mem[OF that] by auto
  with Cons show ?case by (cases i; cases j) simp_all
qed simp

section \<open>Typed heaps\<close>

record 'a heap =
  h_cells :: "addr \<Rightarrow> 'a option"
  h_brk :: nat
  h_lim :: nat

definition heap_empty :: "nat \<Rightarrow> 'a heap" where
  "heap_empty lim = \<lparr>h_cells = (\<lambda>_. None), h_brk = 1, h_lim = lim\<rparr>"

definition heap_ok :: "'a heap \<Rightarrow> bool" where
  "heap_ok h \<longleftrightarrow> 0 < h_brk h \<and> h_cells h 0 = None \<and> (\<forall>a. h_brk h \<le> a \<longrightarrow> h_cells h a = None)"

definition hget :: "'a heap \<Rightarrow> addr \<Rightarrow> 'a res" where
  "hget h a = (if a = 0 then Inl Null_deref
     else case h_cells h a of None \<Rightarrow> Inl (Dangling a) | Some c \<Rightarrow> Inr c)"

definition hset :: "'a heap \<Rightarrow> addr \<Rightarrow> 'a \<Rightarrow> 'a heap" where
  "hset h a c = h\<lparr>h_cells := (h_cells h)(a \<mapsto> c)\<rparr>"

definition hmod :: "'a heap \<Rightarrow> addr \<Rightarrow> ('a \<Rightarrow> 'a) \<Rightarrow> 'a heap res" where
  "hmod h a f = bindr (hget h a) (\<lambda>c. Inr (hset h a (f c)))"

text \<open>\<open>malloc\<close> of one node: the null address once the limit is reached.\<close>

definition halloc :: "'a \<Rightarrow> 'a heap \<Rightarrow> addr \<times> 'a heap" where
  "halloc c h = (if h_brk h < h_lim h
     then (h_brk h, h\<lparr>h_cells := (h_cells h)(h_brk h \<mapsto> c), h_brk := Suc (h_brk h)\<rparr>)
     else (0, h))"

definition hfree :: "addr \<Rightarrow> 'a heap \<Rightarrow> 'a heap res" where
  "hfree a h = (if a = 0 then Inr h
     else case h_cells h a of None \<Rightarrow> Inl (Dangling a)
        | Some _ \<Rightarrow> Inr (h\<lparr>h_cells := (h_cells h)(a := None)\<rparr>))"

definition live :: "'a heap \<Rightarrow> addr \<Rightarrow> bool" where
  "live h a \<longleftrightarrow> a \<noteq> 0 \<and> h_cells h a \<noteq> None"

lemma heap_ok_empty [simp]: "heap_ok (heap_empty lim)"
  by (simp add: heap_ok_def heap_empty_def)

lemma hset_cells [simp]: "h_cells (hset h a c) = (h_cells h)(a \<mapsto> c)"
  and hset_brk [simp]: "h_brk (hset h a c) = h_brk h"
  and hset_lim [simp]: "h_lim (hset h a c) = h_lim h"
  by (simp_all add: hset_def)

lemma hset_hset [simp]: "hset (hset h a c) a d = hset h a d"
  by (simp add: hset_def)

lemma hget_hset [heap_simps]: "hget (hset h a c) b = (if a = b \<and> a \<noteq> 0 then Inr c else hget h b)"
  by (simp add: hget_def)

lemma hget_Inr: "hget h a = Inr c \<longleftrightarrow> a \<noteq> 0 \<and> h_cells h a = Some c"
  by (auto simp: hget_def split: option.splits)

lemma live_iff_hget: "live h a \<longleftrightarrow> (\<exists>c. hget h a = Inr c)"
  by (auto simp: live_def hget_Inr)

lemma live_hset [simp]: "live h a \<Longrightarrow> live (hset h a c) b = live h b"
  by (auto simp: live_def)

lemma heap_ok_hset [simp]: "heap_ok h \<Longrightarrow> live h a \<Longrightarrow> heap_ok (hset h a c)"
  by (auto simp: heap_ok_def live_def)

lemma hmod_live: "live h a \<Longrightarrow> \<exists>c. hget h a = Inr c \<and> hmod h a f = Inr (hset h a (f c))"
  by (auto simp: live_def hget_def hmod_def)

lemma hmod_hget [heap_simps]: "hget h a = Inr c \<Longrightarrow> hmod h a f = Inr (hset h a (f c))"
  by (simp add: hmod_def)

lemma live_lt_brk: "heap_ok h \<Longrightarrow> live h a \<Longrightarrow> a < h_brk h"
  by (rule ccontr) (simp add: heap_ok_def live_def)

definition hnew :: "'a \<Rightarrow> 'a heap \<Rightarrow> 'a heap" where
  "hnew c h = h\<lparr>h_cells := (h_cells h)(h_brk h \<mapsto> c), h_brk := Suc (h_brk h)\<rparr>"

lemma halloc_room: "h_brk h < h_lim h \<Longrightarrow> halloc c h = (h_brk h, hnew c h)"
  by (simp add: halloc_def hnew_def)

lemma halloc_full: "h_lim h \<le> h_brk h \<Longrightarrow> halloc c h = (0, h)"
  by (simp add: halloc_def)

lemma hnew_simps [simp]:
  "h_cells (hnew c h) = (h_cells h)(h_brk h \<mapsto> c)"
  "h_brk (hnew c h) = Suc (h_brk h)"
  "h_lim (hnew c h) = h_lim h"
  by (simp_all add: hnew_def)

lemma brk_fresh: "heap_ok h \<Longrightarrow> \<not> live h (h_brk h)"
  by (simp add: heap_ok_def live_def)

lemma heap_ok_hnew [simp]: "heap_ok h \<Longrightarrow> heap_ok (hnew c h)"
  by (simp add: heap_ok_def)

lemma hget_hnew [heap_simps]: "heap_ok h \<Longrightarrow> hget (hnew c h) a = (if a = h_brk h then Inr c else hget h a)"
  by (auto simp: hget_def heap_ok_def)

lemma hmod_hnew: "heap_ok h \<Longrightarrow> hmod (hnew c h) (h_brk h) f = Inr (hnew (f c) h)"
  by (simp add: hmod_def hget_hnew hset_def)

lemma hfree_live: "live h a \<Longrightarrow> hfree a h = Inr (h\<lparr>h_cells := (h_cells h)(a := None)\<rparr>)"
  by (auto simp: live_def hfree_def)

lemma heap_ok_free [simp]: "heap_ok h \<Longrightarrow> heap_ok (h\<lparr>h_cells := (h_cells h)(a := None)\<rparr>)"
  by (auto simp: heap_ok_def)

section \<open>List segments through a next field\<close>

primrec path :: "('a \<Rightarrow> addr) \<Rightarrow> 'a heap \<Rightarrow> addr \<Rightarrow> addr list \<Rightarrow> addr \<Rightarrow> bool" where
  "path nx h p [] q \<longleftrightarrow> p = q"
| "path nx h p (x # xs) q \<longleftrightarrow> p = x \<and> x \<noteq> 0 \<and>
     (case h_cells h x of None \<Rightarrow> False | Some c \<Rightarrow> path nx h (nx c) xs q)"

text \<open>Walking to the last node of a list, counting the nodes; the fuel is the
  number of addresses handed out, so that it only runs out on a cycle.\<close>

primrec to_last :: "('a \<Rightarrow> addr) \<Rightarrow> 'a heap \<Rightarrow> nat \<Rightarrow> addr \<Rightarrow> int \<Rightarrow> (addr \<times> int) res" where
  "to_last nx h 0 p n = Inl Diverge"
| "to_last nx h (Suc k) p n = bindr (hget h p) (\<lambda>c.
     if nx c = 0 then Inr (p, n) else to_last nx h k (nx c) (n + 1))"

text \<open>Collecting the nodes of a list, as the loops \<open>while (p) { ...; p = p->_next; }\<close> visit them.\<close>

primrec nodes_of :: "('a \<Rightarrow> addr) \<Rightarrow> 'a heap \<Rightarrow> nat \<Rightarrow> addr \<Rightarrow> addr list res" where
  "nodes_of nx h 0 p = (if p = 0 then Inr [] else Inl Diverge)"
| "nodes_of nx h (Suc k) p = (if p = 0 then Inr [] else
     bindr (hget h p) (\<lambda>c. bindr (nodes_of nx h k (nx c)) (\<lambda>xs. Inr (p # xs))))"

lemma path_append: "path nx h p (xs @ ys) q \<longleftrightarrow> (\<exists>r. path nx h p xs r \<and> path nx h r ys q)"
  by (induction xs arbitrary: p) (auto split: option.splits)

lemma path_live: "path nx h p xs q \<Longrightarrow> x \<in> set xs \<Longrightarrow> live h x"
  by (induction xs arbitrary: p) (auto simp: live_def split: option.splits)

lemma path_null [simp]: "path nx h 0 xs 0 \<longleftrightarrow> xs = []"
  by (cases xs) auto

lemma path_cong:
  "(\<And>x. x \<in> set xs \<Longrightarrow> map_option nx (h_cells h' x) = map_option nx (h_cells h x)) \<Longrightarrow>
   path nx h' p xs q = path nx h p xs q"
proof (induction xs arbitrary: p)
  case (Cons x xs)
  have e: "map_option nx (h_cells h' x) = map_option nx (h_cells h x)"
    by (rule Cons.prems) simp
  have IH: "path nx h' r xs q = path nx h r xs q" for r
    by (rule Cons.IH) (rule Cons.prems, simp)
  show ?case using e by (cases "h_cells h x"; cases "h_cells h' x") (simp_all add: IH)
qed simp

lemma path_frame:
  "path nx h p xs q \<Longrightarrow> (\<And>a. a \<in> set xs \<Longrightarrow> h_cells h' a = h_cells h a) \<Longrightarrow> path nx h' p xs q"
  using path_cong[of xs nx h' h p q] by simp

lemma path_hset_other [simp]: "a \<notin> set xs \<Longrightarrow> path nx (hset h a c) p xs q = path nx h p xs q"
  by (rule path_cong) auto

lemma path_unique: "path nx h p xs 0 \<Longrightarrow> path nx h p ys 0 \<Longrightarrow> xs = ys"
proof (induction xs arbitrary: p ys)
  case (Cons x xs)
  then show ?case by (cases ys) (auto split: option.splits)
qed (cases ys; simp)

lemma path_distinct: "path nx h p xs 0 \<Longrightarrow> distinct xs"
proof (induction xs arbitrary: p)
  case (Cons x xs)
  from Cons.prems obtain c where c: "h_cells h x = Some c" "path nx h (nx c) xs 0" "p = x" "x \<noteq> 0"
    by (auto split: option.splits)
  moreover have "x \<notin> set xs"
  proof
    assume "x \<in> set xs"
    then obtain ys zs where xs: "xs = ys @ x # zs" by (auto dest: split_list)
    with c have "path nx h x (x # zs) 0" by (auto simp: path_append)
    moreover have "path nx h x (x # xs) 0" using c by simp
    ultimately have "x # zs = x # xs" by (rule path_unique)
    then have "length zs = length xs" by simp
    with xs show False by simp
  qed
  ultimately show ?case using Cons.IH by simp
qed simp

lemma path_head: "path nx h p xs 0 \<Longrightarrow> p = (if xs = [] then 0 else hd xs)"
  by (cases xs) auto

lemma path_length: "heap_ok h \<Longrightarrow> path nx h p xs 0 \<Longrightarrow> length xs < h_brk h"
proof -
  assume ok: "heap_ok h" and p: "path nx h p xs 0"
  have "set xs \<subseteq> {0<..<h_brk h}"
    using path_live[OF p] live_lt_brk[OF ok] by (auto simp: live_def intro: gr0I)
  then have "card (set xs) \<le> card {0<..<h_brk h}" by (intro card_mono) simp_all
  with distinct_card[OF path_distinct[OF p]] ok show ?thesis
    by (simp add: heap_ok_def) linarith
qed

lemma to_last_path:
  "path nx h p xs 0 \<Longrightarrow> xs \<noteq> [] \<Longrightarrow> length xs \<le> k \<Longrightarrow>
   to_last nx h k p n = Inr (last xs, n + int (length xs) - 1)"
proof (induction xs arbitrary: p k n)
  case (Cons x xs)
  then obtain k' where k: "k = Suc k'" by (cases k) auto
  from Cons.prems obtain c where c: "h_cells h x = Some c" "path nx h (nx c) xs 0" "p = x" "x \<noteq> 0"
    by (auto split: option.splits)
  have nz: "nx c = 0 \<longleftrightarrow> xs = []" using c by (cases xs) auto
  show ?case
  proof (cases "xs = []")
    case True then show ?thesis using c k nz by (simp add: hget_def)
  next
    case False
    then show ?thesis using Cons.IH[OF c(2) False, of k' "n + 1"] Cons.prems k c nz by (simp add: hget_def)
  qed
qed simp

lemma to_last_ok:
  assumes "heap_ok h" "path nx h p xs 0" "xs \<noteq> []"
  shows "to_last nx h (h_brk h) p n = Inr (last xs, n + int (length xs) - 1)"
  using to_last_path[OF assms(2,3)] path_length[OF assms(1,2)] by simp

lemma nodes_of_path:
  "path nx h p xs 0 \<Longrightarrow> length xs \<le> k \<Longrightarrow> nodes_of nx h k p = Inr xs"
proof (induction xs arbitrary: p k)
  case Nil then show ?case by (cases k) auto
next
  case (Cons x xs)
  then obtain k' where "k = Suc k'" by (cases k) auto
  with Cons show ?case by (auto simp: hget_def split: option.splits)
qed

lemma nodes_of_ok: "heap_ok h \<Longrightarrow> path nx h p xs 0 \<Longrightarrow> nodes_of nx h (h_brk h) p = Inr xs"
  using nodes_of_path path_length less_imp_le by blast

lemma nodes_of_Inr: "nodes_of nx h k p = Inr xs \<Longrightarrow> path nx h p xs 0"
proof (induction k arbitrary: p xs)
  case (Suc k)
  then show ?case by (auto simp: bindr_eq_Inr hget_Inr split: if_splits)
qed (auto split: if_splits)

text \<open>The tail pointer discipline shared by the queues of the code: \<open>list\<close> and \<open>tail\<close> are both null, or
  \<open>tail\<close> is the last node of the null-terminated list at \<open>list\<close>.\<close>

definition tail_of :: "addr list \<Rightarrow> addr" where
  "tail_of xs = (if xs = [] then 0 else last xs)"

definition seg :: "('a \<Rightarrow> addr) \<Rightarrow> 'a heap \<Rightarrow> addr \<Rightarrow> addr \<Rightarrow> addr list \<Rightarrow> bool" where
  "seg nx h lst tlp xs \<longleftrightarrow> path nx h lst xs 0 \<and> tlp = tail_of xs"

lemma tail_of_simps [simp]:
  "tail_of [] = 0" "tail_of (xs @ [x]) = x" "xs \<noteq> [] \<Longrightarrow> tail_of xs = last xs"
  by (simp_all add: tail_of_def)

lemma seg_Nil [simp]: "seg nx h lst tlp [] \<longleftrightarrow> lst = 0 \<and> tlp = 0"
  by (auto simp: seg_def)

lemma seg_null: "seg nx h 0 tlp xs \<longleftrightarrow> xs = [] \<and> tlp = 0"
  by (auto simp: seg_def)

lemma seg_distinct: "seg nx h lst tlp xs \<Longrightarrow> distinct xs"
  by (auto simp: seg_def dest: path_distinct)

lemma seg_live: "seg nx h lst tlp xs \<Longrightarrow> x \<in> set xs \<Longrightarrow> live h x"
  by (auto simp: seg_def dest: path_live)

lemma seg_tail_null: "seg nx h lst tlp xs \<Longrightarrow> tlp = 0 \<longleftrightarrow> xs = []"
  using seg_live[of nx h lst tlp xs "last xs"] by (auto simp: seg_def live_def tail_of_def)

lemma seg_head_null: "seg nx h lst tlp xs \<Longrightarrow> lst = 0 \<longleftrightarrow> xs = []"
  by (auto simp: seg_def)

lemma seg_Cons:
  "seg nx h lst tlp (x # xs) \<Longrightarrow> \<exists>c. hget h lst = Inr c \<and> lst = x \<and> seg nx h (nx c) (tail_of xs) xs"
  by (auto simp: seg_def hget_def split: option.splits)

lemma seg_frame:
  "seg nx h l t xs \<Longrightarrow> (\<And>a. a \<in> set xs \<Longrightarrow> h_cells h' a = h_cells h a) \<Longrightarrow> seg nx h' l t xs"
  by (auto simp: seg_def intro: path_frame)

lemma seg_hset_other [simp]: "a \<notin> set xs \<Longrightarrow> seg nx (hset h a c) l t xs = seg nx h l t xs"
  by (simp add: seg_def)

text \<open>\<open>if (_tail) _tail->_next = v; else _list = v;\<close> The new head of the list and the heap.\<close>

definition append_at :: "(addr \<Rightarrow> 'a \<Rightarrow> 'a) \<Rightarrow> addr \<Rightarrow> addr \<Rightarrow> addr \<Rightarrow> 'a heap \<Rightarrow> (addr \<times> 'a heap) res" where
  "append_at upd lst tlp v h = (if tlp \<noteq> 0
     then bindr (hmod h tlp (upd v)) (\<lambda>h'. Inr (lst, h')) else Inr (v, h))"

text \<open>Two heaps that differ in links only.\<close>

definition relinked :: "(addr \<Rightarrow> 'a \<Rightarrow> 'a) \<Rightarrow> 'a heap \<Rightarrow> 'a heap \<Rightarrow> bool" where
  "relinked upd h h' \<longleftrightarrow> h_brk h' = h_brk h \<and> h_lim h' = h_lim h \<and>
     (\<forall>a. map_option (upd 0) (h_cells h' a) = map_option (upd 0) (h_cells h a))"

lemma relinked_refl [simp]: "relinked upd h h"
  by (simp add: relinked_def)

lemma relinked_trans: "relinked upd h1 h2 \<Longrightarrow> relinked upd h2 h3 \<Longrightarrow> relinked upd h1 h3"
  by (simp add: relinked_def)

lemma relinked_None: "relinked upd h h' \<Longrightarrow> h_cells h' a = None \<longleftrightarrow> h_cells h a = None"
  unfolding relinked_def by (metis option.map_disc_iff)

lemma relinked_live: "relinked upd h h' \<Longrightarrow> live h' a = live h a"
  by (simp add: live_def relinked_None)

lemma relinked_ok: "relinked upd h h' \<Longrightarrow> heap_ok h' = heap_ok h"
  by (simp add: heap_ok_def relinked_None) (simp add: relinked_def)

text \<open>A cell type with a \<open>_next\<close> field that can be read and written. The queues of messages, of push
  data and of plain elements are all instances.\<close>

locale linked_cells =
  fixes nx :: "'a \<Rightarrow> addr" and upd :: "addr \<Rightarrow> 'a \<Rightarrow> 'a"
  assumes nx_upd [simp]: "nx (upd p c) = p"
    and upd_upd [simp]: "upd p (upd q c) = upd p c"
begin

lemma path_relink:
  assumes "path nx h p (xs @ [x]) q" "x \<notin> set xs" "hget h x = Inr c"
  shows "path nx (hset h x (upd v c)) p (xs @ [x]) v"
  using assms by (auto simp: path_append hget_Inr)

lemma relinked_hset: "hget h a = Inr c \<Longrightarrow> relinked upd h (hset h a (upd v c))"
  by (simp add: relinked_def hget_Inr)

lemma append_at_ok:
  assumes s: "seg nx h lst tlp xs" and l: "path nx h v ys 0" "ys \<noteq> []" "set xs \<inter> set ys = {}"
  shows "\<exists>lst' h'. append_at upd lst tlp v h = Inr (lst', h') \<and> seg nx h' lst' (last ys) (xs @ ys) \<and>
    relinked upd h h' \<and> (\<forall>a. a \<notin> set xs \<longrightarrow> h_cells h' a = h_cells h a)"
proof (cases xs rule: rev_cases)
  case Nil then show ?thesis using s l by (simp add: append_at_def seg_def tail_of_def)
next
  case (snoc zs x)
  then have t: "tlp = x" and p: "path nx h lst (zs @ [x]) 0" using s by (auto simp: seg_def)
  then obtain c where c: "hget h x = Inr c" using path_live[OF p] by (auto simp: live_iff_hget)
  have "path nx (hset h x (upd v c)) lst (zs @ [x]) v"
    using path_relink[OF p _ c] path_distinct[OF p] by simp
  moreover have "path nx (hset h x (upd v c)) v ys 0" using l snoc by simp
  ultimately have "path nx (hset h x (upd v c)) lst ((zs @ [x]) @ ys) 0"
    unfolding path_append by blast
  then have "seg nx (hset h x (upd v c)) lst (last ys) (xs @ ys)"
    using snoc l by (simp add: seg_def tail_of_def)
  moreover have "append_at upd lst tlp v h = Inr (lst, hset h x (upd v c))"
    using c t by (auto simp: append_at_def heap_simps hget_Inr)
  ultimately show ?thesis using relinked_hset[OF c] snoc by auto
qed

lemma append_one:
  assumes "seg nx h lst tlp xs" "hget h v = Inr d" "nx d = 0" "v \<notin> set xs"
  shows "\<exists>lst' h'. append_at upd lst tlp v h = Inr (lst', h') \<and> seg nx h' lst' v (xs @ [v]) \<and>
    relinked upd h h' \<and> (\<forall>a. a \<notin> set xs \<longrightarrow> h_cells h' a = h_cells h a)"
  using append_at_ok[of h lst tlp xs v "[v]"] assms by (auto simp: hget_Inr)

end

section \<open>Four byte integers\<close>

definition byte_of :: "int \<Rightarrow> nat \<Rightarrow> byte" where
  "byte_of v i = word_of_int (v div 256 ^ i)"

text \<open>\<open>htonl\<close> followed by a store: most significant byte first. A plain store: least significant first.\<close>

definition be32 :: "int \<Rightarrow> byte list" where
  "be32 v = [byte_of v 3, byte_of v 2, byte_of v 1, byte_of v 0]"

definition le32 :: "int \<Rightarrow> byte list" where
  "le32 v = [byte_of v 0, byte_of v 1, byte_of v 2, byte_of v 3]"

text \<open>The value of a signed 32 bit integer.\<close>

definition s32 :: "int \<Rightarrow> int" where
  "s32 v = (v + 2147483648) mod 4294967296 - 2147483648"

fun rd_be32 :: "byte list \<Rightarrow> int" where
  "rd_be32 [a, b, c, d] = s32 (uint a * 16777216 + uint b * 65536 + uint c * 256 + uint d)"
| "rd_be32 _ = 0"

fun rd_le32 :: "byte list \<Rightarrow> int" where
  "rd_le32 [a, b, c, d] = s32 (uint d * 16777216 + uint c * 65536 + uint b * 256 + uint a)"
| "rd_le32 _ = 0"

lemma s32_id: "- 2147483648 \<le> v \<Longrightarrow> v < 2147483648 \<Longrightarrow> s32 v = v"
  by (simp add: s32_def)

lemma s32_range: "- 2147483648 \<le> s32 v" "s32 v < 2147483648"
  using pos_mod_bound[of 4294967296 "v + 2147483648"] pos_mod_sign[of 4294967296 "v + 2147483648"]
  by (simp_all add: s32_def)

lemma s32_mod [simp]: "s32 (v mod 4294967296) = s32 v"
  unfolding s32_def by (subst mod_add_left_eq) (rule refl)

lemma four_bytes:
  "(v div 16777216) mod 256 * 16777216 + (v div 65536) mod 256 * 65536 + (v div 256) mod 256 * 256 + v mod 256
   = v mod (4294967296 :: int)"
proof -
  have 1: "v mod 65536 = 256 * (v div 256 mod 256) + v mod 256"
    using zmod_zmult2_eq[of 256 v 256] by simp
  have 2: "v mod 16777216 = 65536 * (v div 65536 mod 256) + v mod 65536"
    using zmod_zmult2_eq[of 256 v 65536] by simp
  have 3: "v mod 4294967296 = 16777216 * (v div 16777216 mod 256) + v mod 16777216"
    using zmod_zmult2_eq[of 256 v 16777216] by simp
  show ?thesis by (simp only: 1 2 3 mult.commute add.assoc)
qed

lemma uint_byte_of: "uint (byte_of v i) = v div 256 ^ i mod 256"
  by (simp add: byte_of_def uint_word_of_int)

lemma pow_256: "(256 :: int) ^ 3 = 16777216" "(256 :: int) ^ 2 = 65536" "(256 :: int) ^ 1 = 256" "v div (256 :: int) ^ 0 = v"
  by simp_all

lemma rd_be32_be32: "rd_be32 (be32 v) = s32 v"
  unfolding be32_def rd_be32.simps uint_byte_of pow_256 four_bytes s32_mod by (rule refl)

lemma rd_le32_le32: "rd_le32 (le32 v) = s32 v"
  unfolding le32_def rd_le32.simps uint_byte_of pow_256 four_bytes s32_mod by (rule refl)

lemma length_be32 [simp]: "length (be32 v) = 4" and length_le32 [simp]: "length (le32 v) = 4"
  by (simp_all add: be32_def le32_def)

section \<open>Byte buffers\<close>

text \<open>A buffer from \<open>malloc\<close>: \<open>None\<close> is a byte that has not been written yet.\<close>

type_synonym buffer = "byte option list"

definition malloc_bytes :: "nat \<Rightarrow> buffer" where
  "malloc_bytes n = replicate n None"

definition rd_bytes :: "buffer \<Rightarrow> nat \<Rightarrow> nat \<Rightarrow> byte list res" where
  "rd_bytes buf off n = (if off + n \<le> length buf
     then init_of (those (take n (drop off buf))) else Inl Out_of_bounds)"

definition wr_bytes :: "buffer \<Rightarrow> nat \<Rightarrow> byte list \<Rightarrow> buffer res" where
  "wr_bytes buf off bs = (if off + length bs \<le> length buf
     then Inr (take off buf @ map Some bs @ drop (off + length bs) buf) else Inl Out_of_bounds)"

lemma length_malloc_bytes [simp]: "length (malloc_bytes n) = n"
  by (simp add: malloc_bytes_def)

lemma those_map_Some [simp]: "those (map Some xs) = Some xs"
  by (induction xs) auto

lemma those_append:
  "those (xs @ ys) = (case those xs of None \<Rightarrow> None | Some us \<Rightarrow> map_option ((@) us) (those ys))"
  by (induction xs) (auto split: option.splits simp: map_option_case)

lemma those_eq_Some: "those xs = Some ys \<longleftrightarrow> xs = map Some ys"
proof (induction xs arbitrary: ys)
  case (Cons x xs)
  then show ?case by (cases x; cases ys) (auto simp: map_option_case split: option.splits)
qed auto

lemma rd_bytes_Inr:
  "rd_bytes buf off n = Inr bs \<longleftrightarrow> off + n \<le> length buf \<and> take n (drop off buf) = map Some bs"
  by (auto simp: rd_bytes_def init_of_def those_eq_Some split: option.splits)

lemma wr_bytes_ok:
  "off + length bs \<le> length buf \<Longrightarrow>
   \<exists>buf'. wr_bytes buf off bs = Inr buf' \<and> length buf' = length buf \<and>
     rd_bytes buf' off (length bs) = Inr bs \<and> take off buf' = take off buf \<and>
     drop (off + length bs) buf' = drop (off + length bs) buf"
  by (simp add: wr_bytes_def rd_bytes_Inr)

lemma rd_bytes_length: "rd_bytes buf off n = Inr bs \<Longrightarrow> length bs = n"
  by (auto simp: rd_bytes_Inr dest: arg_cong[of _ _ length])

lemma rd_bytes_join:
  assumes "rd_bytes buf off n = Inr bs" "rd_bytes buf (off + n) k = Inr cs"
  shows "rd_bytes buf off (n + k) = Inr (bs @ cs)"
  using assms by (auto simp: rd_bytes_Inr take_add add.assoc add.commute[of n off])

lemma rd_bytes_Some: "off + n \<le> length xs \<Longrightarrow> rd_bytes (map Some xs @ ys) off n = Inr (take n (drop off xs))"
  by (simp add: rd_bytes_Inr take_map drop_map)

end
