(* ===== verification/Message.thy ===== *)
theory Message
  imports Prelude
begin

text \<open>
  The message object and its wire frame, \<open>framework/ms/ms_message.h\<close> and \<open>ms_message.cpp\<close>.

  A message owns one buffer. The record keeps the buffer's bytes in \<open>m_b\<close> and the pointer \<open>_data\<close> as
  the offset \<open>m_data\<close> into it. Fields the constructors leave indeterminate are options. The frame
  on the wire is the length of what follows in network order, the magic number in host order (the
  host is little endian) and the payload.
\<close>

section \<open>Data\<close>

datatype MESSAGE_TYPE = TYPE_UNKNOWN | APP_REQUEST | APP_REPLY

datatype MESSAGE_SOURCE = UNKNOWN | APP | BACKEND

fun source_bits :: "MESSAGE_SOURCE \<Rightarrow> 2 word" where
  "source_bits UNKNOWN = 0"
| "source_bits APP = 1"
| "source_bits BACKEND = 2"

datatype fnptr = Fn_null | Fn_switch_state_app_msg

type_synonym timeval = "int \<times> int"

record IMessage =
  m_b :: buffer
  m_data :: nat
  m_size :: int
  m_data_len :: int
  m_frame_len :: int
  m_state :: "int option"
  m_uid :: int
  m_io :: int
  m_conn :: "64 word"
  m_id :: "byte list option"
  m_priority :: "4 word"
  m_need_collect :: bool
  m_force_push :: bool
  m_close_conn :: bool
  m_type :: "2 word"
  m_from :: "2 word option"
  m_to :: "2 word option"
  m_push_callback :: fnptr
  m_switch_state :: fnptr
  m_gen_time :: "timeval option"
  m_process_begin_time :: "timeval option"
  m_process_end_time :: "timeval option"
  m_next :: addr

type_synonym mheap = "IMessage heap"

section \<open>Operations\<close>

definition magic :: int where
  "magic = 0x696D696D"

text \<open>\<open>frame[0] = htonl(len + M_MAGIC_BYTES); frame[1] = magic;\<close>\<close>

definition frame_header :: "int \<Rightarrow> byte list" where
  "frame_header len = be32 (len + 4) @ le32 magic"

definition M_FRAME_DATA_SIZE :: "int \<Rightarrow> int" where
  "M_FRAME_DATA_SIZE x = s32 (x - 8)"

definition M_FRAME_SIZE :: "int \<Rightarrow> int" where
  "M_FRAME_SIZE x = s32 (x + 8)"

text \<open>The object both constructors fill in, around its buffer.\<close>

definition new_IMessage :: "buffer \<Rightarrow> int \<Rightarrow> int \<Rightarrow> int \<Rightarrow> IMessage" where
  "new_IMessage buf bsize data_len frame_len =
     \<lparr>m_b = buf, m_data = 8, m_size = bsize, m_data_len = data_len, m_frame_len = frame_len,
      m_state = None, m_uid = -1, m_io = -1, m_conn = -1, m_id = None,
      m_priority = 15, m_need_collect = False, m_force_push = False, m_close_conn = False,
      m_type = 0, m_from = None, m_to = None, m_push_callback = Fn_null, m_switch_state = Fn_null,
      m_gen_time = None, m_process_begin_time = None, m_process_end_time = None, m_next = 0\<rparr>"

text \<open>\<open>createIMessage(const char* b, int len)\<close>: the memory at \<open>b\<close> is the byte list.\<close>

definition createIMessage_frame :: "byte list \<Rightarrow> int \<Rightarrow> mheap \<Rightarrow> (addr \<times> mheap) res" where
  "createIMessage_frame b len h =
    (let want = s32 (len + 32);
         buf = map Some (take (nat len) b) @ malloc_bytes (nat want - nat len);
         (m, h') = halloc (new_IMessage buf want (M_FRAME_DATA_SIZE len) len) h
     in if m = 0 \<or> want < 0 then Inl Abort
        else if len < 0 \<or> int (length b) < len then Inl Out_of_bounds
        else Inr (m, h'))"

text \<open>\<open>createIMessage(int len)\<close>\<close>

definition createIMessage_len :: "int \<Rightarrow> mheap \<Rightarrow> (addr \<times> mheap) res" where
  "createIMessage_len len h =
    (let want = M_FRAME_SIZE len in
     if want < 0 \<or> h_lim h \<le> h_brk h then Inl Abort
     else bindr (wr_bytes (malloc_bytes (nat want)) 0 (frame_header len)) (\<lambda>buf.
       Inr (halloc (new_IMessage buf want len want) h)))"

definition fixIMessage :: "addr \<Rightarrow> int \<Rightarrow> mheap \<Rightarrow> mheap res" where
  "fixIMessage msg len h = bindr (hget h msg) (\<lambda>m.
     let want = M_FRAME_SIZE len in
     if want \<le> m_size m then
       bindr (wr_bytes (m_b m) 0 (frame_header len)) (\<lambda>buf.
         Inr (hset h msg (m\<lparr>m_b := buf, m_data_len := len, m_frame_len := want\<rparr>)))
     else if h_lim h \<le> h_brk h then Inl Abort
     else bindr (wr_bytes (malloc_bytes (nat want)) 0 (frame_header len)) (\<lambda>buf.
       Inr (hset h msg (m\<lparr>m_b := buf, m_data := 8, m_size := want,
                          m_data_len := len, m_frame_len := want\<rparr>))))"

definition releaseIMessage :: "addr \<Rightarrow> mheap \<Rightarrow> mheap res" where
  "releaseIMessage v h = hfree v h"

text \<open>Releasing every message of a chain, the loop \<open>while (msg) { next = msg->_next; releaseIMessage(msg); msg = next; }\<close>.\<close>

primrec release_all :: "addr list \<Rightarrow> mheap \<Rightarrow> mheap res" where
  "release_all [] h = Inr h"
| "release_all (a # as) h = bindr (releaseIMessage a h) (release_all as)"

text \<open>A store through \<open>_data\<close> (\<open>SerializeToArray(msg->_data, msg->_data_len)\<close>) and the bytes a
  write of the whole frame sends.\<close>

definition store_data :: "addr \<Rightarrow> byte list \<Rightarrow> mheap \<Rightarrow> mheap res" where
  "store_data msg bs h = bindr (hget h msg) (\<lambda>m.
     bindr (wr_bytes (m_b m) (m_data m) bs) (\<lambda>buf. Inr (hset h msg (m\<lparr>m_b := buf\<rparr>))))"

definition load_data :: "IMessage \<Rightarrow> byte list res" where
  "load_data m = (if m_data_len m < 0 then Inl Out_of_bounds
     else rd_bytes (m_b m) (m_data m) (nat (m_data_len m)))"

definition load_frame :: "IMessage \<Rightarrow> byte list res" where
  "load_frame m = (if m_frame_len m < 0 then Inl Out_of_bounds
     else rd_bytes (m_b m) 0 (nat (m_frame_len m)))"

section \<open>Specification of the frame and the lemmas\<close>

text \<open>The frame of the protocol, byte for byte: four bytes with the number of bytes that follow, the highest first, the letters
  \<open>mimi\<close>, and the payload.\<close>

definition frame_of :: "byte list \<Rightarrow> byte list" where
  "frame_of payload = (let n = length payload + 4 in
     [of_nat (n div 16777216), of_nat (n div 65536), of_nat (n div 256), of_nat n, 0x6D, 0x69, 0x6D, 0x69] @ payload)"

lemma frame_of_header: "frame_of payload = frame_header (int (length payload)) @ payload"
proof -
  have "byte_of (int n) i = of_nat (n div 256 ^ i)" for n i
  proof -
    have "int n div 256 ^ i = int (n div 256 ^ i)" by (simp add: zdiv_int)
    then show ?thesis by (simp only: byte_of_def of_int_of_nat_eq)
  qed
  from this[of "length payload + 4"] have b: "byte_of (int (length payload) + 4) i = of_nat ((length payload + 4) div 256 ^ i)" for i
    by simp
  have "be32 (int (length payload) + 4) = (let n = length payload + 4 in
      [of_nat (n div 16777216), of_nat (n div 65536), of_nat (n div 256), of_nat n])"
    by (simp add: be32_def b Let_def)
  moreover have "le32 magic = [0x6D, 0x69, 0x6D, 0x69]" by (simp add: le32_def byte_of_def magic_def)
  ultimately show ?thesis by (simp add: frame_of_def frame_header_def Let_def)
qed

text \<open>The shape every message of the program has: the buffer has the recorded size and room for the
  recorded frame, and the payload starts after the header.\<close>

definition msg_wf :: "IMessage \<Rightarrow> bool" where
  "msg_wf m \<longleftrightarrow> m_data m = 8 \<and> m_size m = int (length (m_b m)) \<and> 8 \<le> m_size m \<and>
     m_frame_len m = m_data_len m + 8 \<and> m_frame_len m \<le> m_size m \<and> 0 \<le> m_data_len m"

declare msg_wf_def [inv_defs]

lemma length_frame_header [simp]: "length (frame_header n) = 8"
  by (simp add: frame_header_def)

lemma M_FRAME_SIZE_id: "0 \<le> n \<Longrightarrow> n < 2147483640 \<Longrightarrow> M_FRAME_SIZE n = n + 8"
  by (simp add: M_FRAME_SIZE_def s32_id)

lemma createIMessage_frame_ok:
  assumes "8 \<le> len" "len < 2147483600" "len \<le> int (length b)" "heap_ok h" "h_brk h < h_lim h"
  defines "m \<equiv> new_IMessage (map Some (take (nat len) b) @ malloc_bytes 32) (len + 32) (len - 8) len"
  shows "createIMessage_frame b len h = Inr (h_brk h, hnew m h)" "msg_wf m"
    "load_frame m = Inr (take (nat len) b)" "load_data m = Inr (drop 8 (take (nat len) b))"
proof -
  have s: "s32 (len + 32) = len + 32" "M_FRAME_DATA_SIZE len = len - 8" "nat (len + 32) - nat len = 32"
    using assms(1,2) by (simp_all add: s32_id M_FRAME_DATA_SIZE_def)
  show "createIMessage_frame b len h = Inr (h_brk h, hnew m h)"
    using assms(1,3,4,5) by (simp add: createIMessage_frame_def s halloc_room m_def Let_def heap_ok_def)
  show "msg_wf m" using assms(1,3) by (simp add: msg_wf_def m_def new_IMessage_def)
  show "load_frame m = Inr (take (nat len) b)"
    using assms(1,3) by (simp add: load_frame_def m_def new_IMessage_def rd_bytes_Some)
  have "nat (len - 8) = nat len - 8" using assms(1) by simp
  then show "load_data m = Inr (drop 8 (take (nat len) b))"
    using assms(1,3) by (simp add: load_data_def m_def new_IMessage_def rd_bytes_Some drop_take)
qed

lemma createIMessage_len_ok:
  assumes "0 \<le> len" "len < 2147483640" "heap_ok h" "h_brk h < h_lim h"
  shows "createIMessage_len len h = Inr (h_brk h, hnew
    (new_IMessage (map Some (frame_header len) @ malloc_bytes (nat len)) (len + 8) len (len + 8)) h)"
proof -
  have "nat (len + 8) = 8 + nat len" using assms(1) by simp
  then have "wr_bytes (malloc_bytes (nat (len + 8))) 0 (frame_header len)
      = Inr (map Some (frame_header len) @ malloc_bytes (nat len))"
    by (simp add: wr_bytes_def malloc_bytes_def)
  then show ?thesis using assms
    by (simp add: createIMessage_len_def M_FRAME_SIZE_id halloc_room Let_def)
qed

lemma new_IMessage_wf:
  "0 \<le> len \<Longrightarrow> length buf = nat len + 8 \<Longrightarrow> msg_wf (new_IMessage buf (len + 8) len (len + 8))"
  by (simp add: msg_wf_def new_IMessage_def)

text \<open>Both branches of \<open>fixIMessage\<close> leave a well-formed message with the header for \<open>len\<close>.\<close>

lemma fixIMessage_ok:
  assumes "hget h a = Inr m" "msg_wf m" "0 \<le> len" "len < 2147483640" "h_brk h < h_lim h"
  shows "\<exists>m'. fixIMessage a len h = Inr (hset h a m') \<and> msg_wf m' \<and> m_data_len m' = len \<and>
    rd_bytes (m_b m') 0 8 = Inr (frame_header len) \<and>
    m_next m' = m_next m \<and> m_uid m' = m_uid m \<and> m_conn m' = m_conn m \<and> m_io m' = m_io m"
proof (cases "len + 8 \<le> m_size m")
  case True
  then have "0 + length (frame_header len) \<le> length (m_b m)" using assms(2,3) by (simp add: msg_wf_def)
  from wr_bytes_ok[OF this] obtain buf where
    "wr_bytes (m_b m) 0 (frame_header len) = Inr buf" "length buf = length (m_b m)"
    "rd_bytes buf 0 8 = Inr (frame_header len)" by auto
  then show ?thesis using True assms
    by (auto simp: fixIMessage_def M_FRAME_SIZE_id msg_wf_def Let_def)
next
  case False
  have "0 + length (frame_header len) \<le> length (malloc_bytes (nat (len + 8)))" using assms(3) by simp
  from wr_bytes_ok[OF this] obtain buf where
    "wr_bytes (malloc_bytes (nat (len + 8))) 0 (frame_header len) = Inr buf" "length buf = nat (len + 8)"
    "rd_bytes buf 0 8 = Inr (frame_header len)" by auto
  then show ?thesis using False assms
    by (auto simp: fixIMessage_def M_FRAME_SIZE_id msg_wf_def Let_def)
qed

lemma store_data_ok:
  assumes "hget h a = Inr m" "msg_wf m" "m_data_len m = int (length bs)"
    "rd_bytes (m_b m) 0 8 = Inr (frame_header (int (length bs)))"
  shows "\<exists>buf. store_data a bs h = Inr (hset h a (m\<lparr>m_b := buf\<rparr>)) \<and> msg_wf (m\<lparr>m_b := buf\<rparr>) \<and>
    load_frame (m\<lparr>m_b := buf\<rparr>) = Inr (frame_of bs) \<and> load_data (m\<lparr>m_b := buf\<rparr>) = Inr bs"
proof -
  have "m_data m + length bs \<le> length (m_b m)" using assms(2,3) by (simp add: msg_wf_def)
  from wr_bytes_ok[OF this] obtain buf where b:
    "wr_bytes (m_b m) (m_data m) bs = Inr buf" "length buf = length (m_b m)"
    "rd_bytes buf 8 (length bs) = Inr bs" "take 8 buf = take 8 (m_b m)"
    using assms(2) by (auto simp: msg_wf_def)
  have "rd_bytes buf 0 8 = Inr (frame_header (int (length bs)))"
    using assms(4) b(2,4) by (simp add: rd_bytes_Inr)
  from rd_bytes_join[of _ 0, OF this] b(3) have "rd_bytes buf 0 (8 + length bs) = Inr (frame_of bs)"
    by (simp add: frame_of_header)
  then show ?thesis using assms(1,2,3) b
    by (intro exI[of _ buf])
      (simp add: store_data_def msg_wf_def load_frame_def load_data_def nat_add_distrib add.commute)
qed

lemma release_all_ok:
  assumes "distinct xs" "\<forall>x \<in> set xs. live h x"
  shows "\<exists>h'. release_all xs h = Inr h' \<and> (\<forall>a. h_cells h' a = (if a \<in> set xs then None else h_cells h a)) \<and>
    h_brk h' = h_brk h \<and> h_lim h' = h_lim h"
  using assms
proof (induction xs arbitrary: h)
  case (Cons x xs)
  define h1 where "h1 = h\<lparr>h_cells := (h_cells h)(x := None)\<rparr>"
  have "\<forall>y \<in> set xs. live h1 y" using Cons.prems by (auto simp: h1_def live_def)
  with Cons.IH[of h1] Cons.prems obtain h' where "release_all xs h1 = Inr h'"
    "\<forall>a. h_cells h' a = (if a \<in> set xs then None else h_cells h1 a)" "h_brk h' = h_brk h1" "h_lim h' = h_lim h1"
    by auto
  moreover have "releaseIMessage x h = Inr h1"
    using Cons.prems by (simp add: releaseIMessage_def hfree_live h1_def)
  ultimately show ?case by (intro exI[of _ h']) (auto simp: h1_def)
qed simp

section \<open>Properties\<close>

text \<open>C29: Building a reply: \<open>createIMessage(len)\<close> followed by writing a payload of that length through
  \<open>_data\<close> yields a message whose whole frame is the wire frame of the payload, in a buffer that
  holds it exactly, and no other message is touched.\<close>

theorem reply_has_wire_frame:
  assumes "length payload < 2147483640" "heap_ok h" "h_brk h < h_lim h"
  shows "\<exists>a h1 h2 m. createIMessage_len (int (length payload)) h = Inr (a, h1) \<and>
    store_data a payload h1 = Inr h2 \<and> hget h2 a = Inr m \<and> msg_wf m \<and>
    load_frame m = Inr (frame_of payload) \<and> load_data m = Inr payload \<and>
    \<not> live h a \<and> (\<forall>b. b \<noteq> a \<longrightarrow> h_cells h2 b = h_cells h b)"
proof -
  define n where "n = int (length payload)"
  define m where "m = new_IMessage (map Some (frame_header n) @ malloc_bytes (nat n)) (n + 8) n (n + 8)"
  define h1 where "h1 = hnew m h"
  have c: "createIMessage_len n h = Inr (h_brk h, h1)"
    unfolding h1_def m_def using assms by (intro createIMessage_len_ok) (simp_all add: n_def)
  have g: "hget h1 (h_brk h) = Inr m" using assms(2) by (simp add: h1_def hget_hnew)
  have "msg_wf m" unfolding m_def by (rule new_IMessage_wf) (simp_all add: n_def)
  from store_data_ok[OF g this, of payload] obtain m' where
    "store_data (h_brk h) payload h1 = Inr (hset h1 (h_brk h) m')" "msg_wf m'"
    "load_frame m' = Inr (frame_of payload)" "load_data m' = Inr payload"
    by (auto 0 3 simp: m_def n_def new_IMessage_def rd_bytes_Some)
  with c assms(2) show ?thesis
    by (intro exI[of _ "h_brk h"] exI[of _ h1] exI[of _ "hset h1 (h_brk h) m'"] exI[of _ m'])
      (auto simp: n_def h1_def brk_fresh heap_simps heap_ok_def)
qed

theorem reply_has_wire_frame_witness:
  "\<exists>a h1 h2 m. createIMessage_len 3 (heap_empty 9) = Inr (a, h1) \<and>
    store_data a [1, 2, 3] h1 = Inr h2 \<and> hget h2 a = Inr m \<and>
    load_frame m = Inr [0, 0, 0, 7, 0x6D, 0x69, 0x6D, 0x69, 1, 2, 3]"
proof -
  have "frame_of [1, 2, 3] = [0, 0, 0, 7, 0x6D, 0x69, 0x6D, 0x69, 1, 2, 3]"
    by (simp add: frame_of_def)
  then show ?thesis
    using reply_has_wire_frame[of "[1, 2, 3]" "heap_empty 9"] by (auto simp: heap_empty_def heap_ok_def)
qed

text \<open>\<open>fixIMessage\<close> re-targets a message to a payload of another length. Whether it reuses the buffer or
  replaces it, storing the payload afterwards yields its wire frame, the message stays well-formed, and its
  link, user, connection and io thread are unchanged.\<close>

lemma fixIMessage_retargets:
  assumes "hget h a = Inr m" "msg_wf m" "length payload < 2147483640" "h_brk h < h_lim h"
  shows "\<exists>h1 h2 m'. fixIMessage a (int (length payload)) h = Inr h1 \<and> store_data a payload h1 = Inr h2 \<and>
    hget h2 a = Inr m' \<and> msg_wf m' \<and> load_frame m' = Inr (frame_of payload) \<and> m_next m' = m_next m \<and>
    m_uid m' = m_uid m \<and> m_conn m' = m_conn m \<and> m_io m' = m_io m \<and>
    (\<forall>b. b \<noteq> a \<longrightarrow> h_cells h2 b = h_cells h b)"
proof -
  from fixIMessage_ok[OF assms(1,2), of "int (length payload)"] assms obtain m1 where m1:
    "fixIMessage a (int (length payload)) h = Inr (hset h a m1)" "msg_wf m1" "m_data_len m1 = int (length payload)"
    "rd_bytes (m_b m1) 0 8 = Inr (frame_header (int (length payload)))"
    "m_next m1 = m_next m" "m_uid m1 = m_uid m" "m_conn m1 = m_conn m" "m_io m1 = m_io m" by auto
  have "a \<noteq> 0" using assms(1) by (simp add: hget_Inr)
  then have "hget (hset h a m1) a = Inr m1" by (simp add: heap_simps)
  from store_data_ok[OF this m1(2-4)] obtain buf where
    "store_data a payload (hset h a m1) = Inr (hset h a (m1\<lparr>m_b := buf\<rparr>))" "msg_wf (m1\<lparr>m_b := buf\<rparr>)"
    "load_frame (m1\<lparr>m_b := buf\<rparr>) = Inr (frame_of payload)" by auto
  with m1 \<open>a \<noteq> 0\<close> show ?thesis
    by (intro exI[of _ "hset h a m1"] exI[of _ "hset h a (m1\<lparr>m_b := buf\<rparr>)"] exI[of _ "m1\<lparr>m_b := buf\<rparr>"])
      (simp add: heap_simps)
qed

end
