(* ===== verification/QueueContracts.thy ===== *)
theory QueueContracts
  imports Prelude
begin

text \<open>
  The contracts of the program's queues, as locales, and what their clients get from them.

  \<^item> \<open>fifo_queue\<close>: elements are put one at a time and taken one at a time. A client that runs any
    interleaving of puts and gets observes the abstract queue \<open>spec_run\<close>.
  \<^item> \<open>batch_queue\<close>: chains of elements are put and the whole content is taken at once. A
    consumer sees every chain once, in the order of the puts.

  The queues of \<open>framework/ms\<close> and \<open>framework/lib\<close> interpret them.
\<close>

datatype 'e qop = Put 'e | Get

fun puts_of :: "'e qop list \<Rightarrow> 'e list" where
  "puts_of [] = []"
| "puts_of (Put e # ops) = e # puts_of ops"
| "puts_of (Get # ops) = puts_of ops"

text \<open>The abstract queue: the outputs of a run and its final content; a get on the empty queue has none.\<close>

fun spec_run :: "'e qop list \<Rightarrow> 'e list \<Rightarrow> ('e list \<times> 'e list) option" where
  "spec_run [] xs = Some ([], xs)"
| "spec_run (Put e # ops) xs = spec_run ops (xs @ [e])"
| "spec_run (Get # ops) [] = None"
| "spec_run (Get # ops) (x # xs) = map_option (\<lambda>(outs, ys). (x # outs, ys)) (spec_run ops xs)"

fun impl_run :: "('e \<Rightarrow> 's \<Rightarrow> 's res) \<Rightarrow> ('s \<Rightarrow> ('e \<times> 's) res) \<Rightarrow> 'e qop list \<Rightarrow> 's \<Rightarrow> ('e list \<times> 's) res" where
  "impl_run put get [] s = Inr ([], s)"
| "impl_run put get (Put e # ops) s = bindr (put e s) (impl_run put get ops)"
| "impl_run put get (Get # ops) s = bindr (get s) (\<lambda>(x, s1).
     bindr (impl_run put get ops s1) (\<lambda>(outs, s2). Inr (x # outs, s2)))"

lemma sorted_wrt_neq: "sorted_wrt (\<lambda>e d. d \<noteq> e) xs \<longleftrightarrow> distinct xs"
  by (induction xs) auto

lemma spec_run_conserves: "spec_run ops xs = Some (outs, ys) \<Longrightarrow> xs @ puts_of ops = outs @ ys"
  by (induction ops xs arbitrary: outs ys rule: spec_run.induct) auto

text \<open>\<open>holds s xs\<close>: the queue in state \<open>s\<close> contains \<open>xs\<close>. \<open>admits s e\<close>: \<open>e\<close> may be put. \<open>again e d\<close>: \<open>d\<close>
  may still be put once \<open>e\<close> has been (an intrusive queue takes an object once). \<open>room n s\<close>: the
  memory suffices for \<open>n\<close> more puts.\<close>

locale fifo_queue =
  fixes holds :: "'s \<Rightarrow> 'e list \<Rightarrow> bool"
    and admits :: "'s \<Rightarrow> 'e \<Rightarrow> bool"
    and again :: "'e \<Rightarrow> 'e \<Rightarrow> bool"
    and room :: "nat \<Rightarrow> 's \<Rightarrow> bool"
    and put :: "'e \<Rightarrow> 's \<Rightarrow> 's res"
    and get :: "'s \<Rightarrow> ('e \<times> 's) res"
  assumes put_law: "holds s xs \<Longrightarrow> admits s e \<Longrightarrow> room (Suc n) s \<Longrightarrow>
      \<exists>s'. put e s = Inr s' \<and> holds s' (xs @ [e]) \<and> room n s' \<and>
        (\<forall>d. again e d \<longrightarrow> admits s d \<longrightarrow> admits s' d)"
    and get_law: "holds s (x # xs) \<Longrightarrow>
      \<exists>s'. get s = Inr (x, s') \<and> holds s' xs \<and> (\<forall>n. room n s \<longrightarrow> room n s') \<and>
        (\<forall>d. admits s d \<longrightarrow> admits s' d)"
begin

lemma run_refines:
  assumes "holds s xs" "spec_run ops xs = Some (outs, ys)" "\<forall>e \<in> set (puts_of ops). admits s e"
    "sorted_wrt again (puts_of ops)" "room (length (puts_of ops)) s"
  shows "\<exists>s'. impl_run put get ops s = Inr (outs, s') \<and> holds s' ys"
  using assms
proof (induction ops xs arbitrary: s outs ys rule: spec_run.induct)
  case (2 e ops xs)
  have "admits s e" "room (Suc (length (puts_of ops))) s" using 2(4,6) by auto
  from put_law[OF 2(2) this] obtain s1 where s1: "put e s = Inr s1" "holds s1 (xs @ [e])"
    "room (length (puts_of ops)) s1" "\<And>d. again e d \<Longrightarrow> admits s d \<Longrightarrow> admits s1 d" by auto
  with 2 show ?case by auto
next
  case (4 ops x xs)
  from get_law[OF 4(2)] obtain s1 where s1: "get s = Inr (x, s1)" "holds s1 xs"
    "\<And>n. room n s \<Longrightarrow> room n s1" "\<And>d. admits s d \<Longrightarrow> admits s1 d" by auto
  from 4(3) obtain o1 where o1: "spec_run ops xs = Some (o1, ys)" "outs = x # o1" by auto
  from 4(1)[OF s1(2) o1(1)] 4(4,5,6) s1(3,4) obtain s2 where
    "impl_run put get ops s1 = Inr (o1, s2)" "holds s2 ys" by auto
  with s1 o1 show ?case by simp
qed auto

end

primrec put_lists :: "(addr \<Rightarrow> 's \<Rightarrow> 's res) \<Rightarrow> addr list \<Rightarrow> 's \<Rightarrow> 's res" where
  "put_lists put_list [] s = Inr s"
| "put_lists put_list (p # ps) s = bindr (put_list p s) (put_lists put_list ps)"

text \<open>\<open>chain s p ys\<close>: \<open>p\<close> is the first of the null-terminated chain \<open>ys\<close> of objects, none of them in the queue.\<close>

locale batch_queue =
  fixes holds :: "'s \<Rightarrow> addr list \<Rightarrow> bool"
    and chain :: "'s \<Rightarrow> addr \<Rightarrow> addr list \<Rightarrow> bool"
    and put_list :: "addr \<Rightarrow> 's \<Rightarrow> 's res"
    and take_all :: "'s \<Rightarrow> (addr \<times> 's) res"
  assumes put_list_law: "holds s xs \<Longrightarrow> chain s p ys \<Longrightarrow> ys \<noteq> [] \<Longrightarrow> set xs \<inter> set ys = {} \<Longrightarrow>
      \<exists>s'. put_list p s = Inr s' \<and> holds s' (xs @ ys) \<and>
        (\<forall>q zs. chain s q zs \<longrightarrow> set zs \<inter> set (xs @ ys) = {} \<longrightarrow> chain s' q zs)"
    and take_all_law: "holds s xs \<Longrightarrow> xs \<noteq> [] \<Longrightarrow>
      \<exists>p s'. take_all s = Inr (p, s') \<and> chain s' p xs \<and> holds s' [] \<and> 
        (\<forall>q zs. chain s q zs \<longrightarrow> chain s' q zs)"
begin

lemma put_lists_holds:
  assumes "holds s xs" "list_all2 (chain s) ps yss" "[] \<notin> set yss" "distinct (xs @ concat yss)"
  shows "\<exists>s'. put_lists put_list ps s = Inr s' \<and> holds s' (xs @ concat yss)"
  using assms
proof (induction ps arbitrary: s xs yss)
  case (Cons p ps)
  then obtain ys zss where y: "yss = ys # zss" "chain s p ys" "list_all2 (chain s) ps zss"
    by (auto simp: list_all2_Cons1)
  from put_list_law[OF Cons.prems(1) y(2)] Cons.prems y obtain s1 where s1:
    "put_list p s = Inr s1" "holds s1 (xs @ ys)"
    "\<And>q zs. chain s q zs \<Longrightarrow> set zs \<inter> set (xs @ ys) = {} \<Longrightarrow> chain s1 q zs"
    by auto
  have "list_all2 (chain s1) ps zss"
  proof (rule list.rel_mono_strong[OF y(3)])
    fix q zs assume "q \<in> set ps" "zs \<in> set zss" "chain s q zs"
    moreover from this have "set zs \<inter> set (xs @ ys) = {}" using Cons.prems(4) y(1) by auto
    ultimately show "chain s1 q zs" using s1(3) by blast
  qed
  from Cons.IH[OF s1(2) this] Cons.prems y s1 show ?case by auto
qed auto

lemma batches_in_order:
  assumes "holds s []" "list_all2 (chain s) ps yss" "[] \<notin> set yss" "distinct (concat yss)" "yss \<noteq> []"
  shows "\<exists>s1 p s2. put_lists put_list ps s = Inr s1 \<and> take_all s1 = Inr (p, s2) \<and> chain s2 p (concat yss) \<and> holds s2 []"
proof -
  from put_lists_holds[OF assms(1,2,3)] assms(4) obtain s1 where s1:
    "put_lists put_list ps s = Inr s1" "holds s1 (concat yss)" by auto
  moreover have "concat yss \<noteq> []" using assms(3,5) by (cases yss) auto
  ultimately show ?thesis using take_all_law[OF s1(2)] by blast
qed

end

end
