(* ===== verification/MsgQueues.thy ===== *)
theory MsgQueues
  imports Message QueueContracts
begin

text \<open>
  The intrusive message queues of \<open>framework/ms\<close>: \<open>MsMessageBlockQueue\<close>, \<open>MsMessageUnsafeQueue\<close>,
  \<open>MsMessageQueue\<close>, \<open>MsMessagePriorityQueue\<close> and \<open>MsMessageBlockQueueLimit\<close>.

  A queue is a record of the class's fields beside the heap of messages, whose \<open>_next\<close> fields the
  queue owns. An operation that holds the mutex from its first to its last statement is one atomic
  step; waiting on the condition variable of an empty queue is the outcome \<open>Blocked\<close>.
\<close>

definition set_next :: "addr \<Rightarrow> IMessage \<Rightarrow> IMessage" where
  "set_next p m = m\<lparr>m_next := p\<rparr>"

interpretation ml: linked_cells m_next set_next
  by unfold_locales (simp_all add: set_next_def)

abbreviation mpath :: "mheap \<Rightarrow> addr \<Rightarrow> addr list \<Rightarrow> addr \<Rightarrow> bool" where
  "mpath \<equiv> path m_next"

abbreviation mseg :: "mheap \<Rightarrow> addr \<Rightarrow> addr \<Rightarrow> addr list \<Rightarrow> bool" where
  "mseg \<equiv> seg m_next"

section \<open>MsMessageBlockQueue\<close>

record MsMessageBlockQueue =
  bq_list :: addr
  bq_tail :: addr
  bq_list_size :: int

definition bq_new :: MsMessageBlockQueue where
  "bq_new = \<lparr>bq_list = 0, bq_tail = 0, bq_list_size = 0\<rparr>"

definition bq_getQueueSize :: "MsMessageBlockQueue \<times> mheap \<Rightarrow> int" where
  "bq_getQueueSize = (\<lambda>(q, h). bq_list_size q)"

definition bq_get :: "MsMessageBlockQueue \<times> mheap \<Rightarrow> (addr \<times> MsMessageBlockQueue \<times> mheap) res" where
  "bq_get = (\<lambda>(q, h). if bq_list_size q = 0 then Inl Blocked
     else Inr (bq_list q, q\<lparr>bq_list := 0, bq_tail := 0, bq_list_size := 0\<rparr>, h))"

text \<open>\<open>while (--count) item = item->_next;\<close>: the number of steps is \<open>count - 1\<close> as a machine integer.\<close>

primrec skip_nodes :: "nat \<Rightarrow> addr \<Rightarrow> mheap \<Rightarrow> addr res" where
  "skip_nodes 0 p h = Inr p"
| "skip_nodes (Suc k) p h = bindr (hget h p) (\<lambda>m. skip_nodes k (m_next m) h)"

definition bq_get_count :: "int \<Rightarrow> MsMessageBlockQueue \<times> mheap \<Rightarrow> (addr \<times> MsMessageBlockQueue \<times> mheap) res" where
  "bq_get_count count = (\<lambda>(q, h). if bq_list_size q = 0 then Inl Blocked
     else if count < bq_list_size q then
       bindr (skip_nodes (nat ((count - 1) mod 4294967296)) (bq_list q) h) (\<lambda>item.
       bindr (hget h item) (\<lambda>m.
       Inr (bq_list q, q\<lparr>bq_list := m_next m, bq_list_size := bq_list_size q - count\<rparr>,
            hset h item (set_next 0 m))))
     else Inr (bq_list q, q\<lparr>bq_list := 0, bq_tail := 0, bq_list_size := 0\<rparr>, h))"

definition bq_put :: "addr \<Rightarrow> MsMessageBlockQueue \<times> mheap \<Rightarrow> (MsMessageBlockQueue \<times> mheap) res" where
  "bq_put v = (\<lambda>(q, h). bindr (hmod h v (set_next 0)) (\<lambda>h.
     bindr (append_at set_next (bq_list q) (bq_tail q) v h) (\<lambda>(lst, h).
     Inr (q\<lparr>bq_list := lst, bq_tail := v, bq_list_size := bq_list_size q + 1\<rparr>, h))))"

definition bq_putList :: "addr \<Rightarrow> MsMessageBlockQueue \<times> mheap \<Rightarrow> (MsMessageBlockQueue \<times> mheap) res" where
  "bq_putList v = (\<lambda>(q, h).
     bindr (append_at set_next (bq_list q) (bq_tail q) v h) (\<lambda>(lst, h).
     bindr (to_last m_next h (h_brk h) v 1) (\<lambda>(tlp, count).
     Inr (q\<lparr>bq_list := lst, bq_tail := tlp, bq_list_size := bq_list_size q + count\<rparr>, h))))"

section \<open>MsMessageUnsafeQueue\<close>

record MsMessageUnsafeQueue =
  uq_head :: addr
  uq_tail :: addr
  uq_total_size :: int

definition uq_new :: MsMessageUnsafeQueue where
  "uq_new = \<lparr>uq_head = 0, uq_tail = 0, uq_total_size = 0\<rparr>"

definition uq_getAll :: "MsMessageUnsafeQueue \<times> mheap \<Rightarrow> (addr \<times> MsMessageUnsafeQueue \<times> mheap) res" where
  "uq_getAll = (\<lambda>(q, h). Inr (uq_head q, q\<lparr>uq_head := 0, uq_tail := 0, uq_total_size := 0\<rparr>, h))"

definition uq_get :: "MsMessageUnsafeQueue \<times> mheap \<Rightarrow> (addr \<times> MsMessageUnsafeQueue \<times> mheap) res" where
  "uq_get = (\<lambda>(q, h). if uq_head q = 0 then Inr (0, q, h)
     else bindr (hget h (uq_head q)) (\<lambda>m.
       Inr (uq_head q, q\<lparr>uq_head := m_next m, uq_tail := (if m_next m = 0 then 0 else uq_tail q),
                         uq_total_size := uq_total_size q - 1\<rparr>, h)))"

definition uq_put :: "addr \<Rightarrow> MsMessageUnsafeQueue \<times> mheap \<Rightarrow> (MsMessageUnsafeQueue \<times> mheap) res" where
  "uq_put msg = (\<lambda>(q, h).
     bindr (append_at set_next (uq_head q) (uq_tail q) msg h) (\<lambda>(hd, h).
     Inr (q\<lparr>uq_head := hd, uq_tail := msg, uq_total_size := uq_total_size q + 1\<rparr>, h)))"

section \<open>MsMessageQueue\<close>

record MsMessageQueue =
  mq_head :: addr
  mq_tail :: addr

definition mq_new :: MsMessageQueue where
  "mq_new = \<lparr>mq_head = 0, mq_tail = 0\<rparr>"

definition mq_get :: "MsMessageQueue \<times> mheap \<Rightarrow> (addr \<times> MsMessageQueue \<times> mheap) res" where
  "mq_get = (\<lambda>(q, h). Inr (mq_head q, q\<lparr>mq_head := 0, mq_tail := 0\<rparr>, h))"

definition mq_put :: "addr \<Rightarrow> MsMessageQueue \<times> mheap \<Rightarrow> (MsMessageQueue \<times> mheap) res" where
  "mq_put v = (\<lambda>(q, h).
     bindr (append_at set_next (mq_head q) (mq_tail q) v h) (\<lambda>(hd, h).
     bindr (to_last m_next h (h_brk h) v 1) (\<lambda>(tlp, _).
     Inr (q\<lparr>mq_head := hd, mq_tail := tlp\<rparr>, h))))"

section \<open>MsMessagePriorityQueue\<close>

record MsMessagePriorityQueue =
  pq_priority_num :: int
  pq_pri_queue :: "MsMessageUnsafeQueue list"
  pq_total_size :: int

text \<open>The constructor followed by \<open>init\<close>, as every owner of such a queue calls them.\<close>

definition pq_init :: "int \<Rightarrow> MsMessagePriorityQueue res" where
  "pq_init priority_num = (if priority_num \<le> 0 then Inl Assert_failed
     else Inr \<lparr>pq_priority_num = priority_num, pq_pri_queue = replicate (nat priority_num) uq_new, pq_total_size = 0\<rparr>)"

definition pq_total_size_sum :: "MsMessagePriorityQueue \<Rightarrow> int" where
  "pq_total_size_sum q = sum_list (map uq_total_size (pq_pri_queue q))"

text \<open>\<open>_get()\<close>: the loop over the levels from 0, taking from the first whose size is positive; 0 when none is.\<close>

fun pq_get_levels :: "MsMessageUnsafeQueue list \<Rightarrow> mheap \<Rightarrow> (addr \<times> MsMessageUnsafeQueue list \<times> mheap) res" where
  "pq_get_levels [] h = Inr (0, [], h)"
| "pq_get_levels (u # us) h = (if 0 < uq_total_size u
     then bindr (uq_get (u, h)) (\<lambda>(v, u', h'). Inr (v, u' # us, h'))
     else bindr (pq_get_levels us h) (\<lambda>(v, us', h'). Inr (v, u # us', h')))"

definition pq_get :: "MsMessagePriorityQueue \<times> mheap \<Rightarrow> (addr \<times> MsMessagePriorityQueue \<times> mheap) res" where
  "pq_get = (\<lambda>(q, h). if pq_total_size q = 0 then Inl Blocked
     else bindr (pq_get_levels (pq_pri_queue q) h) (\<lambda>(v, us, h).
       bindr (hmod h v (set_next 0)) (\<lambda>h.
       Inr (v, q\<lparr>pq_pri_queue := us, pq_total_size := pq_total_size q - 1\<rparr>, h))))"

definition pq_put :: "addr \<Rightarrow> int \<Rightarrow> MsMessagePriorityQueue \<times> mheap \<Rightarrow> (MsMessagePriorityQueue \<times> mheap) res" where
  "pq_put msg priority = (\<lambda>(q, h). if pq_priority_num q \<le> priority then Inr (q, h)
     else if priority < 0 \<or> length (pq_pri_queue q) \<le> nat priority then Inl Out_of_bounds
     else bindr (uq_put msg (pq_pri_queue q ! nat priority, h)) (\<lambda>(u, h).
       Inr (q\<lparr>pq_pri_queue := (pq_pri_queue q)[nat priority := u], pq_total_size := pq_total_size q + 1\<rparr>, h)))"

section \<open>MsMessageBlockQueueLimit\<close>

datatype limit_flag = NORMAL | BLOCK

record MsMessageBlockQueueLimit =
  lq_list :: addr
  lq_tail :: addr
  lq_list_size :: int
  lq_block_threshold :: int
  lq_unblock_threshold :: int
  lq_flag :: limit_flag

definition lq_new :: MsMessageBlockQueueLimit where
  "lq_new = \<lparr>lq_list = 0, lq_tail = 0, lq_list_size = 0, lq_block_threshold = 10000,
     lq_unblock_threshold = 5000, lq_flag = NORMAL\<rparr>"

definition lq_get :: "MsMessageBlockQueueLimit \<times> mheap \<Rightarrow> (addr \<times> MsMessageBlockQueueLimit \<times> mheap) res" where
  "lq_get = (\<lambda>(q, h). if lq_list_size q = 0 then Inl Blocked
     else Inr (lq_list q, q\<lparr>lq_list := 0, lq_tail := 0, lq_list_size := 0\<rparr>, h))"

definition lq_get_count :: "int \<Rightarrow> MsMessageBlockQueueLimit \<times> mheap \<Rightarrow> (addr \<times> MsMessageBlockQueueLimit \<times> mheap) res" where
  "lq_get_count count = (\<lambda>(q, h). if lq_list_size q = 0 then Inl Blocked
     else if count < lq_list_size q then
       bindr (skip_nodes (nat ((count - 1) mod 4294967296)) (lq_list q) h) (\<lambda>item.
       bindr (hget h item) (\<lambda>m.
       Inr (lq_list q, q\<lparr>lq_list := m_next m, lq_list_size := lq_list_size q - count\<rparr>,
            hset h item (set_next 0 m))))
     else Inr (lq_list q, q\<lparr>lq_list := 0, lq_tail := 0, lq_list_size := 0\<rparr>, h))"

definition lq_put_raw :: "addr \<Rightarrow> MsMessageBlockQueueLimit \<times> mheap \<Rightarrow> (MsMessageBlockQueueLimit \<times> mheap) res" where
  "lq_put_raw v = (\<lambda>(q, h).
     bindr (append_at set_next (lq_list q) (lq_tail q) v h) (\<lambda>(lst, h).
     Inr (q\<lparr>lq_list := lst, lq_tail := v, lq_list_size := lq_list_size q + 1\<rparr>, h)))"

text \<open>The three arms of the \<open>switch\<close> in \<open>put\<close>. No arm ends in \<open>break\<close>, so each falls into the next.\<close>

definition lq_arm_default :: "MsMessageBlockQueueLimit \<times> mheap \<Rightarrow> (int \<times> MsMessageBlockQueueLimit \<times> mheap) res" where
  "lq_arm_default s = Inl Abort"

definition lq_arm_block :: "addr \<Rightarrow> MsMessageBlockQueueLimit \<times> mheap \<Rightarrow> (int \<times> MsMessageBlockQueueLimit \<times> mheap) res" where
  "lq_arm_block v = (\<lambda>(q, h). if lq_list_size q \<le> lq_unblock_threshold q
     then bindr (lq_put_raw v (q\<lparr>lq_flag := NORMAL\<rparr>, h)) lq_arm_default
     else lq_arm_default (q, h))"

definition lq_arm_normal :: "addr \<Rightarrow> MsMessageBlockQueueLimit \<times> mheap \<Rightarrow> (int \<times> MsMessageBlockQueueLimit \<times> mheap) res" where
  "lq_arm_normal v = (\<lambda>(q, h). if lq_list_size q < lq_block_threshold q
     then bindr (lq_put_raw v (q, h)) (lq_arm_block v)
     else lq_arm_block v (q\<lparr>lq_flag := BLOCK\<rparr>, h))"

definition lq_put :: "addr \<Rightarrow> MsMessageBlockQueueLimit \<times> mheap \<Rightarrow> (int \<times> MsMessageBlockQueueLimit \<times> mheap) res" where
  "lq_put v = (\<lambda>(q, h). bindr (hmod h v (set_next 0)) (\<lambda>h.
     case lq_flag q of NORMAL \<Rightarrow> lq_arm_normal v (q, h) | BLOCK \<Rightarrow> lq_arm_block v (q, h)))"

section \<open>What the queues hold\<close>

definition bq_holds :: "MsMessageBlockQueue \<times> mheap \<Rightarrow> addr list \<Rightarrow> bool" where
  "bq_holds = (\<lambda>(q, h) xs. heap_ok h \<and> mseg h (bq_list q) (bq_tail q) xs \<and> bq_list_size q = int (length xs))"

definition uq_holds :: "MsMessageUnsafeQueue \<times> mheap \<Rightarrow> addr list \<Rightarrow> bool" where
  "uq_holds = (\<lambda>(q, h) xs. heap_ok h \<and> mseg h (uq_head q) (uq_tail q) xs \<and> uq_total_size q = int (length xs))"

definition mq_holds :: "MsMessageQueue \<times> mheap \<Rightarrow> addr list \<Rightarrow> bool" where
  "mq_holds = (\<lambda>(q, h) xs. heap_ok h \<and> mseg h (mq_head q) (mq_tail q) xs)"

declare bq_holds_def [inv_defs] uq_holds_def [inv_defs] mq_holds_def [inv_defs]

lemma set_next_same [simp]: "m_next m = p \<Longrightarrow> set_next p m = m"
  by (auto simp: set_next_def)

text \<open>Clearing the link of a live message outside the queue, as \<open>put\<close> does first.\<close>

lemma clear_next:
  assumes "heap_ok h" "mseg h l t xs" "live h v" "v \<notin> set xs"
  obtains m h1 where "hmod h v (set_next 0) = Inr h1" "hget h v = Inr m" "h1 = hset h v (set_next 0 m)"
    "mseg h1 l t xs" "hget h1 v = Inr (set_next 0 m)" "heap_ok h1" "relinked set_next h h1"
proof -
  obtain m where m: "hget h v = Inr m" "hmod h v (set_next 0) = Inr (hset h v (set_next 0 m))"
    using hmod_live[OF assms(3)] by blast
  show thesis
    by (rule that[OF m(2,1) refl]) (use assms m in \<open>auto simp: hget_Inr heap_simps intro: ml.relinked_hset\<close>)
qed

lemma bq_put_ok:
  assumes "bq_holds (q, h) xs" "live h v" "v \<notin> set xs"
  shows "\<exists>q' h'. bq_put v (q, h) = Inr (q', h') \<and> bq_holds (q', h') (xs @ [v]) \<and> relinked set_next h h' \<and>
    (\<forall>a. a \<notin> set (xs @ [v]) \<longrightarrow> h_cells h' a = h_cells h a)"
proof -
  have s: "heap_ok h" "mseg h (bq_list q) (bq_tail q) xs" using assms(1) by (auto simp: bq_holds_def)
  obtain m h1 where h1: "hmod h v (set_next 0) = Inr h1" "h1 = hset h v (set_next 0 m)"
    "mseg h1 (bq_list q) (bq_tail q) xs" "hget h1 v = Inr (set_next 0 m)" "heap_ok h1" "relinked set_next h h1"
    using clear_next[OF s assms(2,3)] by metis
  from ml.append_one[OF h1(3,4) _ assms(3)] obtain lst h2 where h2:
    "append_at set_next (bq_list q) (bq_tail q) v h1 = Inr (lst, h2)" "mseg h2 lst v (xs @ [v])"
    "relinked set_next h1 h2" "\<forall>a. a \<notin> set xs \<longrightarrow> h_cells h2 a = h_cells h1 a" by auto
  have "heap_ok h2" "relinked set_next h h2"
    using h1(5,6) h2(3) relinked_ok relinked_trans by blast+
  then show ?thesis using assms(1) h1(1,2) h2 by (auto simp: bq_put_def bq_holds_def)
qed

lemma putList_walk:
  assumes "heap_ok h" "mseg h l t xs" "mpath h v ys 0" "ys \<noteq> []" "set xs \<inter> set ys = {}"
  shows "\<exists>lst h'. append_at set_next l t v h = Inr (lst, h') \<and> mseg h' lst (last ys) (xs @ ys) \<and>
    to_last m_next h' (h_brk h') v 1 = Inr (last ys, int (length ys)) \<and> heap_ok h' \<and> relinked set_next h h' \<and>
    (\<forall>a. a \<notin> set xs \<longrightarrow> h_cells h' a = h_cells h a)"
proof -
  from ml.append_at_ok[OF assms(2-5)] obtain lst h' where h':
    "append_at set_next l t v h = Inr (lst, h')" "mseg h' lst (last ys) (xs @ ys)"
    "relinked set_next h h'" "\<And>a. a \<notin> set xs \<Longrightarrow> h_cells h' a = h_cells h a" by auto
  have ok: "heap_ok h'" using h'(3) assms(1) relinked_ok by blast
  have "mpath h' v ys 0" using assms(3,5) h'(4) by (auto intro: path_frame)
  from to_last_ok[OF ok this assms(4), of 1] show ?thesis using h' ok by simp
qed

lemma bq_putList_ok:
  assumes "bq_holds (q, h) xs" "mpath h v ys 0" "ys \<noteq> []" "set xs \<inter> set ys = {}"
  shows "\<exists>q' h'. bq_putList v (q, h) = Inr (q', h') \<and> bq_holds (q', h') (xs @ ys) \<and> relinked set_next h h' \<and>
    (\<forall>a. a \<notin> set xs \<longrightarrow> h_cells h' a = h_cells h a)"
proof -
  have s: "heap_ok h" "mseg h (bq_list q) (bq_tail q) xs" using assms(1) by (auto simp: bq_holds_def)
  from putList_walk[OF s assms(2-4)] show ?thesis
    using assms(1) by (auto simp: bq_putList_def bq_holds_def)
qed

lemma mq_put_ok:
  assumes "mq_holds (q, h) xs" "mpath h v ys 0" "ys \<noteq> []" "set xs \<inter> set ys = {}"
  shows "\<exists>q' h'. mq_put v (q, h) = Inr (q', h') \<and> mq_holds (q', h') (xs @ ys) \<and> relinked set_next h h' \<and>
    (\<forall>a. a \<notin> set xs \<longrightarrow> h_cells h' a = h_cells h a)"
proof -
  have s: "heap_ok h" "mseg h (mq_head q) (mq_tail q) xs" using assms(1) by (auto simp: mq_holds_def)
  from putList_walk[OF s assms(2-4)] show ?thesis by (auto simp: mq_put_def mq_holds_def)
qed

lemma bq_get_ok:
  assumes "bq_holds (q, h) xs" "xs \<noteq> []"
  shows "\<exists>p q'. bq_get (q, h) = Inr (p, q', h) \<and> mpath h p xs 0 \<and> bq_holds (q', h) []"
  using assms by (auto simp: bq_get_def bq_holds_def seg_def)

lemma bq_get_blocks: "bq_holds (q, h) [] \<Longrightarrow> bq_get (q, h) = Inl Blocked"
  by (simp add: bq_get_def bq_holds_def)

lemma uq_put_ok:
  assumes "uq_holds (q, h) xs" "hget h v = Inr m" "m_next m = 0" "v \<notin> set xs"
  shows "\<exists>q' h'. uq_put v (q, h) = Inr (q', h') \<and> uq_holds (q', h') (xs @ [v]) \<and> relinked set_next h h' \<and>
    (\<forall>a. a \<notin> set xs \<longrightarrow> h_cells h' a = h_cells h a)"
proof -
  have s: "heap_ok h" "mseg h (uq_head q) (uq_tail q) xs" using assms(1) by (auto simp: uq_holds_def)
  from ml.append_one[OF s(2) assms(2-4)] obtain hd h2 where h2:
    "append_at set_next (uq_head q) (uq_tail q) v h = Inr (hd, h2)" "mseg h2 hd v (xs @ [v])"
    "relinked set_next h h2" "\<forall>a. a \<notin> set xs \<longrightarrow> h_cells h2 a = h_cells h a" by auto
  moreover have "heap_ok h2" using s h2(3) relinked_ok by blast
  ultimately show ?thesis using assms(1) by (auto simp: uq_put_def uq_holds_def)
qed

lemma uq_get_ok:
  assumes "uq_holds (q, h) (x # xs)"
  shows "\<exists>q'. uq_get (q, h) = Inr (x, q', h) \<and> uq_holds (q', h) xs"
proof -
  have s: "mseg h (uq_head q) (uq_tail q) (x # xs)" using assms by (simp add: uq_holds_def)
  from seg_Cons[OF s] obtain m where m: "hget h (uq_head q) = Inr m" "uq_head q = x"
    "mseg h (m_next m) (tail_of xs) xs" by auto
  have "x \<noteq> 0" using m by (simp add: hget_Inr)
  moreover have "(if m_next m = 0 then 0 else uq_tail q) = tail_of xs"
    using seg_head_null[OF m(3)] s by (auto simp: seg_def tail_of_def)
  ultimately show ?thesis using assms m by (simp add: uq_get_def uq_holds_def)
qed

lemma uq_get_empty: "uq_holds (q, h) [] \<Longrightarrow> uq_get (q, h) = Inr (0, q, h)"
  by (simp add: uq_get_def uq_holds_def)

section \<open>Taking a bounded number of messages\<close>

lemma skip_nodes_path: "mpath h p xs 0 \<Longrightarrow> k < length xs \<Longrightarrow> skip_nodes k p h = Inr (xs ! k)"
proof (induction k arbitrary: p xs)
  case 0 then show ?case by (cases xs) auto
next
  case (Suc k) then show ?case by (cases xs) (auto simp: hget_def split: option.splits)
qed

lemma skip_nodes_off_end: "mpath h p xs 0 \<Longrightarrow> length xs < k \<Longrightarrow> skip_nodes k p h = Inl Null_deref"
proof (induction k arbitrary: p xs)
  case (Suc k) then show ?case by (cases xs) (auto simp: hget_def split: option.splits)
qed simp

text \<open>Cutting a list after its first \<open>n\<close> messages.\<close>

lemma cut_after:
  assumes p: "mpath h p xs 0" and n: "0 < n" "n < length xs"
  shows "\<exists>m. hget h (xs ! (n - 1)) = Inr m \<and>
    mpath (hset h (xs ! (n - 1)) (set_next 0 m)) p (take n xs) 0 \<and>
    mseg (hset h (xs ! (n - 1)) (set_next 0 m)) (m_next m) (last xs) (drop n xs)"
proof -
  define x where "x = xs ! (n - 1)"
  obtain k where k: "n = Suc k" using n by (cases n) auto
  have tk: "take n xs = take k xs @ [x]" using n k by (simp add: x_def take_Suc_conv_app_nth)
  have d: "distinct (take n xs @ drop n xs)" using path_distinct[OF p] by simp
  have "mpath h p (take n xs @ drop n xs) 0" using p by simp
  then obtain r where r: "mpath h p (take k xs @ [x]) r" "mpath h r (drop n xs) 0"
    unfolding path_append tk by blast
  obtain m where m: "hget h x = Inr m"
    using path_live[OF r(1), of x] by (auto simp: live_iff_hget)
  have nx: "m_next m = r" using r(1) m by (auto simp: path_append hget_Inr)
  have "x \<notin> set (take k xs)" "x \<notin> set (drop n xs)"
    using d unfolding tk by auto
  then have "mpath (hset h x (set_next 0 m)) p (take n xs) 0" "mpath (hset h x (set_next 0 m)) r (drop n xs) 0"
    using ml.path_relink[OF r(1) _ m] r(2) tk by simp_all
  then show ?thesis using m nx n unfolding x_def[symmetric]
    by (auto simp: seg_def tail_of_def)
qed

lemma bq_get_count_ok:
  assumes "bq_holds (q, h) xs" "xs \<noteq> []" "0 < count" "count < 4294967296"
  shows "\<exists>p q' h'. bq_get_count count (q, h) = Inr (p, q', h') \<and>
    mpath h' p (take (nat count) xs) 0 \<and> bq_holds (q', h') (drop (nat count) xs) \<and> relinked set_next h h' \<and>
    (\<forall>a. a \<notin> set xs \<longrightarrow> h_cells h' a = h_cells h a)"
proof (cases "count < int (length xs)")
  case False
  then show ?thesis using assms by (auto simp: bq_get_count_def bq_holds_def seg_def)
next
  case True
  have p: "mpath h (bq_list q) xs 0" and t: "bq_tail q = last xs" and ok: "heap_ok h"
    and sz: "bq_list_size q = int (length xs)"
    using assms(1,2) by (auto simp: bq_holds_def seg_def)
  define x where "x = xs ! (nat count - 1)"
  have n: "0 < nat count" "nat count < length xs" using True assms(3) by auto
  have st: "nat (count - 1) = nat count - 1" using assms(3) by simp
  have sk: "skip_nodes (nat (count - 1)) (bq_list q) h = Inr x"
    unfolding x_def st using n by (intro skip_nodes_path[OF p]) simp
  obtain m where m: "hget h x = Inr m" "mpath (hset h x (set_next 0 m)) (bq_list q) (take (nat count) xs) 0"
    "mseg (hset h x (set_next 0 m)) (m_next m) (last xs) (drop (nat count) xs)"
    using cut_after[OF p n] unfolding x_def by blast
  have x: "x \<in> set xs" using n by (auto simp: x_def)
  have "live h x" using path_live[OF p x] .
  moreover have "bq_get_count count (q, h) = Inr (bq_list q, q\<lparr>bq_list := m_next m, bq_list_size := bq_list_size q - count\<rparr>,
      hset h x (set_next 0 m))"
    using True assms(2,3,4) sz m(1) sk by (simp add: bq_get_count_def)
  ultimately show ?thesis using n m ok t sz x
    by (auto simp: bq_holds_def of_nat_diff intro: ml.relinked_hset)
qed

lemma bq_get_count_nonpos:
  assumes "bq_holds (q, h) xs" "xs \<noteq> []" "count \<le> 0" "int (length xs) < 2147483647" "- 2147483648 \<le> count"
  shows "bq_get_count count (q, h) = Inl Null_deref"
proof -
  have "(count - 1) mod 4294967296 = (count - 1 + 4294967296) mod 4294967296" by (rule mod_add_self2[symmetric])
  also have "\<dots> = count - 1 + 4294967296" using assms(3,5) by (intro mod_pos_pos_trivial) simp_all
  finally have "length xs < nat ((count - 1) mod 4294967296)" using assms(3,4,5) by linarith
  moreover have p: "mpath h (bq_list q) xs 0" and sz: "bq_list_size q = int (length xs)"
    using assms(1) by (auto simp: bq_holds_def seg_def)
  ultimately have "skip_nodes (nat ((count - 1) mod 4294967296)) (bq_list q) h = Inl Null_deref"
    by (intro skip_nodes_off_end)
  moreover have "0 < int (length xs)" using assms(2) by simp
  then have "count < bq_list_size q" "bq_list_size q \<noteq> 0" using sz assms(3) by linarith+
  ultimately show ?thesis unfolding bq_get_count_def by (simp only: prod.case if_False if_True bindr.simps)
qed

section \<open>The priority queue\<close>

text \<open>Removing the first element of the first non-empty level.\<close>

fun pop_first :: "'a list list \<Rightarrow> 'a list list" where
  "pop_first [] = []"
| "pop_first ([] # xss) = [] # pop_first xss"
| "pop_first ((x # xs) # xss) = xs # xss"

definition pq_holds :: "MsMessagePriorityQueue \<times> mheap \<Rightarrow> addr list list \<Rightarrow> bool" where
  "pq_holds = (\<lambda>(q, h) xss. heap_ok h \<and> xss \<noteq> [] \<and> pq_priority_num q = int (length xss) \<and>
     list_all2 (\<lambda>u xs. uq_holds (u, h) xs) (pq_pri_queue q) xss \<and> distinct (concat xss) \<and>
     pq_total_size q = int (length (concat xss)))"

lemma concat_pop_first: "concat (pop_first xss) = tl (concat xss)"
  by (induction xss rule: pop_first.induct) auto

lemma length_pop_first [simp]: "length (pop_first xss) = length xss"
  by (induction xss rule: pop_first.induct) auto

lemma pop_first_Nil [simp]: "pop_first xss = [] \<longleftrightarrow> xss = []"
  by (cases xss rule: pop_first.cases) auto

lemma uq_holds_frame:
  "uq_holds (u, h) xs \<Longrightarrow> heap_ok h' \<Longrightarrow> (\<And>a. a \<in> set xs \<Longrightarrow> h_cells h' a = h_cells h a) \<Longrightarrow> uq_holds (u, h') xs"
  by (auto simp: uq_holds_def seg_def intro: path_frame)

lemma uq_holds_size: "uq_holds (u, h) xs \<Longrightarrow> 0 < uq_total_size u \<longleftrightarrow> xs \<noteq> []"
  by (auto simp: uq_holds_def)

lemma uq_levels_live:
  "list_all2 (\<lambda>u xs. uq_holds (u, h) xs) us xss \<Longrightarrow> v \<in> set (concat xss) \<Longrightarrow> live h v"
  by (induction rule: list_all2_induct) (auto simp: uq_holds_def dest: seg_live)

lemma pq_get_levels_ok:
  assumes "list_all2 (\<lambda>u xs. uq_holds (u, h) xs) us xss" "concat xss \<noteq> []"
  shows "\<exists>us'. pq_get_levels us h = Inr (hd (concat xss), us', h) \<and>
    list_all2 (\<lambda>u xs. uq_holds (u, h) xs) us' (pop_first xss)"
  using assms
proof (induction us arbitrary: xss)
  case (Cons u us)
  then obtain xs yss where x: "xss = xs # yss" "uq_holds (u, h) xs" "list_all2 (\<lambda>u xs. uq_holds (u, h) xs) us yss"
    by (auto simp: list_all2_Cons1)
  show ?case
  proof (cases xs)
    case Nil
    with x uq_holds_size[OF x(2)] Cons.IH[OF x(3)] Cons.prems(2) show ?thesis by auto
  next
    case (Cons y ys)
    with x uq_holds_size[OF x(2)] uq_get_ok[of u h y ys] show ?thesis by auto
  qed
qed simp

lemma pq_init_holds: "heap_ok h \<Longrightarrow> 0 < n \<Longrightarrow> \<exists>q. pq_init n = Inr q \<and> pq_holds (q, h) (replicate (nat n) [])"
  by (simp add: pq_init_def pq_holds_def uq_holds_def uq_new_def list_all2_conv_all_nth concat_replicate_trivial)

lemma pq_get_ok:
  assumes "pq_holds (q, h) xss" "concat xss \<noteq> []"
  shows "\<exists>q' m. hget h (hd (concat xss)) = Inr m \<and>
    pq_get (q, h) = Inr (hd (concat xss), q', hset h (hd (concat xss)) (set_next 0 m)) \<and>
    pq_holds (q', hset h (hd (concat xss)) (set_next 0 m)) (pop_first xss)"
proof -
  define v where "v = hd (concat xss)"
  have l: "list_all2 (\<lambda>u xs. uq_holds (u, h) xs) (pq_pri_queue q) xss" and ok: "heap_ok h"
    and d: "distinct (concat xss)" using assms(1) by (auto simp: pq_holds_def)
  from pq_get_levels_ok[OF l assms(2)] obtain us where us: "pq_get_levels (pq_pri_queue q) h = Inr (v, us, h)"
    "list_all2 (\<lambda>u xs. uq_holds (u, h) xs) us (pop_first xss)" by (auto simp: v_def)
  have "v \<in> set (concat xss)" using assms(2) unfolding v_def by (rule hd_in_set)
  then have live: "live h v" by (rule uq_levels_live[OF l])
  then obtain m where m: "hget h v = Inr m" by (auto simp: live_iff_hget)
  define h' where "h' = hset h v (set_next 0 m)"
  have ok': "heap_ok h'" using ok live by (simp add: h'_def)
  have "v \<notin> set (tl (concat xss))" using d assms(2) unfolding v_def by (cases "concat xss") auto
  then have nv: "v \<notin> set (concat (pop_first xss))" by (simp add: concat_pop_first)
  have "list_all2 (\<lambda>u xs. uq_holds (u, h') xs) us (pop_first xss)"
  proof (rule list.rel_mono_strong[OF us(2)])
    fix u xs assume "xs \<in> set (pop_first xss)" and u: "uq_holds (u, h) xs"
    then have "v \<notin> set xs" using nv by auto
    with u ok' show "uq_holds (u, h') xs" by (auto simp: h'_def intro: uq_holds_frame)
  qed
  moreover have "distinct (concat (pop_first xss))" using d by (simp add: concat_pop_first distinct_tl)
  moreover have "int (length (concat (pop_first xss))) = int (length (concat xss)) - 1"
    using assms(2) unfolding concat_pop_first by (cases "concat xss") auto
  moreover have "pq_get (q, h) = Inr (v, q\<lparr>pq_pri_queue := us, pq_total_size := pq_total_size q - 1\<rparr>, h')"
    using assms us(1) m by (simp add: pq_get_def pq_holds_def heap_simps h'_def)
  ultimately show ?thesis using assms(1) ok' m unfolding v_def[symmetric]
    by (intro exI[of _ "q\<lparr>pq_pri_queue := us, pq_total_size := pq_total_size q - 1\<rparr>"] exI[of _ m])
      (simp add: pq_holds_def h'_def[symmetric])
qed

lemma pq_put_ok:
  assumes "pq_holds (q, h) xss" "0 \<le> i" "i < int (length xss)" "hget h v = Inr m" "m_next m = 0" "v \<notin> set (concat xss)"
  shows "\<exists>q' h'. pq_put v i (q, h) = Inr (q', h') \<and> pq_holds (q', h') (xss[nat i := xss ! nat i @ [v]]) \<and>
    relinked set_next h h' \<and> (\<forall>a. a \<notin> set (concat xss) \<longrightarrow> h_cells h' a = h_cells h a)"
proof -
  define k where "k = nat i"
  have k: "k < length xss" using assms(2,3) by (simp add: k_def nat_less_iff)
  have l: "list_all2 (\<lambda>u xs. uq_holds (u, h) xs) (pq_pri_queue q) xss" and ok: "heap_ok h" and d: "distinct (concat xss)"
    and n: "pq_priority_num q = int (length xss)" and sz: "pq_total_size q = int (length (concat xss))"
    using assms(1) by (auto simp: pq_holds_def)
  have uk: "uq_holds (pq_pri_queue q ! k, h) (xss ! k)" and len: "length (pq_pri_queue q) = length xss"
    using l k by (auto simp: list_all2_conv_all_nth)
  have vk: "v \<notin> set (xss ! k)" using assms(6) k by auto
  from uq_put_ok[OF uk assms(4,5) vk] obtain u h' where u: "uq_put v (pq_pri_queue q ! k, h) = Inr (u, h')"
    "uq_holds (u, h') (xss ! k @ [v])" "relinked set_next h h'" "\<forall>a. a \<notin> set (xss ! k) \<longrightarrow> h_cells h' a = h_cells h a"
    by auto
  have ok': "heap_ok h'" using u(2) by (simp add: uq_holds_def)
  have lv: "list_all2 (\<lambda>u xs. uq_holds (u, h') xs) ((pq_pri_queue q)[k := u]) (xss[k := xss ! k @ [v]])"
    unfolding list_all2_conv_all_nth
  proof (intro conjI allI impI)
    fix j assume "j < length ((pq_pri_queue q)[k := u])"
    then have j: "j < length xss" using len by simp
    show "uq_holds ((pq_pri_queue q)[k := u] ! j, h') (xss[k := xss ! k @ [v]] ! j)"
    proof (cases "j = k")
      case True then show ?thesis using u(2) k len by simp
    next
      case False
      have "set (xss ! j) \<inter> set (xss ! k) = {}" using distinct_concat_disjoint[OF d j k False] .
      with u(4) have "\<And>a. a \<in> set (xss ! j) \<Longrightarrow> h_cells h' a = h_cells h a" by blast
      moreover have "uq_holds (pq_pri_queue q ! j, h) (xss ! j)" using l j by (auto simp: list_all2_conv_all_nth)
      ultimately show ?thesis using False ok' uq_holds_frame by simp
    qed
  qed (simp add: len)
  have split: "xss = take k xss @ xss ! k # drop (Suc k) xss" using k by (rule id_take_nth_drop)
  have upd: "xss[k := xss ! k @ [v]] = take k xss @ (xss ! k @ [v]) # drop (Suc k) xss"
    using k by (rule upd_conv_take_nth_drop)
  have c: "concat xss = concat (take k xss) @ xss ! k @ concat (drop (Suc k) xss)"
    by (subst split) simp
  have "distinct (concat (xss[k := xss ! k @ [v]]))" using d assms(6) unfolding upd c by auto
  moreover have "int (length (concat (xss[k := xss ! k @ [v]]))) = int (length (concat xss)) + 1" unfolding upd c by simp
  moreover have "pq_put v i (q, h) = Inr (q\<lparr>pq_pri_queue := (pq_pri_queue q)[k := u], pq_total_size := pq_total_size q + 1\<rparr>, h')"
    using assms(2,3) n len u(1) k by (simp add: pq_put_def k_def)
  moreover have "\<forall>a. a \<notin> set (concat xss) \<longrightarrow> h_cells h' a = h_cells h a" using u(4) k by auto
  ultimately show ?thesis using ok' lv n sz u(3) k unfolding k_def[symmetric]
    by (intro exI[of _ "q\<lparr>pq_pri_queue := (pq_pri_queue q)[k := u], pq_total_size := pq_total_size q + 1\<rparr>"] exI[of _ h'])
      (use k in \<open>auto simp: pq_holds_def\<close>)
qed

section \<open>The queues meet their contracts\<close>

text \<open>A message may be put when it is allocated and not in the queue already; the unsafe queue does not
  clear the link of what it is given, so there the link must be null.\<close>

definition in_chain :: "mheap \<Rightarrow> addr \<Rightarrow> addr \<Rightarrow> bool" where
  "in_chain h p v = (case nodes_of m_next h (h_brk h) p of Inl _ \<Rightarrow> True | Inr xs \<Rightarrow> v \<in> set xs)"

definition bq_admits :: "MsMessageBlockQueue \<times> mheap \<Rightarrow> addr \<Rightarrow> bool" where
  "bq_admits = (\<lambda>(q, h) v. live h v \<and> \<not> in_chain h (bq_list q) v)"

definition uq_admits :: "MsMessageUnsafeQueue \<times> mheap \<Rightarrow> addr \<Rightarrow> bool" where
  "uq_admits = (\<lambda>(q, h) v. live h v \<and> map_option m_next (h_cells h v) = Some 0 \<and> \<not> in_chain h (uq_head q) v)"

definition mchain :: "'q \<times> mheap \<Rightarrow> addr \<Rightarrow> addr list \<Rightarrow> bool" where
  "mchain = (\<lambda>(q, h) p xs. mpath h p xs 0)"

lemma in_chain_seg: "heap_ok h \<Longrightarrow> mseg h l t xs \<Longrightarrow> in_chain h l v \<longleftrightarrow> v \<in> set xs"
  using nodes_of_ok[of h m_next l xs] by (simp add: in_chain_def seg_def)

lemma bq_admits_holds: "bq_holds (q, h) xs \<Longrightarrow> bq_admits (q, h) v \<longleftrightarrow> live h v \<and> v \<notin> set xs"
  using in_chain_seg by (auto simp: bq_admits_def bq_holds_def)

lemma uq_admits_holds:
  "uq_holds (q, h) xs \<Longrightarrow> uq_admits (q, h) v \<longleftrightarrow> (\<exists>m. hget h v = Inr m \<and> m_next m = 0) \<and> v \<notin> set xs"
  using in_chain_seg by (auto simp: uq_admits_def uq_holds_def live_def hget_Inr)

interpretation bq_fifo: fifo_queue bq_holds bq_admits "\<lambda>e d. d \<noteq> e" "\<lambda>n s. True" bq_put "bq_get_count 1"
proof
  fix s :: "MsMessageBlockQueue \<times> mheap" and xs e and n :: nat
  obtain q h where s: "s = (q, h)" by (cases s)
  assume a: "bq_holds s xs" "bq_admits s e"
  with s bq_put_ok[of q h xs e] obtain q' h' where p: "bq_put e s = Inr (q', h')" "bq_holds (q', h') (xs @ [e])"
    "relinked set_next h h'" by (auto simp: bq_admits_holds)
  have "\<forall>d. d \<noteq> e \<longrightarrow> bq_admits s d \<longrightarrow> bq_admits (q', h') d"
    using a s p by (auto simp: bq_admits_holds relinked_live)
  with p show "\<exists>s'. bq_put e s = Inr s' \<and> bq_holds s' (xs @ [e]) \<and> True \<and>
      (\<forall>d. d \<noteq> e \<longrightarrow> bq_admits s d \<longrightarrow> bq_admits s' d)" by blast
next
  fix s :: "MsMessageBlockQueue \<times> mheap" and x xs
  obtain q h where s: "s = (q, h)" by (cases s)
  assume a: "bq_holds s (x # xs)"
  with s bq_get_count_ok[of q h "x # xs" 1] obtain p q' h' where p: "bq_get_count 1 s = Inr (p, q', h')"
    "mpath h' p [x] 0" "bq_holds (q', h') xs" "relinked set_next h h'" by auto
  have "\<forall>d. bq_admits s d \<longrightarrow> bq_admits (q', h') d"
    using a s p by (auto simp: bq_admits_holds relinked_live)
  moreover have "p = x" using p(2) by simp
  ultimately show "\<exists>s'. bq_get_count 1 s = Inr (x, s') \<and> bq_holds s' xs \<and> (\<forall>n. True \<longrightarrow> True) \<and>
      (\<forall>d. bq_admits s d \<longrightarrow> bq_admits s' d)" using p by blast
qed

interpretation uq_fifo: fifo_queue uq_holds uq_admits "\<lambda>e d. d \<noteq> e" "\<lambda>n s. True" uq_put uq_get
proof
  fix s :: "MsMessageUnsafeQueue \<times> mheap" and xs e and n :: nat
  obtain q h where s: "s = (q, h)" by (cases s)
  assume a: "uq_holds s xs" "uq_admits s e"
  with s uq_put_ok[of q h xs e] obtain q' h' where p: "uq_put e s = Inr (q', h')" "uq_holds (q', h') (xs @ [e])"
    "relinked set_next h h'" "\<forall>a. a \<notin> set xs \<longrightarrow> h_cells h' a = h_cells h a" by (auto simp: uq_admits_holds)
  have "\<forall>d. d \<noteq> e \<longrightarrow> uq_admits s d \<longrightarrow> uq_admits (q', h') d"
    using a s p by (auto simp: uq_admits_holds hget_Inr)
  with p show "\<exists>s'. uq_put e s = Inr s' \<and> uq_holds s' (xs @ [e]) \<and> True \<and>
      (\<forall>d. d \<noteq> e \<longrightarrow> uq_admits s d \<longrightarrow> uq_admits s' d)" by blast
next
  fix s :: "MsMessageUnsafeQueue \<times> mheap" and x xs
  obtain q h where s: "s = (q, h)" by (cases s)
  assume a: "uq_holds s (x # xs)"
  with s uq_get_ok[of q h x xs] obtain q' where p: "uq_get s = Inr (x, q', h)" "uq_holds (q', h) xs" by auto
  have "\<forall>d. uq_admits s d \<longrightarrow> uq_admits (q', h) d" using a s p by (auto simp: uq_admits_holds)
  with p show "\<exists>s'. uq_get s = Inr (x, s') \<and> uq_holds s' xs \<and> (\<forall>n. True \<longrightarrow> True) \<and>
      (\<forall>d. uq_admits s d \<longrightarrow> uq_admits s' d)" by blast
qed

lemma mchain_frame:
  "mchain (q, h) p zs \<Longrightarrow> set zs \<inter> set xs = {} \<Longrightarrow> (\<forall>a. a \<notin> set xs \<longrightarrow> h_cells h' a = h_cells h a) \<Longrightarrow> mchain (q', h') p zs"
  by (auto simp: mchain_def intro: path_frame)

interpretation bq_batch: batch_queue bq_holds mchain bq_putList bq_get
proof
  fix s :: "MsMessageBlockQueue \<times> mheap" and xs p ys
  obtain q h where s: "s = (q, h)" by (cases s)
  assume "bq_holds s xs" "mchain s p ys" "ys \<noteq> []" "set xs \<inter> set ys = {}"
  with s bq_putList_ok[of q h xs p ys] obtain q' h' where p: "bq_putList p s = Inr (q', h')" "bq_holds (q', h') (xs @ ys)"
    "\<forall>a. a \<notin> set xs \<longrightarrow> h_cells h' a = h_cells h a" by (auto simp: mchain_def)
  then have "\<forall>q zs. mchain s q zs \<longrightarrow> set zs \<inter> set (xs @ ys) = {} \<longrightarrow> mchain (q', h') q zs"
    using s mchain_frame[of q h _ _ xs h' q'] by auto
  with p show "\<exists>s'. bq_putList p s = Inr s' \<and> bq_holds s' (xs @ ys) \<and>
      (\<forall>q zs. mchain s q zs \<longrightarrow> set zs \<inter> set (xs @ ys) = {} \<longrightarrow> mchain s' q zs)" by blast
next
  fix s :: "MsMessageBlockQueue \<times> mheap" and xs
  obtain q h where s: "s = (q, h)" by (cases s)
  assume "bq_holds s xs" "xs \<noteq> []"
  with s bq_get_ok[of q h xs] obtain p q' where "bq_get s = Inr (p, q', h)" "mpath h p xs 0" "bq_holds (q', h) []" by auto
  then show "\<exists>p s'. bq_get s = Inr (p, s') \<and> mchain s' p xs \<and> bq_holds s' [] \<and> (\<forall>q zs. mchain s q zs \<longrightarrow> mchain s' q zs)"
    using s by (intro exI[of _ p] exI[of _ "(q', h)"]) (simp add: mchain_def)
qed

interpretation mq_batch: batch_queue mq_holds mchain mq_put mq_get
proof
  fix s :: "MsMessageQueue \<times> mheap" and xs p ys
  obtain q h where s: "s = (q, h)" by (cases s)
  assume "mq_holds s xs" "mchain s p ys" "ys \<noteq> []" "set xs \<inter> set ys = {}"
  with s mq_put_ok[of q h xs p ys] obtain q' h' where p: "mq_put p s = Inr (q', h')" "mq_holds (q', h') (xs @ ys)"
    "\<forall>a. a \<notin> set xs \<longrightarrow> h_cells h' a = h_cells h a" by (auto simp: mchain_def)
  then have "\<forall>q zs. mchain s q zs \<longrightarrow> set zs \<inter> set (xs @ ys) = {} \<longrightarrow> mchain (q', h') q zs"
    using s mchain_frame[of q h _ _ xs h' q'] by auto
  with p show "\<exists>s'. mq_put p s = Inr s' \<and> mq_holds s' (xs @ ys) \<and>
      (\<forall>q zs. mchain s q zs \<longrightarrow> set zs \<inter> set (xs @ ys) = {} \<longrightarrow> mchain s' q zs)" by blast
next
  fix s :: "MsMessageQueue \<times> mheap" and xs
  obtain q h where s: "s = (q, h)" by (cases s)
  assume "mq_holds s xs" "xs \<noteq> []"
  then show "\<exists>p s'. mq_get s = Inr (p, s') \<and> mchain s' p xs \<and> mq_holds s' [] \<and> (\<forall>q zs. mchain s q zs \<longrightarrow> mchain s' q zs)"
    using s by (auto simp: mq_get_def mq_holds_def mchain_def seg_def)
qed

section \<open>Properties\<close>

text \<open>A heap of \<open>k\<close> unlinked messages, for the examples.\<close>

definition some_msgs :: "nat \<Rightarrow> mheap" where
  "some_msgs k = \<lparr>h_cells = (\<lambda>a. if 0 < a \<and> a \<le> k then Some (new_IMessage (malloc_bytes 8) 8 0 8) else None),
     h_brk = Suc k, h_lim = 1000\<rparr>"

lemma some_msgs_ok [simp]: "heap_ok (some_msgs k)"
  by (simp add: heap_ok_def some_msgs_def)

lemma live_some_msgs [simp]: "live (some_msgs k) a \<longleftrightarrow> 0 < a \<and> a \<le> k"
  by (simp add: live_def some_msgs_def)

lemma bq_holds_new [simp]: "bq_holds (bq_new, h) [] \<longleftrightarrow> heap_ok h"
  by (simp add: bq_holds_def bq_new_def)

text \<open>C23: The blocking queue is a first-in first-out queue: any interleaving of \<open>put\<close> and \<open>get(1)\<close> that the
  abstract queue can make, with each message put once, runs without a fault, returns the messages the abstract
  queue returns, and leaves the queue holding what the abstract queue holds.\<close>

theorem block_queue_is_fifo:
  assumes "bq_holds s xs" "spec_run ops xs = Some (outs, ys)"
    "\<forall>e \<in> set (puts_of ops). bq_admits s e" "distinct (puts_of ops)"
  shows "\<exists>s'. impl_run bq_put (bq_get_count 1) ops s = Inr (outs, s') \<and> bq_holds s' ys"
  using bq_fifo.run_refines[OF assms(1,2,3)] assms(4) by (simp add: sorted_wrt_neq)

theorem block_queue_is_fifo_witness:
  "\<exists>s'. impl_run bq_put (bq_get_count 1) [Put 3, Put 1, Get, Put 2, Get] (bq_new, some_msgs 3) = Inr ([3, 1], s') \<and>
     bq_holds s' [2]"
  by (rule block_queue_is_fifo[of _ "[]"]) (auto simp: bq_admits_holds[of _ _ "[]"])

text \<open>Producers that hand over chains with \<open>putList\<close> and a consumer that takes everything with \<open>get()\<close>: the
  consumer receives one null-terminated chain with every message of every producer's chain, in the order of
  the puts, and the queue is empty afterwards.\<close>

lemma block_queue_batches_in_order:
  assumes "bq_holds s []" "list_all2 (mchain s) ps yss" "[] \<notin> set yss" "distinct (concat yss)" "yss \<noteq> []"
  shows "\<exists>s1 p s2. put_lists bq_putList ps s = Inr s1 \<and> bq_get s1 = Inr (p, s2) \<and>
    mchain s2 p (concat yss) \<and> bq_holds s2 []"
  using bq_batch.batches_in_order[OF assms] .

text \<open>C24: The priority queue serves the highest priority first and each priority in order of arrival: after a \<open>put\<close> at a
  valid level, \<open>get\<close> returns the oldest message of the first non-empty level with its link cleared, and
  leaves all other messages queued in their order.\<close>

theorem priority_queue_order:
  assumes "pq_holds (q, h) xss" "0 \<le> i" "i < int (length xss)" "hget h v = Inr m" "m_next m = 0" "v \<notin> set (concat xss)"
    "yss = xss[nat i := xss ! nat i @ [v]]"
  shows "\<exists>q1 h1 q2 h2 m'. pq_put v i (q, h) = Inr (q1, h1) \<and> pq_holds (q1, h1) yss \<and>
    pq_get (q1, h1) = Inr (hd (concat yss), q2, h2) \<and> pq_holds (q2, h2) (pop_first yss) \<and>
    hget h2 (hd (concat yss)) = Inr m' \<and> m_next m' = 0"
proof -
  from pq_put_ok[OF assms(1-6)] assms(7) obtain q1 h1 where 1: "pq_put v i (q, h) = Inr (q1, h1)" "pq_holds (q1, h1) yss"
    by auto
  have "nat i < length xss" using assms(2,3) by (simp add: nat_less_iff)
  then have "xss ! nat i @ [v] \<in> set yss" using assms(7) by (simp add: set_update_memI)
  then have "concat yss \<noteq> []" by fastforce
  from pq_get_ok[OF 1(2) this] obtain q2 m2 where 2: "hget h1 (hd (concat yss)) = Inr m2"
    "pq_get (q1, h1) = Inr (hd (concat yss), q2, hset h1 (hd (concat yss)) (set_next 0 m2))"
    "pq_holds (q2, hset h1 (hd (concat yss)) (set_next 0 m2)) (pop_first yss)" by blast
  moreover have "hget (hset h1 (hd (concat yss)) (set_next 0 m2)) (hd (concat yss)) = Inr (set_next 0 m2)"
    using 2(1) by (simp add: heap_simps hget_Inr)
  moreover have "m_next (set_next 0 m2) = 0" by simp
  ultimately show ?thesis using 1 by blast
qed

theorem priority_queue_order_witness:
  "\<exists>q0 q1 h1 q2 h2 m'. pq_init 2 = Inr q0 \<and> pq_put 1 1 (q0, some_msgs 2) = Inr (q1, h1) \<and>
    pq_get (q1, h1) = Inr (1, q2, h2) \<and> pq_holds (q2, h2) [[], []] \<and> hget h2 1 = Inr m' \<and> m_next m' = 0"
proof -
  obtain q0 where q0: "pq_init 2 = Inr q0" "pq_holds (q0, some_msgs 2) [[], []]"
    using pq_init_holds[of "some_msgs 2" 2] by (auto simp: numeral_2_eq_2)
  have m: "hget (some_msgs 2) 1 = Inr (new_IMessage (malloc_bytes 8) 8 0 8)"
    "m_next (new_IMessage (malloc_bytes 8) 8 0 8) = 0"
    by (simp_all add: hget_def some_msgs_def new_IMessage_def)
  show ?thesis using priority_queue_order[OF q0(2) _ _ m, of 1] q0(1) by fastforce
qed

lemma lq_put_raw_ok:
  assumes "lq_tail q = 0 \<or> live h (lq_tail q)"
  shows "\<exists>q' h'. lq_put_raw v (q, h) = Inr (q', h') \<and> lq_tail q' = v \<and> relinked set_next h h'"
proof (cases "lq_tail q = 0")
  case False
  with assms obtain m where "hget h (lq_tail q) = Inr m" by (auto simp: live_iff_hget)
  with False show ?thesis by (auto simp: lq_put_raw_def append_at_def heap_simps intro: ml.relinked_hset)
qed (simp add: lq_put_raw_def append_at_def)

lemma lq_arm_block_fails: "\<exists>e. lq_arm_block v t = Inl e"
proof (cases t)
  case (Pair q h)
  then show ?thesis
    by (cases "lq_put_raw v (q\<lparr>lq_flag := NORMAL\<rparr>, h)") (auto simp: lq_arm_block_def lq_arm_default_def)
qed

lemma lq_arm_block_aborts: "lq_tail q = 0 \<or> live h (lq_tail q) \<Longrightarrow> lq_arm_block v (q, h) = Inl Abort"
  using lq_put_raw_ok[of "q\<lparr>lq_flag := NORMAL\<rparr>" h v] by (auto simp: lq_arm_block_def lq_arm_default_def)

lemma lq_arm_normal_fails: "\<exists>e. lq_arm_normal v t = Inl e"
proof (cases t)
  case (Pair q h)
  then show ?thesis using lq_arm_block_fails
    by (cases "lq_put_raw v (q, h)") (auto simp: lq_arm_normal_def)
qed

lemma lq_arm_normal_aborts:
  assumes "lq_tail q = 0 \<or> live h (lq_tail q)" "live h v"
  shows "lq_arm_normal v (q, h) = Inl Abort"
proof -
  from lq_put_raw_ok[OF assms(1)] obtain q' h' where "lq_put_raw v (q, h) = Inr (q', h')" "lq_tail q' = v"
    "relinked set_next h h'" by blast
  then show ?thesis using assms relinked_live
    by (auto simp: lq_arm_normal_def intro!: lq_arm_block_aborts)
qed

text \<open>C32: \<open>MsMessageBlockQueueLimit::put\<close> never returns: every arm of its \<open>switch\<close> falls through to the default arm,
  which aborts the process. Whatever the state there is no result, and with an allocated message and a tail
  pointer that is null or allocated the outcome is the abort itself.\<close>

theorem limit_queue_put_aborts:
  "(\<exists>e. lq_put v (q, h) = Inl e) \<and>
   (live h v \<and> (lq_tail q = 0 \<or> live h (lq_tail q)) \<longrightarrow> lq_put v (q, h) = Inl Abort)"
proof (cases "hmod h v (set_next 0)")
  case (Inl e)
  then show ?thesis using hmod_live[of h v "set_next 0"] by (auto simp: lq_put_def)
next
  case (Inr h1)
  then have "relinked set_next h h1" by (auto simp: hmod_def bindr_eq_Inr intro: ml.relinked_hset)
  then show ?thesis using Inr lq_arm_block_fails lq_arm_normal_fails
    by (cases "lq_flag q") (auto simp: lq_put_def relinked_live lq_arm_block_aborts lq_arm_normal_aborts)
qed

theorem limit_queue_put_aborts_witness: "lq_put 1 (lq_new, some_msgs 1) = Inl Abort"
  using limit_queue_put_aborts[of 1 lq_new "some_msgs 1"] by (simp add: lq_new_def)

end
