(* ===== verification/PushList.thy ===== *)
theory PushList
  imports MsgQueues
begin

text \<open>
  The push list of a connection, \<open>framework/io/io_push_list.h\<close>: a tail-pointer list of \<open>IoPushData\<close> nodes,
  each owning a message. The list keeps the messages themselves linked in the same order through their own
  \<open>_next\<close> fields, so that the whole chain of messages can be handed on at once (\<open>stealMsg\<close>). The
  state is the list's record with the heap of nodes and the heap of messages.
\<close>

section \<open>Data\<close>

datatype free_fn = Fn_releaseIMessage

text \<open>\<open>pd_wbuf\<close> is the message whose buffer \<open>_wbuf\<close> points to the start of.\<close>

record IoPushData =
  pd_next :: addr
  pd_msg :: addr
  pd_freev :: free_fn
  pd_wbuf :: addr
  pd_wsize :: int
  pd_wpos :: int

type_synonym pheap = "IoPushData heap"

record IoPushList =
  pl_list :: addr
  pl_tail :: addr
  pl_list_size :: int

type_synonym plstate = "IoPushList \<times> pheap \<times> mheap"

definition pl_new :: IoPushList where
  "pl_new = \<lparr>pl_list = 0, pl_tail = 0, pl_list_size = 0\<rparr>"

definition set_pnext :: "addr \<Rightarrow> IoPushData \<Rightarrow> IoPushData" where
  "set_pnext p d = d\<lparr>pd_next := p\<rparr>"

interpretation pdl: linked_cells pd_next set_pnext
  by unfold_locales (simp_all add: set_pnext_def)

section \<open>Operations\<close>

text \<open>\<open>malloc\<close> leaves the node's fields indeterminate: \<open>junk\<close> is what they happen to hold.\<close>

definition createPushData :: "IoPushData \<Rightarrow> pheap \<Rightarrow> (addr \<times> pheap) res" where
  "createPushData junk ph = (case halloc junk ph of (d, ph') \<Rightarrow> if d = 0 then Inl Abort else Inr (d, ph'))"

definition destroyPushData :: "addr \<Rightarrow> pheap \<Rightarrow> pheap res" where
  "destroyPushData d ph = hfree d ph"

definition destroyMsgData :: "addr \<Rightarrow> pheap \<times> mheap \<Rightarrow> (pheap \<times> mheap) res" where
  "destroyMsgData d = (\<lambda>(ph, mh). bindr (hget ph d) (\<lambda>pd.
     bindr (case pd_freev pd of Fn_releaseIMessage \<Rightarrow> releaseIMessage (pd_msg pd) mh) (\<lambda>mh.
     bindr (destroyPushData d ph) (\<lambda>ph. Inr (ph, mh)))))"

definition pl_get :: "plstate \<Rightarrow> (addr \<times> plstate) res" where
  "pl_get = (\<lambda>(l, ph, mh). let item = pl_list l in
     if item = 0 then Inr (0, l, ph, mh)
     else bindr (hget ph item) (\<lambda>d.
       bindr (hmod mh (pd_msg d) (set_next 0)) (\<lambda>mh.
       Inr (item, l\<lparr>pl_list := pd_next d, pl_tail := (if pd_next d = 0 then 0 else pl_tail l),
                    pl_list_size := pl_list_size l - 1\<rparr>, hset ph item (set_pnext 0 d), mh))))"

definition pl_getAll :: "plstate \<Rightarrow> addr \<times> plstate" where
  "pl_getAll = (\<lambda>(l, ph, mh). (pl_list l, l\<lparr>pl_list := 0, pl_tail := 0, pl_list_size := 0\<rparr>, ph, mh))"

definition pl_put :: "addr \<Rightarrow> plstate \<Rightarrow> plstate res" where
  "pl_put d = (\<lambda>(l, ph, mh). bindr (hget ph d) (\<lambda>pd.
     bindr (hmod mh (pd_msg pd) (set_next 0)) (\<lambda>mh.
     let ph = hset ph d (set_pnext 0 pd) in
     bindr (if pl_tail l \<noteq> 0 then
         bindr (hget ph (pl_tail l)) (\<lambda>td.
         bindr (hmod mh (pd_msg td) (set_next (pd_msg pd))) (\<lambda>mh.
         Inr (pl_list l, hset ph (pl_tail l) (set_pnext d td), mh)))
       else Inr (d, ph, mh)) (\<lambda>(lst, ph, mh).
     Inr (l\<lparr>pl_list := lst, pl_tail := d, pl_list_size := pl_list_size l + 1\<rparr>, ph, mh)))))"

definition pl_putFirst :: "addr \<Rightarrow> plstate \<Rightarrow> plstate res" where
  "pl_putFirst d = (\<lambda>(l, ph, mh). bindr (hget ph d) (\<lambda>pd.
     bindr (hmod mh (pd_msg pd) (set_next 0)) (\<lambda>mh.
     let ph = hset ph d (set_pnext (pl_list l) pd) in
     bindr (if pl_tail l = 0 then Inr (d, mh)
       else bindr (hget ph (pl_list l)) (\<lambda>fd.
         bindr (hmod mh (pd_msg pd) (set_next (pd_msg fd))) (\<lambda>mh. Inr (pl_tail l, mh)))) (\<lambda>(tlp, mh).
     Inr (l\<lparr>pl_list := d, pl_tail := tlp, pl_list_size := pl_list_size l + 1\<rparr>, ph, mh)))))"

text \<open>The loops of \<open>clear\<close> and \<open>shallowClear\<close>; the fuel is the number of node addresses.\<close>

primrec clear_loop :: "nat \<Rightarrow> addr \<Rightarrow> pheap \<times> mheap \<Rightarrow> (pheap \<times> mheap) res" where
  "clear_loop 0 p s = (if p = 0 then Inr s else Inl Diverge)"
| "clear_loop (Suc k) p s = (if p = 0 then Inr s
     else bindr (hget (fst s) p) (\<lambda>d. bindr (destroyMsgData p s) (clear_loop k (pd_next d))))"

primrec shallow_loop :: "nat \<Rightarrow> addr \<Rightarrow> pheap \<Rightarrow> pheap res" where
  "shallow_loop 0 p ph = (if p = 0 then Inr ph else Inl Diverge)"
| "shallow_loop (Suc k) p ph = (if p = 0 then Inr ph
     else bindr (hget ph p) (\<lambda>d. bindr (destroyPushData p ph) (shallow_loop k (pd_next d))))"

definition pl_clear :: "plstate \<Rightarrow> plstate res" where
  "pl_clear = (\<lambda>(l, ph, mh). bindr (clear_loop (h_brk ph) (pl_list l) (ph, mh)) (\<lambda>(ph, mh).
     Inr (l\<lparr>pl_list := 0, pl_tail := 0, pl_list_size := 0\<rparr>, ph, mh)))"

definition pl_shallowClear :: "plstate \<Rightarrow> plstate res" where
  "pl_shallowClear = (\<lambda>(l, ph, mh). bindr (shallow_loop (h_brk ph) (pl_list l) ph) (\<lambda>ph.
     Inr (l\<lparr>pl_list := 0, pl_tail := 0, pl_list_size := 0\<rparr>, ph, mh)))"

definition pl_stealMsg :: "plstate \<Rightarrow> addr res" where
  "pl_stealMsg = (\<lambda>(l, ph, mh). if pl_list l = 0 then Inr 0
     else bindr (hget ph (pl_list l)) (\<lambda>d. Inr (pd_msg d)))"

definition pl_size :: "plstate \<Rightarrow> int" where
  "pl_size = (\<lambda>(l, ph, mh). pl_list_size l)"

definition pl_empty :: "plstate \<Rightarrow> bool" where
  "pl_empty = (\<lambda>(l, ph, mh). pl_list l = pl_tail l)"

section \<open>Invariant\<close>

definition msg_at :: "pheap \<Rightarrow> addr \<Rightarrow> addr" where
  "msg_at ph d = (case h_cells ph d of None \<Rightarrow> 0 | Some c \<Rightarrow> pd_msg c)"

text \<open>The list holds the nodes \<open>ds\<close>, and their messages are chained in the same order.\<close>

definition pl_holds :: "plstate \<Rightarrow> addr list \<Rightarrow> bool" where
  "pl_holds = (\<lambda>(l, ph, mh) ds. heap_ok ph \<and> heap_ok mh \<and> seg pd_next ph (pl_list l) (pl_tail l) ds \<and>
     mseg mh (if ds = [] then 0 else msg_at ph (hd ds)) (tail_of (map (msg_at ph) ds)) (map (msg_at ph) ds) \<and>
     pl_list_size l = int (length ds))"

declare pl_holds_def [inv_defs]

text \<open>A node outside the list with a live message that is in no list node.\<close>

definition pl_spare :: "plstate \<Rightarrow> addr \<Rightarrow> addr list \<Rightarrow> bool" where
  "pl_spare = (\<lambda>(l, ph, mh) d ds. live ph d \<and> d \<notin> set ds \<and> live mh (msg_at ph d) \<and>
     msg_at ph d \<notin> set (map (msg_at ph) ds))"

lemma msg_at_hget: "hget ph d = Inr c \<Longrightarrow> msg_at ph d = pd_msg c"
  by (simp add: msg_at_def hget_Inr)

lemma msg_at_hset [simp]: "hget ph d = Inr c \<Longrightarrow> pd_msg c' = pd_msg c \<Longrightarrow> msg_at (hset ph d c') = msg_at ph"
  by (auto simp: msg_at_def hget_Inr fun_eq_iff)

lemma pd_msg_set_pnext [simp]: "pd_msg (set_pnext p d) = pd_msg d" "pd_next (set_pnext p d) = p"
  by (simp_all add: set_pnext_def)

lemma map_msg_at_hd: "ds \<noteq> [] \<Longrightarrow> hd (map (msg_at ph) ds) = msg_at ph (hd ds)"
  by (cases ds) auto

lemma pl_put_ok:
  assumes i: "pl_holds (l, ph, mh) ds" and sp: "pl_spare (l, ph, mh) d ds"
  shows "\<exists>l' ph' mh'. pl_put d (l, ph, mh) = Inr (l', ph', mh') \<and> pl_holds (l', ph', mh') (ds @ [d]) \<and>
    msg_at ph' = msg_at ph \<and> relinked set_pnext ph ph' \<and> relinked set_next mh mh'"
proof -
  obtain pd where pd: "hget ph d = Inr pd" using sp by (auto simp: pl_spare_def live_iff_hget)
  define v where "v = msg_at ph d"
  have v: "pd_msg pd = v" using pd by (simp add: v_def msg_at_hget)
  define ms where "ms = map (msg_at ph) ds"
  define ph1 where "ph1 = hset ph d (set_pnext 0 pd)"
  have ok: "heap_ok ph" "heap_ok mh" and s: "seg pd_next ph (pl_list l) (pl_tail l) ds"
    and ms: "mseg mh (if ds = [] then 0 else msg_at ph (hd ds)) (tail_of ms) ms" and sz: "pl_list_size l = int (length ds)"
    using i by (auto simp: pl_holds_def ms_def)
  have dn: "d \<notin> set ds" and lv: "live mh v" "v \<notin> set ms"
    using sp by (auto simp: pl_spare_def v_def ms_def)
  have ld: "live ph d" using pd by (auto simp: live_iff_hget)
  have m1: "msg_at ph1 = msg_at ph" unfolding ph1_def using pd by (rule msg_at_hset) simp
  have s1: "seg pd_next ph1 (pl_list l) (pl_tail l) ds" using s dn by (simp add: ph1_def)
  have ok1: "heap_ok ph1" using ok(1) ld by (simp add: ph1_def)
  have g1: "hget ph1 d = Inr (set_pnext 0 pd)" using pd by (simp add: ph1_def heap_simps hget_Inr)
  have r1: "relinked set_pnext ph ph1" unfolding ph1_def using pd by (rule pdl.relinked_hset)
  obtain m mh1 where mh1: "hmod mh v (set_next 0) = Inr mh1" "hget mh v = Inr m"
    "mseg mh1 (if ds = [] then 0 else msg_at ph (hd ds)) (tail_of ms) ms" "hget mh1 v = Inr (set_next 0 m)"
    "heap_ok mh1" "relinked set_next mh mh1"
    using clear_next[OF ok(2) ms lv] by metis
  show ?thesis
  proof (cases "ds = []")
    case True
    then have "pl_tail l = 0" "pl_list l = 0" using s by auto
    then have "pl_put d (l, ph, mh) = Inr (l\<lparr>pl_list := d, pl_tail := d, pl_list_size := 1\<rparr>, ph1, mh1)"
      using pd mh1(1) sz True by (simp add: pl_put_def v ph1_def Let_def)
    moreover have "mpath mh1 v [v] 0" "path pd_next ph1 d [d] 0"
      using mh1(4) g1 by (auto simp: hget_Inr)
    ultimately show ?thesis using True ok1 mh1(5,6) m1 r1
      by (simp add: pl_holds_def seg_def tail_of_def v_def)
  next
    case False
    define t where "t = pl_tail l"
    have t: "t = last ds" "t \<noteq> 0" "t \<in> set ds" "t \<noteq> d"
      using s False dn seg_tail_null[OF s] by (auto simp: t_def seg_def tail_of_def)
    obtain td where td: "hget ph1 t = Inr td" using seg_live[OF s1 t(3)] by (auto simp: live_iff_hget)
    have tm: "pd_msg td = last ms" using msg_at_hget[OF td] m1 t(1) False by (simp add: ms_def last_map)
    have tl: "tail_of ms = last ms" "ms \<noteq> []" using False by (simp_all add: ms_def tail_of_def)
    from ml.append_one[OF mh1(3,4) _ lv(2)] obtain lst2 mh2 where mh2:
      "append_at set_next (if ds = [] then 0 else msg_at ph (hd ds)) (tail_of ms) v mh1 = Inr (lst2, mh2)"
      "mseg mh2 lst2 v (ms @ [v])" "relinked set_next mh1 mh2" by auto
    have "last ms \<noteq> 0" using ms tl seg_tail_null by metis
    then have h2: "hmod mh1 (last ms) (set_next v) = Inr mh2" "lst2 = msg_at ph (hd ds)"
      using mh2(1) False tl by (auto simp: append_at_def bindr_eq_Inr)
    from pdl.append_one[OF s1 g1 _ dn] obtain lst3 ph3 where ph3:
      "append_at set_pnext (pl_list l) (pl_tail l) d ph1 = Inr (lst3, ph3)" "seg pd_next ph3 lst3 d (ds @ [d])"
      "relinked set_pnext ph1 ph3" by auto
    have h3: "ph3 = hset ph1 t (set_pnext d td)" "lst3 = pl_list l"
      using ph3(1) t(2) td by (auto simp: append_at_def heap_simps t_def)
    have m3: "msg_at ph3 = msg_at ph" using td m1 unfolding h3(1) by (subst msg_at_hset[OF td]) auto
    have "pl_put d (l, ph, mh) = Inr (l\<lparr>pl_list := pl_list l, pl_tail := d, pl_list_size := pl_list_size l + 1\<rparr>, ph3, mh2)"
      using pd mh1(1) t(2) td h2(1) tm by (simp add: pl_put_def v ph1_def[symmetric] Let_def t_def[symmetric] h3(1))
    moreover have "heap_ok ph3" "heap_ok mh2" using ok1 ph3(3) mh1(5) mh2(3) relinked_ok by blast+
    moreover have "relinked set_pnext ph ph3" "relinked set_next mh mh2"
      using r1 ph3(3) mh1(6) mh2(3) relinked_trans by blast+
    ultimately show ?thesis using False sz m3 ph3(2) mh2(2) h2(2) h3(2)
      by (auto simp: pl_holds_def ms_def v_def)
  qed
qed

lemma pl_get_ok:
  assumes i: "pl_holds (l, ph, mh) (d # ds)"
  shows "\<exists>l' ph' mh'. pl_get (l, ph, mh) = Inr (d, l', ph', mh') \<and> pl_holds (l', ph', mh') ds \<and>
    msg_at ph' = msg_at ph \<and> relinked set_pnext ph ph' \<and> relinked set_next mh mh' \<and>
    live ph' d \<and> d \<notin> set ds"
proof -
  define v where "v = msg_at ph d"
  define ms where "ms = map (msg_at ph) ds"
  have ok: "heap_ok ph" "heap_ok mh" and s: "seg pd_next ph (pl_list l) (pl_tail l) (d # ds)"
    and ms: "mseg mh v (tail_of (v # ms)) (v # ms)" and sz: "pl_list_size l = int (length ds) + 1"
    using i by (auto simp: pl_holds_def ms_def v_def)
  from seg_Cons[OF s] obtain pd where pd: "hget ph d = Inr pd" "pl_list l = d"
    "seg pd_next ph (pd_next pd) (tail_of ds) ds" by auto
  from seg_Cons[OF ms] obtain m where m: "hget mh v = Inr m" "mseg mh (m_next m) (tail_of ms) ms" by auto
  have dn: "d \<notin> set ds" "v \<notin> set ms" using seg_distinct[OF s] seg_distinct[OF ms] by auto
  have v: "pd_msg pd = v" using pd by (simp add: v_def msg_at_hget)
  have d0: "d \<noteq> 0" "live ph d" "live mh v" using pd m by (auto simp: hget_Inr live_def)
  define ph' where "ph' = hset ph d (set_pnext 0 pd)"
  define mh' where "mh' = hset mh v (set_next 0 m)"
  have m1: "msg_at ph' = msg_at ph" unfolding ph'_def using pd(1) by (rule msg_at_hset) simp
  have t: "(if pd_next pd = 0 then 0 else pl_tail l) = tail_of ds"
    using seg_head_null[OF pd(3)] s by (auto simp: seg_def tail_of_def)
  have nx: "m_next m = (if ds = [] then 0 else msg_at ph (hd ds))"
    using m(2) path_head[of m_next mh "m_next m" ms] by (auto simp: seg_def ms_def map_msg_at_hd)
  have g: "pl_get (l, ph, mh) = Inr (d, l\<lparr>pl_list := pd_next pd, pl_tail := tail_of ds, pl_list_size := pl_list_size l - 1\<rparr>, ph', mh')"
    using pd d0 m(1) v t by (simp add: pl_get_def Let_def heap_simps ph'_def mh'_def)
  moreover have "seg pd_next ph' (pd_next pd) (tail_of ds) ds" "mseg mh' (m_next m) (tail_of ms) ms"
    using pd(3) m(2) dn by (simp_all add: ph'_def mh'_def)
  moreover have "heap_ok ph'" "heap_ok mh'" using ok d0 by (simp_all add: ph'_def mh'_def)
  moreover have "relinked set_pnext ph ph'" "relinked set_next mh mh'"
    using pd(1) m(1) by (auto simp: ph'_def mh'_def intro: pdl.relinked_hset ml.relinked_hset)
  moreover have "live ph' d" using d0 by (simp add: ph'_def)
  ultimately show ?thesis using sz m1 nx dn(1)
    by (intro exI conjI) (auto simp: pl_holds_def ms_def)
qed

lemma pl_get_empty: "pl_holds (l, ph, mh) [] \<Longrightarrow> pl_get (l, ph, mh) = Inr (0, l, ph, mh)"
  by (simp add: pl_get_def pl_holds_def Let_def)

lemma pl_putFirst_ok:
  assumes i: "pl_holds (l, ph, mh) ds" and sp: "pl_spare (l, ph, mh) d ds"
  shows "\<exists>l' ph' mh'. pl_putFirst d (l, ph, mh) = Inr (l', ph', mh') \<and> pl_holds (l', ph', mh') (d # ds) \<and>
    msg_at ph' = msg_at ph \<and> relinked set_pnext ph ph' \<and> relinked set_next mh mh'"
proof -
  obtain pd where pd: "hget ph d = Inr pd" using sp by (auto simp: pl_spare_def live_iff_hget)
  define v where "v = msg_at ph d"
  define ms where "ms = map (msg_at ph) ds"
  define w where "w = (if ds = [] then 0 else msg_at ph (hd ds))"
  have v: "pd_msg pd = v" using pd by (simp add: v_def msg_at_hget)
  have ok: "heap_ok ph" "heap_ok mh" and s: "seg pd_next ph (pl_list l) (pl_tail l) ds"
    and ms: "mseg mh w (tail_of ms) ms" and sz: "pl_list_size l = int (length ds)"
    using i by (auto simp: pl_holds_def ms_def w_def)
  have dn: "d \<notin> set ds" and lv: "live mh v" "v \<notin> set ms" and ld: "live ph d" "d \<noteq> 0"
    using sp by (auto simp: pl_spare_def v_def ms_def live_def)
  obtain m where m: "hget mh v = Inr m" "v \<noteq> 0" using lv(1) by (auto simp: live_iff_hget hget_Inr)
  define ph' where "ph' = hset ph d (set_pnext (pl_list l) pd)"
  define mh' where "mh' = hset mh v (set_next w m)"
  have m1: "msg_at ph' = msg_at ph" unfolding ph'_def using pd by (rule msg_at_hset) simp
  have g: "pl_putFirst d (l, ph, mh) = Inr (l\<lparr>pl_list := d, pl_tail := tail_of (d # ds), pl_list_size := pl_list_size l + 1\<rparr>, ph', mh')"
  proof (cases "ds = []")
    case True
    then show ?thesis using s pd m v
      by (simp add: pl_putFirst_def Let_def heap_simps ph'_def mh'_def w_def tail_of_def)
  next
    case False
    then obtain fd where fd: "hget ph (pl_list l) = Inr fd" "pl_list l = hd ds"
      using seg_Cons[of pd_next ph "pl_list l" "pl_tail l" "hd ds" "tl ds"] s by auto
    have "pl_list l \<noteq> d" using fd(2) dn hd_in_set[OF False] by metis
    note fd = fd this
    have "pl_tail l \<noteq> 0" "pl_tail l = tail_of (d # ds)" using s False seg_tail_null[OF s] by (auto simp: seg_def tail_of_def)
    moreover have "pd_msg fd = w" using False fd msg_at_hget by (auto simp: w_def)
    ultimately show ?thesis using fd pd m v
      by (simp add: pl_putFirst_def Let_def heap_simps ph'_def mh'_def set_next_def)
  qed
  have "path pd_next ph' d (d # ds) 0" using s dn ld by (simp add: ph'_def seg_def)
  moreover have "mpath mh' v (v # ms) 0" using ms lv m(2) by (simp add: mh'_def seg_def)
  moreover have "heap_ok ph'" "heap_ok mh'" using ok ld lv by (simp_all add: ph'_def mh'_def)
  moreover have "relinked set_pnext ph ph'" "relinked set_next mh mh'"
    using pd m(1) by (auto simp: ph'_def mh'_def intro: pdl.relinked_hset ml.relinked_hset)
  ultimately show ?thesis using g sz m1
    by (intro exI conjI) (auto simp: pl_holds_def seg_def v_def ms_def)
qed

lemma pl_stealMsg_ok:
  assumes "pl_holds (l, ph, mh) ds"
  shows "\<exists>p. pl_stealMsg (l, ph, mh) = Inr p \<and> mpath mh p (map (msg_at ph) ds) 0"
proof (cases ds)
  case (Cons d ds')
  with assms have s: "seg pd_next ph (pl_list l) (pl_tail l) (d # ds')" by (simp add: pl_holds_def)
  from seg_Cons[OF s] obtain pd where "hget ph d = Inr pd" "pl_list l = d" by auto
  moreover from this have "d \<noteq> 0" by (simp add: hget_Inr)
  ultimately show ?thesis using assms Cons msg_at_hget
    by (auto simp: pl_holds_def seg_def pl_stealMsg_def simp del: path.simps)
qed (use assms in \<open>simp add: pl_holds_def pl_stealMsg_def\<close>)

text \<open>Freeing a list of nodes, and of nodes with their messages.\<close>

definition freed :: "'a heap \<Rightarrow> addr set \<Rightarrow> 'a heap" where
  "freed h A = h\<lparr>h_cells := (\<lambda>a. if a \<in> A then None else h_cells h a)\<rparr>"

lemma freed_simps [simp]:
  "h_cells (freed h A) a = (if a \<in> A then None else h_cells h a)"
  "h_brk (freed h A) = h_brk h" "h_lim (freed h A) = h_lim h" "freed h {} = h"
  "freed (freed h A) B = freed h (A \<union> B)"
  by (auto simp: freed_def fun_eq_iff)

lemma hfree_freed: "live h a \<Longrightarrow> hfree a h = Inr (freed h {a})"
  by (auto simp: hfree_live freed_def fun_eq_iff)

lemma heap_ok_freed [simp]: "heap_ok h \<Longrightarrow> heap_ok (freed h A)"
  by (auto simp: heap_ok_def)

lemma live_freed [simp]: "live (freed h A) a \<longleftrightarrow> live h a \<and> a \<notin> A"
  by (auto simp: live_def)

lemma path_freed: "path nx h p xs q \<Longrightarrow> set xs \<inter> A = {} \<Longrightarrow> path nx (freed h A) p xs q"
  by (erule path_frame) auto

lemma shallow_loop_ok:
  "path pd_next ph p ds 0 \<Longrightarrow> length ds \<le> k \<Longrightarrow> shallow_loop k p ph = Inr (freed ph (set ds))"
proof (induction ds arbitrary: k p ph)
  case Nil then show ?case by (cases k) auto
next
  case (Cons d ds)
  then obtain k' where k: "k = Suc k'" by (cases k) auto
  from Cons.prems obtain pd where pd: "h_cells ph d = Some pd" "path pd_next ph (pd_next pd) ds 0" "p = d" "d \<noteq> 0"
    by (auto split: option.splits)
  have "d \<notin> set ds" using path_distinct[OF Cons.prems(1)] by simp
  then have "path pd_next (freed ph {d}) (pd_next pd) ds 0" using pd(2) by (intro path_freed) auto
  from Cons.IH[OF this, of k'] Cons.prems(2) k pd show ?case
    by (simp add: hget_def destroyPushData_def hfree_freed live_def)
qed

lemma clear_loop_ok:
  assumes "path pd_next ph p ds 0" "length ds \<le> k" "distinct (map (msg_at ph) ds)" "\<forall>d \<in> set ds. live mh (msg_at ph d)"
  shows "clear_loop k p (ph, mh) = Inr (freed ph (set ds), freed mh (msg_at ph ` set ds))"
  using assms
proof (induction ds arbitrary: k p ph mh)
  case Nil then show ?case by (cases k) auto
next
  case (Cons d ds)
  then obtain k' where k: "k = Suc k'" by (cases k) auto
  from Cons.prems(1) obtain pd where pd: "h_cells ph d = Some pd" "path pd_next ph (pd_next pd) ds 0" "p = d" "d \<noteq> 0"
    by (auto split: option.splits)
  have dn: "d \<notin> set ds" using path_distinct[OF Cons.prems(1)] by simp
  define v where "v = msg_at ph d"
  define ph1 where "ph1 = freed ph {d}"
  define mh1 where "mh1 = freed mh {v}"
  have v: "pd_msg pd = v" using pd by (simp add: v_def msg_at_def)
  have same: "msg_at ph1 e = msg_at ph e" if "e \<in> set ds" for e
    using that dn by (auto simp: ph1_def msg_at_def)
  have p1: "path pd_next ph1 (pd_next pd) ds 0" unfolding ph1_def using pd(2) dn by (intro path_freed) auto
  have mm: "map (msg_at ph1) ds = map (msg_at ph) ds" using same by simp
  have "v \<noteq> msg_at ph e" if "e \<in> set ds" for e
    using Cons.prems(3) that by (auto simp: v_def)
  then have "\<forall>e \<in> set ds. live mh1 (msg_at ph1 e)" using Cons.prems(4) same by (auto simp: mh1_def)
  with Cons.IH[OF p1, of k'] Cons.prems(2,3) k mm
  have "clear_loop k' (pd_next pd) (ph1, mh1) = Inr (freed ph1 (set ds), freed mh1 (msg_at ph1 ` set ds))" by simp
  moreover have "msg_at ph1 ` set ds = msg_at ph ` set ds" using same by auto
  moreover have "live mh v" using Cons.prems(4) by (simp add: v_def)
  then have "destroyMsgData p (ph, mh) = Inr (ph1, mh1)" using pd v
    by (cases "pd_freev pd")
      (simp add: destroyMsgData_def hget_def releaseIMessage_def destroyPushData_def hfree_freed live_def ph1_def mh1_def)
  ultimately show ?case using k pd by (simp add: hget_def ph1_def mh1_def v_def)
qed

lemma pl_holds_path: "pl_holds (l, ph, mh) ds \<Longrightarrow> path pd_next ph (pl_list l) ds 0 \<and> length ds \<le> h_brk ph"
  using path_length[of ph pd_next "pl_list l" ds] by (auto simp: pl_holds_def seg_def)

lemma pl_holds_msgs:
  "pl_holds (l, ph, mh) ds \<Longrightarrow> distinct (map (msg_at ph) ds) \<and> (\<forall>d \<in> set ds. live mh (msg_at ph d))"
  unfolding pl_holds_def using seg_live[of m_next mh _ _ "map (msg_at ph) ds"] by (auto dest: seg_distinct)

lemma pl_shallowClear_ok:
  "pl_holds (l, ph, mh) ds \<Longrightarrow> pl_shallowClear (l, ph, mh) =
     Inr (l\<lparr>pl_list := 0, pl_tail := 0, pl_list_size := 0\<rparr>, freed ph (set ds), mh)"
  using pl_holds_path[of l ph mh ds] shallow_loop_ok[of ph "pl_list l" ds]
  by (simp add: pl_shallowClear_def)

lemma pl_clear_ok:
  "pl_holds (l, ph, mh) ds \<Longrightarrow> pl_clear (l, ph, mh) =
     Inr (l\<lparr>pl_list := 0, pl_tail := 0, pl_list_size := 0\<rparr>, freed ph (set ds), freed mh (msg_at ph ` set ds))"
  using pl_holds_path[of l ph mh ds] pl_holds_msgs[of l ph mh ds] clear_loop_ok[of ph "pl_list l" ds]
  by (simp add: pl_clear_def)

lemma pl_holds_new: "heap_ok ph \<Longrightarrow> heap_ok mh \<Longrightarrow> pl_holds (l\<lparr>pl_list := 0, pl_tail := 0, pl_list_size := 0\<rparr>, ph, mh) []"
  by (simp add: pl_holds_def)

section \<open>The push list is a queue\<close>

text \<open>A node may be put when it is live, not in the list, and the only node of its live message.\<close>

definition pl_admits :: "plstate \<Rightarrow> addr \<Rightarrow> bool" where
  "pl_admits = (\<lambda>(l, ph, mh) d. live ph d \<and> live mh (msg_at ph d) \<and>
     (\<forall>e. live ph e \<longrightarrow> e \<noteq> d \<longrightarrow> msg_at ph e \<noteq> msg_at ph d) \<and>
     (case nodes_of pd_next ph (h_brk ph) (pl_list l) of Inl _ \<Rightarrow> False | Inr ds \<Rightarrow> d \<notin> set ds))"

lemma pl_admits_holds:
  "pl_holds (l, ph, mh) ds \<Longrightarrow> pl_admits (l, ph, mh) d \<longleftrightarrow> live ph d \<and> live mh (msg_at ph d) \<and>
     (\<forall>e. live ph e \<longrightarrow> e \<noteq> d \<longrightarrow> msg_at ph e \<noteq> msg_at ph d) \<and> d \<notin> set ds"
  using nodes_of_path[of pd_next ph "pl_list l" ds "h_brk ph"] pl_holds_path[of l ph mh ds] by (simp add: pl_admits_def)

lemma pl_admits_spare: "pl_holds (l, ph, mh) ds \<Longrightarrow> pl_admits (l, ph, mh) d \<Longrightarrow> pl_spare (l, ph, mh) d ds"
proof -
  assume h: "pl_holds (l, ph, mh) ds" and a: "pl_admits (l, ph, mh) d"
  have "msg_at ph e \<noteq> msg_at ph d" if "e \<in> set ds" for e
    using that h a by (auto simp: pl_admits_holds[OF h] pl_holds_def dest: seg_live)
  with h a show ?thesis unfolding pl_spare_def pl_admits_holds[OF h] by (auto dest: sym)
qed

interpretation pl_fifo: fifo_queue pl_holds pl_admits "\<lambda>e d. d \<noteq> e" "\<lambda>n s. True" pl_put pl_get
proof
  fix s :: plstate and xs e and n :: nat
  obtain l ph mh where s: "s = (l, ph, mh)" by (cases s)
  assume a: "pl_holds s xs" "pl_admits s e"
  with s pl_put_ok[of l ph mh xs e] pl_admits_spare obtain l' ph' mh' where
    p: "pl_put e s = Inr (l', ph', mh')" "pl_holds (l', ph', mh') (xs @ [e])"
    "msg_at ph' = msg_at ph" "relinked set_pnext ph ph'" "relinked set_next mh mh'" by blast
  have "\<forall>d. d \<noteq> e \<longrightarrow> pl_admits s d \<longrightarrow> pl_admits (l', ph', mh') d"
    using a(1) p unfolding s by (simp add: pl_admits_holds relinked_live)
  with p show "\<exists>s'. pl_put e s = Inr s' \<and> pl_holds s' (xs @ [e]) \<and> True \<and>
      (\<forall>d. d \<noteq> e \<longrightarrow> pl_admits s d \<longrightarrow> pl_admits s' d)" by blast
next
  fix s :: plstate and x xs
  obtain l ph mh where s: "s = (l, ph, mh)" by (cases s)
  assume a: "pl_holds s (x # xs)"
  with s pl_get_ok[of l ph mh x xs] obtain l' ph' mh' where
    p: "pl_get s = Inr (x, l', ph', mh')" "pl_holds (l', ph', mh') xs"
    "msg_at ph' = msg_at ph" "relinked set_pnext ph ph'" "relinked set_next mh mh'" by blast
  have "\<forall>d. pl_admits s d \<longrightarrow> pl_admits (l', ph', mh') d"
    using a p unfolding s by (simp add: pl_admits_holds relinked_live)
  with p show "\<exists>s'. pl_get s = Inr (x, s') \<and> pl_holds s' xs \<and> (\<forall>n. True \<longrightarrow> True) \<and>
      (\<forall>d. pl_admits s d \<longrightarrow> pl_admits s' d)" by blast
qed

section \<open>Properties\<close>

text \<open>A list state with two nodes, for the examples.\<close>

definition two_nodes :: plstate where
  "two_nodes = (pl_new,
     \<lparr>h_cells = (\<lambda>a. if a = 1 \<or> a = 2 then Some \<lparr>pd_next = 7, pd_msg = a, pd_freev = Fn_releaseIMessage,
        pd_wbuf = a, pd_wsize = 8, pd_wpos = 0\<rparr> else None), h_brk = 3, h_lim = 9\<rparr>, some_msgs 2)"

lemma two_nodes_holds: "pl_holds two_nodes []"
  by (simp add: two_nodes_def pl_holds_def pl_new_def heap_ok_def some_msgs_def)

lemma two_nodes_admits: "d \<in> {1, 2} \<Longrightarrow> pl_admits two_nodes d"
  using two_nodes_holds unfolding two_nodes_def
  by (auto simp: pl_admits_holds[of _ _ _ "[]"] live_def msg_at_def some_msgs_def)

text \<open>C25: The push list is a first-in first-out queue of push data: any interleaving of \<open>put\<close> and \<open>get\<close> that the
  abstract queue can make returns what the abstract queue returns. The invariant it keeps says that the
  messages are chained in the order of their nodes.\<close>

theorem push_list_is_fifo:
  assumes "pl_holds s ds" "spec_run ops ds = Some (outs, es)"
    "\<forall>d \<in> set (puts_of ops). pl_admits s d" "distinct (puts_of ops)"
  shows "\<exists>s'. impl_run pl_put pl_get ops s = Inr (outs, s') \<and> pl_holds s' es"
  using pl_fifo.run_refines[OF assms(1,2,3)] assms(4) by (simp add: sorted_wrt_neq)

theorem push_list_is_fifo_witness:
  "\<exists>s'. impl_run pl_put pl_get [Put 2, Put 1, Get] two_nodes = Inr ([2], s') \<and> pl_holds s' [1]"
  by (rule push_list_is_fifo[OF two_nodes_holds]) (auto intro: two_nodes_admits)

text \<open>Closing hands the whole backlog on: \<open>stealMsg\<close> returns the head of a null-terminated chain with the message
  of every node in push order, and \<open>shallowClear\<close> afterwards frees exactly the nodes, leaves every message
  as it was and the list empty.\<close>

lemma steal_and_shallow_clear:
  assumes "pl_holds (l, ph, mh) ds"
  shows "\<exists>p l' ph'. pl_stealMsg (l, ph, mh) = Inr p \<and> pl_shallowClear (l, ph, mh) = Inr (l', ph', mh) \<and>
    mpath mh p (map (msg_at ph) ds) 0 \<and> pl_holds (l', ph', mh) [] \<and>
    (\<forall>a. h_cells ph' a = (if a \<in> set ds then None else h_cells ph a))"
  using pl_stealMsg_ok[OF assms] pl_shallowClear_ok[OF assms] assms
  by (auto simp: pl_holds_def simp del: path.simps)

text \<open>\<open>IoPushList::empty\<close> answers true exactly when the list has at most one node, so a list with one pending message
  is reported as empty.\<close>

lemma push_list_empty_misses_singleton:
  assumes "pl_holds s ds"
  shows "pl_empty s \<longleftrightarrow> length ds \<le> 1"
proof -
  obtain l ph mh where s: "s = (l, ph, mh)" by (cases s)
  have sg: "seg pd_next ph (pl_list l) (pl_tail l) ds" using assms s by (simp add: pl_holds_def)
  have d: "distinct ds" using seg_distinct[OF sg] .
  show ?thesis
  proof (cases ds)
    case Nil then show ?thesis using sg by (simp add: s pl_empty_def)
  next
    case (Cons d es)
    then have "pl_list l = d" "pl_tail l = last (d # es)" using sg by (auto simp: seg_def tail_of_def)
    with d Cons show ?thesis by (auto simp: s pl_empty_def split: if_splits)
  qed
qed

end
