(* ===== verification/Connection.thy ===== *)
theory Connection
  imports PushList
begin

text \<open>
  A connection of an io thread, \<open>framework/io/io_connection.h\<close> and \<open>io_connection.cpp\<close>: framing of the bytes read from
  a non-blocking socket, and writing of the push data.

  The kernel side of the socket is a script: the list of outcomes of the coming \<open>recv\<close> (or \<open>send\<close>) calls; \<open>recv\<close>
  takes from the first chunk of the script what fits and leaves the rest. The virtual functions of the
  class are a record of functions over the environment, which holds the heaps, the bytes sent, the log of
  closes and whatever the subclass has. The registration of the two libevent events is what their last
  \<open>event_add\<close> or \<open>event_del\<close> left: the timeout they were added with, or \<open>None\<close>.
\<close>

section \<open>Data\<close>

datatype SOCK_STATE = SOCKET_CONNECTING | SOCKET_DATA_WRITE | SOCKET_RECV_FRAMING | SOCKET_DATA_RECV

record IoConnection =
  c_id :: "64 word"
  c_socket :: int
  c_io :: int
  c_rsock_state :: SOCK_STATE
  c_wsock_state :: SOCK_STATE
  c_rbuf :: buffer
  c_rsize :: int
  c_rpos :: int
  c_frame_size :: int
  c_current_push :: addr
  c_rtimeout :: int
  c_wtimeout :: int
  c_destroy :: bool
  c_when_destroy :: bool
  c_revent_flag :: bool
  c_wevent_flag :: bool
  c_revent :: "int option"
  c_wevent :: "int option"

datatype errno = EAGAIN | EINTR | EOTHER

datatype recv_ev = Chunk "byte list" | Recv_eof | Recv_err errno

datatype send_ev = Sent nat | Send_zero | Send_err errno

datatype close_kind = Closed | Reset

record 'x env =
  e_ph :: pheap
  e_mh :: mheap
  e_wire :: "byte list"
  e_closes :: "close_kind list"
  e_ext :: 'x

text \<open>The virtual functions, and \<open>_when_destroy\<close>.\<close>

record 'x vtable =
  whenReceivedFrame :: "IoConnection \<Rightarrow> buffer \<Rightarrow> int \<Rightarrow> 'x env \<Rightarrow> (int \<times> 'x env) res"
  whenClosed :: "IoConnection \<Rightarrow> 'x env \<Rightarrow> 'x env res"
  getPushData :: "'x env \<Rightarrow> (addr \<times> 'x env) res"
  pendingPushData :: "addr \<Rightarrow> 'x env \<Rightarrow> 'x env res"
  onDestroy :: "IoConnection \<Rightarrow> 'x env \<Rightarrow> 'x env res"

section \<open>Events\<close>

definition FRAME_MAX_SIZE :: int where "FRAME_MAX_SIZE = 1024"

definition CONN_DEFAULT_READ_LEN :: int where "CONN_DEFAULT_READ_LEN = 1024"

definition IoConnection_new :: IoConnection where
  "IoConnection_new = \<lparr>c_id = 0, c_socket = 0, c_io = 0, c_rsock_state = SOCKET_RECV_FRAMING,
     c_wsock_state = SOCKET_DATA_WRITE, c_rbuf = malloc_bytes 1024, c_rsize = CONN_DEFAULT_READ_LEN, c_rpos = 0,
     c_frame_size = 0, c_current_push = 0, c_rtimeout = -1, c_wtimeout = -1, c_destroy = False,
     c_when_destroy = False, c_revent_flag = False, c_wevent_flag = False, c_revent = None, c_wevent = None\<rparr>"

definition conn_initialize :: "int \<Rightarrow> int \<Rightarrow> 64 word \<Rightarrow> IoConnection \<Rightarrow> IoConnection" where
  "conn_initialize fd io cid c = c\<lparr>c_socket := fd, c_io := io, c_id := cid,
     c_rsock_state := SOCKET_RECV_FRAMING, c_wsock_state := SOCKET_DATA_WRITE,
     c_rpos := 0, c_frame_size := 0, c_current_push := 0, c_destroy := False,
     c_revent_flag := False, c_wevent_flag := False, c_when_destroy := False\<rparr>"

definition setReadFlag :: "bool \<Rightarrow> int \<Rightarrow> IoConnection \<Rightarrow> IoConnection" where
  "setReadFlag flag timeout c =
    (let c = (if c_revent_flag c then c\<lparr>c_revent := None\<rparr> else c); c = c\<lparr>c_revent_flag := flag\<rparr> in
     if \<not> flag then c
     else c\<lparr>c_revent := Some (if 0 < timeout then timeout else 0)\<rparr>)"

definition setWriteFlag :: "bool \<Rightarrow> int \<Rightarrow> IoConnection \<Rightarrow> IoConnection" where
  "setWriteFlag flag timeout c =
    (if c_wevent_flag c = flag then c
     else let c = (if c_wevent_flag c then c\<lparr>c_wevent := None\<rparr> else c); c = c\<lparr>c_wevent_flag := flag\<rparr> in
     if \<not> flag then c
     else c\<lparr>c_wevent := Some (if 0 < timeout then timeout else 0)\<rparr>)"

definition setRead :: "bool \<Rightarrow> IoConnection \<Rightarrow> IoConnection" where
  "setRead flag c = setReadFlag flag (c_rtimeout c) c"

definition setWrite' :: "bool \<Rightarrow> IoConnection \<Rightarrow> IoConnection" where
  "setWrite' flag c = setWriteFlag flag (c_wtimeout c) c"

definition setWrite :: "bool \<Rightarrow> IoConnection \<Rightarrow> IoConnection" where
  "setWrite flag c = (if c_wsock_state c = SOCKET_CONNECTING then c else setWrite' True c)"

definition setConnecting :: "IoConnection \<Rightarrow> IoConnection" where
  "setConnecting c = setWrite' True (c\<lparr>c_wsock_state := SOCKET_CONNECTING\<rparr>)"

section \<open>Closing\<close>

text \<open>What \<open>closeSocket\<close> and \<open>resetSocket\<close> do; they differ in the kind of the close the peer sees.\<close>

definition shutdown_conn :: "close_kind \<Rightarrow> 'x vtable \<Rightarrow> IoConnection \<Rightarrow> 'x env \<Rightarrow> (IoConnection \<times> 'x env) res" where
  "shutdown_conn kind vt c e =
    (let c = (setWrite' False (setRead False (c\<lparr>c_destroy := True\<rparr>)))\<lparr>c_socket := -1\<rparr>;
         e = e\<lparr>e_closes := e_closes e @ [kind]\<rparr> in
     bindr (if c_current_push c \<noteq> 0 then pendingPushData vt (c_current_push c) e else Inr e) (\<lambda>e.
     let c = c\<lparr>c_current_push := 0\<rparr> in
     bindr (whenClosed vt c e) (\<lambda>e.
     bindr (if c_when_destroy c then onDestroy vt c e else Inr e) (\<lambda>e. Inr (c, e)))))"

definition closeSocket :: "'x vtable \<Rightarrow> IoConnection \<Rightarrow> 'x env \<Rightarrow> (IoConnection \<times> 'x env) res" where
  "closeSocket = shutdown_conn Closed"

definition resetSocket :: "'x vtable \<Rightarrow> IoConnection \<Rightarrow> 'x env \<Rightarrow> (IoConnection \<times> 'x env) res" where
  "resetSocket = shutdown_conn Reset"

section \<open>Reading\<close>

datatype recv_out = Data "byte list" | Eof | Again | Hard

text \<open>\<open>recv\<close> in its retry loop: \<open>EINTR\<close> goes round again. A closed descriptor is an error, a request for 0 bytes
  returns 0.\<close>

primrec recv_script :: "nat \<Rightarrow> recv_ev list \<Rightarrow> recv_out \<times> recv_ev list" where
  "recv_script n [] = (Again, [])"
| "recv_script n (ev # sc) = (case ev of
     Chunk bs \<Rightarrow> if bs = [] then recv_script n sc
       else (Data (take n bs), if length bs \<le> n then sc else Chunk (drop n bs) # sc)
   | Recv_eof \<Rightarrow> (Eof, ev # sc)
   | Recv_err er \<Rightarrow> (case er of EAGAIN \<Rightarrow> (Again, sc) | EINTR \<Rightarrow> recv_script n sc | EOTHER \<Rightarrow> (Hard, sc)))"

definition recv_retry :: "int \<Rightarrow> int \<Rightarrow> recv_ev list \<Rightarrow> (recv_out \<times> recv_ev list) res" where
  "recv_retry fd n sc = (if n < 0 then Inl Out_of_bounds
     else Inr (if fd = -1 then (Hard, sc) else if n = 0 then (Eof, sc) else recv_script (nat n) sc))"

text \<open>A step of \<open>readSocket\<close> either returns from the function or goes on.\<close>

datatype 'a flow = Return 'a | Go 'a

fun andthen :: "'a flow res \<Rightarrow> ('a \<Rightarrow> 'a flow res) \<Rightarrow> 'a flow res" where
  "andthen (Inl e) f = Inl e"
| "andthen (Inr (Return s)) f = Inr (Return s)"
| "andthen (Inr (Go s)) f = f s"

definition flow_result :: "'a flow \<Rightarrow> 'a" where
  "flow_result f = (case f of Return s \<Rightarrow> s | Go s \<Rightarrow> s)"

type_synonym 'x rstate = "IoConnection \<times> recv_ev list \<times> 'x env"

definition store_received :: "byte list \<Rightarrow> IoConnection \<Rightarrow> IoConnection res" where
  "store_received bs c = bindr (wr_bytes (c_rbuf c) (nat (c_rpos c)) bs) (\<lambda>buf.
     Inr (c\<lparr>c_rbuf := buf, c_rpos := c_rpos c + int (length bs)\<rparr>))"

text \<open>The receive loop of the state \<open>SOCKET_RECV_FRAMING\<close>. After a hard error it resets the connection and goes on.\<close>

definition framing_recv :: "'x vtable \<Rightarrow> 'x rstate \<Rightarrow> 'x rstate flow res" where
  "framing_recv vt = (\<lambda>(c, sc, e).
     bindr (recv_retry (c_socket c) (c_rsize c - c_rpos c) sc) (\<lambda>(r, sc). case r of
       Data bs \<Rightarrow> bindr (store_received bs c) (\<lambda>c. Inr (Go (c, sc, e)))
     | Eof \<Rightarrow> bindr (closeSocket vt c e) (\<lambda>(c, e). Inr (Return (c, sc, e)))
     | Again \<Rightarrow> Inr (Go (c, sc, e))
     | Hard \<Rightarrow> bindr (resetSocket vt c e) (\<lambda>(c, e). Inr (Go (c, sc, e)))))"

text \<open>\<open>ntohl(*(unsigned int* )p) + sizeof(int)\<close> as an unsigned integer.\<close>

definition frame_size_at :: "buffer \<Rightarrow> nat \<Rightarrow> int res" where
  "frame_size_at buf off = bindr (rd_bytes buf off 4) (\<lambda>hd. Inr ((rd_be32 hd + 4) mod 4294967296))"

definition framing_size :: "'x vtable \<Rightarrow> 'x rstate \<Rightarrow> 'x rstate flow res" where
  "framing_size vt = (\<lambda>(c, sc, e).
     if c_rpos c < 4 then Inr (Return (c, sc, e))
     else bindr (frame_size_at (c_rbuf c) 0) (\<lambda>n.
       let c = c\<lparr>c_frame_size := n\<rparr> in
       if FRAME_MAX_SIZE < n then bindr (resetSocket vt c e) (\<lambda>(c, e). Inr (Return (c, sc, e)))
       else let c = (if c_rsize c < n then
                let new_size = (if FRAME_MAX_SIZE < n + 64 then FRAME_MAX_SIZE else n + 64) in
                c\<lparr>c_rbuf := take (nat (c_rpos c)) (c_rbuf c) @ malloc_bytes (nat new_size - nat (c_rpos c)), c_rsize := new_size\<rparr>
              else c)
       in Inr (Go (c\<lparr>c_rsock_state := SOCKET_DATA_RECV\<rparr>, sc, e))))"

definition data_recv :: "'x vtable \<Rightarrow> 'x rstate \<Rightarrow> 'x rstate flow res" where
  "data_recv vt = (\<lambda>(c, sc, e). let left = c_frame_size c - c_rpos c in
     if left \<le> 0 then Inr (Go (c, sc, e))
     else bindr (recv_retry (c_socket c) left sc) (\<lambda>(r, sc). case r of
       Data bs \<Rightarrow> bindr (store_received bs c) (\<lambda>c. Inr (Go (c, sc, e)))
     | Eof \<Rightarrow> bindr (closeSocket vt c e) (\<lambda>(c, e). Inr (Return (c, sc, e)))
     | Again \<Rightarrow> Inr (Return (c, sc, e))
     | Hard \<Rightarrow> bindr (resetSocket vt c e) (\<lambda>(c, e). Inr (Return (c, sc, e)))))"

text \<open>The loop over the frames of a buffer that holds more than one: offset \<open>b\<close>, bytes left \<open>len\<close>, size of the next
  frame as a signed integer. The result says whether every frame was accepted and where the loop stopped.
  Nothing bounds \<open>frame_size\<close> from below here, so the loop has fuel.\<close>

primrec frames_loop :: "nat \<Rightarrow> 'x vtable \<Rightarrow> IoConnection \<Rightarrow> int \<Rightarrow> int \<Rightarrow> int \<Rightarrow> 'x env \<Rightarrow> (bool \<times> int \<times> int \<times> 'x env) res" where
  "frames_loop 0 vt c b len frame_size e = Inl Diverge"
| "frames_loop (Suc k) vt c b len frame_size e =
    (if len < frame_size then Inr (True, b, len, e)
     else if b < 0 then Inl Out_of_bounds
     else bindr (whenReceivedFrame vt c (drop (nat b) (c_rbuf c)) frame_size e) (\<lambda>(ret, e).
       if ret = -1 then Inr (False, b, len, e)
       else let b = b + frame_size; len = len - frame_size in
         if 4 \<le> len then
           if b < 0 then Inl Out_of_bounds
           else bindr (frame_size_at (c_rbuf c) (nat b)) (\<lambda>n. frames_loop k vt c b len (s32 n) e)
         else Inr (True, b, len, e)))"

text \<open>\<open>memcpy(buf, buf + b, len)\<close>: undefined when the two regions overlap.\<close>

definition memcpy_front :: "buffer \<Rightarrow> int \<Rightarrow> int \<Rightarrow> buffer res" where
  "memcpy_front buf b len = (if b < 0 \<or> len < 0 \<or> length buf < nat b + nat len then Inl Out_of_bounds
     else if 0 < len \<and> b < len then Inl Overlap
     else Inr (take (nat len) (drop (nat b) buf) @ drop (nat len) buf))"

definition data_deliver :: "nat \<Rightarrow> 'x vtable \<Rightarrow> 'x rstate \<Rightarrow> 'x rstate flow res" where
  "data_deliver fuel vt = (\<lambda>(c, sc, e).
     if c_rpos c = c_frame_size c then
       bindr (whenReceivedFrame vt c (c_rbuf c) (c_frame_size c) e) (\<lambda>(ret, e).
       if ret = -1 then bindr (resetSocket vt c e) (\<lambda>(c, e). Inr (Return (c, sc, e)))
       else Inr (Return (c\<lparr>c_rpos := 0, c_rsock_state := SOCKET_RECV_FRAMING\<rparr>, sc, e)))
     else if c_frame_size c < c_rpos c then
       bindr (frames_loop fuel vt c 0 (c_rpos c) (s32 (c_frame_size c)) e) (\<lambda>(ok, b, len, e).
       if \<not> ok then bindr (resetSocket vt c e) (\<lambda>(c, e). Inr (Return (c, sc, e)))
       else bindr (memcpy_front (c_rbuf c) b len) (\<lambda>buf.
         Inr (Return (c\<lparr>c_rbuf := buf, c_rpos := len, c_rsock_state := SOCKET_RECV_FRAMING\<rparr>, sc, e))))
     else Inr (Return (c, sc, e)))"

definition readSocket :: "nat \<Rightarrow> 'x vtable \<Rightarrow> 'x rstate \<Rightarrow> 'x rstate res" where
  "readSocket fuel vt s = bindr (case c_rsock_state (fst s) of
       SOCKET_RECV_FRAMING \<Rightarrow> andthen (andthen (andthen (framing_recv vt s) (framing_size vt)) (data_recv vt)) (data_deliver fuel vt)
     | SOCKET_DATA_RECV \<Rightarrow> andthen (data_recv vt s) (data_deliver fuel vt)
     | _ \<Rightarrow> Inl Abort) (\<lambda>f. Inr (flow_result f))"

definition readHandler :: "nat \<Rightarrow> 'x vtable \<Rightarrow> bool \<Rightarrow> 'x rstate \<Rightarrow> 'x rstate res" where
  "readHandler fuel vt timed_out = (\<lambda>(c, sc, e). if c_destroy c then Inr (c, sc, e)
     else if timed_out then bindr (resetSocket vt c e) (\<lambda>(c, e). Inr (c, sc, e))
     else readSocket fuel vt (c, sc, e))"

section \<open>Writing\<close>

type_synonym 'x wstate = "IoConnection \<times> send_ev list \<times> 'x env"

datatype send_out = Wrote nat | Send_again | Send_other | Send_hard

text \<open>\<open>send\<close> in its retry loop, for a positive number of bytes \<open>n\<close>; the kernel takes at least one and at most \<open>n\<close> of them.\<close>

primrec send_script :: "nat \<Rightarrow> send_ev list \<Rightarrow> send_out \<times> send_ev list" where
  "send_script n [] = (Send_again, [])"
| "send_script n (ev # sc) = (case ev of
     Sent k \<Rightarrow> (Wrote (max 1 (min k n)), sc)
   | Send_zero \<Rightarrow> (Send_other, sc)
   | Send_err er \<Rightarrow> (case er of EAGAIN \<Rightarrow> (Send_again, sc) | EINTR \<Rightarrow> send_script n sc | EOTHER \<Rightarrow> (Send_hard, sc)))"

text \<open>Fetching the next push data; without one, the connection turns back to reading.\<close>

definition next_push :: "'x vtable \<Rightarrow> 'x wstate \<Rightarrow> 'x wstate flow res" where
  "next_push vt = (\<lambda>(c, sc, e). bindr (getPushData vt e) (\<lambda>(d, e).
     let c = c\<lparr>c_current_push := d\<rparr> in
     Inr (if d = 0 then Return (setRead True (setWrite' False c), sc, e) else Go (c, sc, e))))"

definition write_data :: "'x vtable \<Rightarrow> 'x wstate \<Rightarrow> 'x wstate flow res" where
  "write_data vt = (\<lambda>(c, sc, e).
     bindr (hget (e_ph e) (c_current_push c)) (\<lambda>d.
     bindr (hget (e_mh e) (pd_msg d)) (\<lambda>m.
     if m_close_conn m then bindr (resetSocket vt c e) (\<lambda>(c, e). Inr (Return (c, sc, e)))
     else let left = pd_wsize d - pd_wpos d in
       if left < 0 then Inr (Return (c, sc, e))
       else if left = 0 then Inr (Go (c, sc, e))
       else bindr (hget (e_mh e) (pd_wbuf d)) (\<lambda>wm.
         bindr (rd_bytes (m_b wm) (nat (pd_wpos d)) (nat left)) (\<lambda>bytes.
         case send_script (nat left) sc of
           (Wrote k, sc) \<Rightarrow>
             let e = e\<lparr>e_ph := hset (e_ph e) (c_current_push c) (d\<lparr>pd_wpos := pd_wpos d + int k\<rparr>),
                       e_wire := e_wire e @ take k bytes\<rparr> in
             Inr (if int k = left then Go (c, sc, e) else Return (c, sc, e))
         | (Send_again, sc) \<Rightarrow> Inr (Return (c, sc, e))
         | (Send_other, sc) \<Rightarrow> Inr (Return (c, sc, e))
         | (Send_hard, sc) \<Rightarrow> bindr (resetSocket vt c e) (\<lambda>(c, e). Inr (Return (c, sc, e))))))))"

text \<open>The push data is written completely: drop it and its message and fetch the next.\<close>

definition write_done :: "'x vtable \<Rightarrow> 'x wstate \<Rightarrow> 'x wstate flow res" where
  "write_done vt = (\<lambda>(c, sc, e).
     bindr (destroyMsgData (c_current_push c) (e_ph e, e_mh e)) (\<lambda>(ph, mh).
     next_push vt (c, sc, e\<lparr>e_ph := ph, e_mh := mh\<rparr>)))"

text \<open>\<open>so_error\<close> is what \<open>getsockopt(SO_ERROR)\<close> reports for a connection being established.\<close>

definition writeSocket :: "int \<Rightarrow> 'x vtable \<Rightarrow> 'x wstate \<Rightarrow> 'x wstate res" where
  "writeSocket so_error vt s = (case s of (c, sc, e) \<Rightarrow>
     let data_write = (\<lambda>(c, sc, e). bindr
           (andthen (andthen (if c_current_push c = 0 then next_push vt (c, sc, e) else Inr (Go (c, sc, e)))
              (write_data vt)) (write_done vt)) (\<lambda>f. Inr (flow_result f))) in
     case c_wsock_state c of
       SOCKET_CONNECTING \<Rightarrow> if so_error \<noteq> 0 then bindr (resetSocket vt c e) (\<lambda>(c, e). Inr (c, sc, e))
         else data_write (c\<lparr>c_wsock_state := SOCKET_DATA_WRITE\<rparr>, sc, e)
     | SOCKET_DATA_WRITE \<Rightarrow> data_write (c, sc, e)
     | _ \<Rightarrow> bindr (resetSocket vt c e) (\<lambda>(c, e). Inr (c, sc, e)))"

definition writeHandler :: "int \<Rightarrow> 'x vtable \<Rightarrow> bool \<Rightarrow> 'x wstate \<Rightarrow> 'x wstate res" where
  "writeHandler so_error vt timed_out = (\<lambda>(c, sc, e). if c_destroy c then Inr (c, sc, e)
     else if timed_out then bindr (resetSocket vt c e) (\<lambda>(c, e). Inr (c, sc, e))
     else writeSocket so_error vt (c, sc, e))"

end
