(* ===== verification/Framing.thy ===== *)
theory Framing
  imports Connection
begin

text \<open>
  What the read side of a connection does with a byte stream. \<open>split_frames\<close> is the specification: cut a
  sequence of bytes into its complete frames and the incomplete rest. The main lemma shows that a call
  of \<open>readSocket\<close> hands exactly the frames of the specification to the handler, in order, however the kernel
  cuts the stream into chunks and wherever calls are interrupted; iterating it gives the whole stream.

  After the frames the rest is moved to the front of the buffer with \<open>memcpy\<close>, which is undefined when the rest is longer than
  what was before it (\<open>overlaps\<close>). The calls are defined as long as a frame that is more than one byte longer than the
  one before it does not arrive together with the end of that one (\<open>gentle\<close>).
\<close>

section \<open>Specification\<close>

definition frame_len :: "byte list \<Rightarrow> nat" where
  "frame_len p = nat ((rd_be32 (take 4 p) + 4) mod 4294967296)"

function split_frames :: "byte list \<Rightarrow> byte list list \<times> byte list" where
  "split_frames p = (if length p < 4 \<or> frame_len p < 4 \<or> length p < frame_len p then ([], p)
     else let (fs, r) = split_frames (drop (frame_len p) p) in (take (frame_len p) p # fs, r))"
  by pat_completeness auto
termination by (relation "measure length") auto

declare split_frames.simps [simp del]

text \<open>Every frame of the stream, complete or begun, has a header and is not too long.\<close>

function stream_ok :: "byte list \<Rightarrow> bool" where
  "stream_ok p = (if length p < 4 then True else if frame_len p < 8 \<or> 1024 < frame_len p then False
     else if length p < frame_len p then True else stream_ok (drop (frame_len p) p))"
  by pat_completeness auto
termination by (relation "measure length") auto

declare stream_ok.simps [simp del]

text \<open>Handing frames to the handler one after the other until one is refused.\<close>

primrec handle_frames :: "'x vtable \<Rightarrow> IoConnection \<Rightarrow> byte list list \<Rightarrow> 'x env \<Rightarrow> (bool \<times> 'x env) res" where
  "handle_frames vt c [] e = Inr (True, e)"
| "handle_frames vt c (f # fs) e = bindr (whenReceivedFrame vt c (map Some f) (int (length f)) e) (\<lambda>(ret, e).
     if ret = -1 then Inr (False, e) else handle_frames vt c fs e)"

lemma frame_len_append: "4 \<le> length p \<Longrightarrow> frame_len (p @ q) = frame_len p"
  by (simp add: frame_len_def)

lemma split_short: "length p < 4 \<or> length p < frame_len p \<Longrightarrow> split_frames p = ([], p)"
  by (subst split_frames.simps) auto

lemma split_one:
  "4 \<le> frame_len p \<Longrightarrow> frame_len p \<le> length p \<Longrightarrow>
   split_frames p = (take (frame_len p) p # fst (split_frames (drop (frame_len p) p)), snd (split_frames (drop (frame_len p) p)))"
  by (subst split_frames.simps) (simp add: split_beta)

lemma stream_okD: "stream_ok p \<Longrightarrow> 4 \<le> length p \<Longrightarrow> 8 \<le> frame_len p \<and> frame_len p \<le> 1024"
  by (subst (asm) stream_ok.simps) (auto split: if_splits)

lemma stream_ok_drop: "stream_ok p \<Longrightarrow> 4 \<le> length p \<Longrightarrow> frame_len p \<le> length p \<Longrightarrow> stream_ok (drop (frame_len p) p)"
  by (subst (asm) stream_ok.simps) (auto split: if_splits)

lemma stream_ok_prefix: "stream_ok (p @ q) \<Longrightarrow> stream_ok p"
proof (induction p rule: stream_ok.induct)
  case (1 p)
  show ?case
  proof (cases "length p < 4")
    case False
    then have l: "frame_len (p @ q) = frame_len p" by (simp add: frame_len_append)
    have b: "8 \<le> frame_len p \<and> frame_len p \<le> 1024" using stream_okD[OF 1(2)] False l by auto
    show ?thesis
    proof (cases "length p < frame_len p")
      case F2: False
      have "stream_ok (drop (frame_len p) (p @ q))" using stream_ok_drop[OF 1(2)] False F2 l by auto
      then have "stream_ok (drop (frame_len p) p)" using 1(1) False F2 b by simp
      then show ?thesis using b by (subst stream_ok.simps) simp
    qed (use b in \<open>subst stream_ok.simps, simp\<close>)
  qed (subst stream_ok.simps, simp)
qed

lemma split_append:
  "split_frames (p @ q) = (fst (split_frames p) @ fst (split_frames (snd (split_frames p) @ q)), snd (split_frames (snd (split_frames p) @ q)))"
proof (induction p rule: split_frames.induct)
  case (1 p)
  show ?case
  proof (cases "length p < 4 \<or> frame_len p < 4 \<or> length p < frame_len p")
    case True
    then have "split_frames p = ([], p)" by (subst split_frames.simps) auto
    then show ?thesis by simp
  next
    case False
    then have "split_frames (p @ q) = (take (frame_len p) p # fst (split_frames (drop (frame_len p) p @ q)),
        snd (split_frames (drop (frame_len p) p @ q)))"
      using split_one[of "p @ q"] by (simp add: frame_len_append)
    moreover have "split_frames p = (take (frame_len p) p # fst (split_frames (drop (frame_len p) p)), snd (split_frames (drop (frame_len p) p)))"
      using split_one[of p] False by simp
    ultimately show ?thesis using 1[OF False] by simp
  qed
qed

lemma split_rest:
  "stream_ok p \<Longrightarrow> split_frames (snd (split_frames p)) = ([], snd (split_frames p)) \<and> stream_ok (snd (split_frames p)) \<and>
     length (snd (split_frames p)) \<le> length p"
proof (induction p rule: split_frames.induct)
  case (1 p)
  show ?case
  proof (cases "length p < 4 \<or> frame_len p < 4 \<or> length p < frame_len p")
    case True
    then have "split_frames p = ([], p)" by (subst split_frames.simps) auto
    with 1(2) show ?thesis by simp
  next
    case False
    have "stream_ok (drop (frame_len p) p)" using stream_ok_drop[OF 1(2)] False by auto
    with 1(1)[OF False] split_one[of p] False show ?thesis by auto
  qed
qed

lemma rest_short: "stream_ok p \<Longrightarrow> split_frames p = ([], p) \<Longrightarrow> 4 \<le> length p \<Longrightarrow> length p < frame_len p"
  using split_one[of p] stream_okD[of p] by (cases "length p < frame_len p") auto

lemma stream_ok_rest: "stream_ok (p @ q) \<Longrightarrow> stream_ok (snd (split_frames p) @ q)"
proof (induction p rule: split_frames.induct)
  case (1 p)
  show ?case
  proof (cases "length p < 4 \<or> frame_len p < 4 \<or> length p < frame_len p")
    case True
    then have "split_frames p = ([], p)" by (subst split_frames.simps) auto
    with 1(2) show ?thesis by simp
  next
    case False
    then have "stream_ok (drop (frame_len p) p @ q)" using stream_ok_drop[OF 1(2)] by (auto simp: frame_len_append)
    with 1(1)[OF False] split_one[of p] False show ?thesis by simp
  qed
qed

section \<open>Moving the rest to the front\<close>

text \<open>The buffer has complete frames, and the rest behind them is longer than they are.\<close>

definition overlaps :: "byte list \<Rightarrow> bool" where
  "overlaps p \<longleftrightarrow> fst (split_frames p) \<noteq> [] \<and> length p < 2 * length (snd (split_frames p))"

text \<open>Where \<open>cuts n\<close> says that the stream pauses at position \<open>n\<close>: after each frame there is a pause, or the next frame is
  at most one byte longer.\<close>

function gentle :: "(nat \<Rightarrow> bool) \<Rightarrow> byte list \<Rightarrow> bool" where
  "gentle cuts q = (if length q < frame_len q + 4 \<or> frame_len q < 4 then True
     else (cuts (frame_len q) \<or> frame_len (drop (frame_len q) q) \<le> Suc (frame_len q)) \<and>
       gentle (\<lambda>m. cuts (m + frame_len q)) (drop (frame_len q) q))"
  by pat_completeness auto
termination by (relation "measure (length \<circ> snd)") auto

declare gentle.simps [simp del]

lemma gentle_mono: "gentle k q \<Longrightarrow> (\<And>m. frame_len q \<le> m \<Longrightarrow> k m \<Longrightarrow> k' m) \<Longrightarrow> gentle k' q"
proof (induction k q arbitrary: k' rule: gentle.induct)
  case (1 k q)
  show ?case
  proof (cases "length q < frame_len q + 4 \<or> frame_len q < 4")
    case False
    have "k (frame_len q) \<or> frame_len (drop (frame_len q) q) \<le> Suc (frame_len q)" "gentle (\<lambda>m. k (m + frame_len q)) (drop (frame_len q) q)"
      using 1(2) False by (auto simp: gentle.simps[of k q])
    then show ?thesis using 1(1)[OF False, of "\<lambda>m. k' (m + frame_len q)"] 1(3) False by (subst gentle.simps) auto
  qed (simp add: gentle.simps)
qed

lemma gentle_short: "length q < 8 \<Longrightarrow> gentle k q"
  by (subst gentle.simps) auto

lemma gentle_drop:
  "gentle k q \<Longrightarrow> 4 \<le> frame_len q \<Longrightarrow> gentle (\<lambda>m. k (m + frame_len q)) (drop (frame_len q) q)"
  by (cases "length q < frame_len q + 4") (auto simp: gentle.simps[of k q] intro: gentle_short)

lemma gentle_rest:
  assumes "stream_ok p" "gentle k (p @ q)"
  shows "gentle (\<lambda>m. k (m + (length p - length (snd (split_frames p))))) (snd (split_frames p) @ q)"
  using assms
proof (induction p arbitrary: k rule: split_frames.induct)
  case (1 p)
  show ?case
  proof (cases "length p < 4 \<or> frame_len p < 4 \<or> length p < frame_len p")
    case True
    then have "split_frames p = ([], p)" by (subst split_frames.simps) auto
    then show ?thesis using 1(3) by simp
  next
    case False
    define r where "r = drop (frame_len p) p"
    have r: "snd (split_frames p) = snd (split_frames r)" "length r + frame_len p = length p" "stream_ok r"
      using split_one[of p] stream_ok_drop[OF 1(2)] False by (auto simp: r_def)
    have l: "length (snd (split_frames r)) \<le> length r" using split_rest[OF r(3)] by simp
    have "gentle (\<lambda>m. k (m + frame_len p)) (r @ q)"
      using gentle_drop[OF 1(3)] False by (simp add: frame_len_append r_def)
    from 1(1)[OF False r(3)[unfolded r_def] this[unfolded r_def], folded r_def]
    have "gentle (\<lambda>m. k (m + (length r - length (snd (split_frames r))) + frame_len p)) (snd (split_frames r) @ q)" .
    moreover have "m + (length r - length (snd (split_frames r))) + frame_len p = m + (length p - length (snd (split_frames r)))" for m
      using r(2) l by linarith
    ultimately show ?thesis unfolding r(1) by simp
  qed
qed

text \<open>The position where the rest begins is a pause whenever the rest is too long.\<close>

lemma gentle_overlap:
  assumes "stream_ok p" "gentle k (p @ q)" "overlaps p"
  shows "k (length p - length (snd (split_frames p)))"
  using assms
proof (induction p arbitrary: k rule: split_frames.induct)
  case (1 p)
  have "\<not> (length p < 4 \<or> frame_len p < 4 \<or> length p < frame_len p)"
  proof
    assume "length p < 4 \<or> frame_len p < 4 \<or> length p < frame_len p"
    then have "split_frames p = ([], p)" by (subst split_frames.simps) auto
    then show False using 1(4) by (simp add: overlaps_def)
  qed
  note F = this
  define r where "r = drop (frame_len p) p"
  have r: "snd (split_frames p) = snd (split_frames r)" "length r + frame_len p = length p" "stream_ok r"
    using split_one[of p] stream_ok_drop[OF 1(2)] F by (auto simp: r_def)
  have n: "8 \<le> frame_len p" using stream_okD[OF 1(2)] F by auto
  have g: "gentle (\<lambda>m. k (m + frame_len p)) (r @ q)" using gentle_drop[OF 1(3)] F by (simp add: frame_len_append r_def)
  have o: "length p < 2 * length (snd (split_frames r))" using 1(4) r(1) by (simp add: overlaps_def)
  have l: "length (snd (split_frames r)) \<le> length r" using split_rest[OF r(3)] by simp
  show ?case
  proof (cases "fst (split_frames r) = []")
    case False
    then have "overlaps r" using o r(2) by (simp add: overlaps_def)
    from 1(1)[OF F r(3)[unfolded r_def] g[unfolded r_def] this[unfolded r_def], folded r_def] have "k (length r - length (snd (split_frames r)) + frame_len p)" .
    moreover have "length r - length (snd (split_frames r)) + frame_len p = length p - length (snd (split_frames r))" using r(2) l by linarith
    ultimately show ?thesis unfolding r(1) by simp
  next
    case True
    have sp: "split_frames r = ([], r)"
    proof (cases "length r < 4 \<or> frame_len r < 4 \<or> length r < frame_len r")
      case False then show ?thesis using True split_one[of r] by simp
    qed (subst split_frames.simps, auto)
    have lr: "frame_len p < length r" "4 \<le> length r" using o r(2) n sp by auto
    then have big: "Suc (frame_len p) < frame_len (r @ q)" using rest_short[OF r(3) sp] by (simp add: frame_len_append)
    have e: "frame_len (p @ q) = frame_len p" "drop (frame_len p) (p @ q) = r @ q" using F by (simp_all add: frame_len_append r_def)
    have nl: "\<not> length (p @ q) < frame_len p + 4" using r(2) lr by simp
    have "k (frame_len p) \<or> frame_len (r @ q) \<le> Suc (frame_len p)" using 1(3) nl n unfolding gentle.simps[of k "p @ q"] e by simp
    then have "k (frame_len p)" using big by simp
    moreover have "length p - length (snd (split_frames p)) = frame_len p" using sp r(1,2) by simp
    ultimately show ?thesis by simp
  qed
qed

text \<open>Complete frames end behind the beginning of the first frame.\<close>

lemma boundary_ge: "stream_ok p \<Longrightarrow> fst (split_frames p) \<noteq> [] \<Longrightarrow> 4 \<le> length p \<and> frame_len p + length (snd (split_frames p)) \<le> length p"
proof -
  assume p: "stream_ok p" "fst (split_frames p) \<noteq> []"
  have F: "\<not> (length p < 4 \<or> frame_len p < 4 \<or> length p < frame_len p)"
  proof
    assume "length p < 4 \<or> frame_len p < 4 \<or> length p < frame_len p"
    then have "split_frames p = ([], p)" by (subst split_frames.simps) auto
    then show False using p(2) by simp
  qed
  have "length (snd (split_frames (drop (frame_len p) p))) \<le> length p - frame_len p"
    using split_rest[OF stream_ok_drop[OF p(1)]] F by auto
  then show ?thesis using split_one[of p] F by auto
qed

lemma begun_frame: "stream_ok (p @ q) \<Longrightarrow> split_frames p = ([], p) \<Longrightarrow> length p < frame_len (p @ q)"
proof -
  assume ok: "stream_ok (p @ q)" and s: "split_frames p = ([], p)"
  consider "4 \<le> length p" | "length p < 4" "4 \<le> length (p @ q)" | "length (p @ q) < 4" by linarith
  then show ?thesis
  proof cases
    case 1 then show ?thesis using rest_short[OF stream_ok_prefix[OF ok] s] by (simp add: frame_len_append)
  next
    case 2 then show ?thesis using stream_okD[OF ok] by simp
  next
    case 3
    then have "rd_be32 (take 4 (p @ q)) = 0" by (cases "p @ q" rule: rd_be32.cases) auto
    then have "frame_len (p @ q) = 4" unfolding frame_len_def by simp
    then show ?thesis using 3 by simp
  qed
qed

lemma one_frame_no_overlap: "stream_ok p \<Longrightarrow> length p \<le> frame_len p \<Longrightarrow> \<not> overlaps p"
  using boundary_ge[of p] by (auto simp: overlaps_def)

section \<open>The script of the socket\<close>

fun bytes_of :: "recv_ev list \<Rightarrow> byte list" where
  "bytes_of [] = []"
| "bytes_of (Chunk bs # sc) = bs @ bytes_of sc"
| "bytes_of (_ # sc) = bytes_of sc"

text \<open>A script on which the connection neither ends nor fails.\<close>

fun quiet :: "recv_ev list \<Rightarrow> bool" where
  "quiet [] \<longleftrightarrow> True"
| "quiet (Chunk bs # sc) \<longleftrightarrow> quiet sc"
| "quiet (Recv_eof # sc) \<longleftrightarrow> False"
| "quiet (Recv_err er # sc) \<longleftrightarrow> er \<noteq> EOTHER \<and> quiet sc"

definition script_size :: "recv_ev list \<Rightarrow> nat" where
  "script_size sc = length sc + length (bytes_of sc)"

text \<open>The stream pauses at position \<open>n\<close>: a chunk ends there.\<close>

fun cut :: "recv_ev list \<Rightarrow> nat \<Rightarrow> bool" where
  "cut [] n \<longleftrightarrow> n = 0"
| "cut (Chunk bs # sc) n \<longleftrightarrow> n = 0 \<or> length bs \<le> n \<and> cut sc (n - length bs)"
| "cut (_ # sc) n \<longleftrightarrow> cut sc n"

lemma cut_0 [simp]: "cut sc 0"
  by (induction sc "0 :: nat" rule: cut.induct) auto

text \<open>The bytes \<open>bs\<close> are the next of the script, and taking them leaves \<open>sc'\<close>; they may come from several chunks, or all from one.\<close>

definition leaves :: "recv_ev list \<Rightarrow> byte list \<Rightarrow> recv_ev list \<Rightarrow> bool" where
  "leaves sc bs sc' \<longleftrightarrow> bytes_of sc = bs @ bytes_of sc' \<and> (\<forall>n. cut sc (n + length bs) \<longrightarrow> cut sc' n)"

definition uncut :: "recv_ev list \<Rightarrow> byte list \<Rightarrow> bool" where
  "uncut sc bs \<longleftrightarrow> (\<forall>n. cut sc n \<longrightarrow> n = 0 \<or> length bs \<le> n)"

lemma leaves_Chunk: "leaves (Chunk bs # sc) bs sc" "0 < n \<Longrightarrow> n < length bs \<Longrightarrow> leaves (Chunk bs # sc) (take n bs) (Chunk (drop n bs) # sc)"
proof -
  show "leaves (Chunk bs # sc) bs sc" by (auto simp: leaves_def)
  assume n: "0 < n" "n < length bs"
  have "m + n - length bs = m - (length bs - n)" for m using n by simp
  then show "leaves (Chunk bs # sc) (take n bs) (Chunk (drop n bs) # sc)" using n by (auto simp: leaves_def)
qed

lemma uncut_Chunk: "uncut (Chunk bs # sc) (take n bs)"
  by (auto simp: uncut_def)

lemma cut_skip: "cut (Chunk [] # sc) n = cut sc n" "cut (Recv_err er # sc) n = cut sc n"
  by (cases "n = 0"; simp)+

lemma leaves_skip: "leaves (Chunk [] # sc) bs sc' = leaves sc bs sc'" "leaves (Recv_err er # sc) bs sc' = leaves sc bs sc'"
  "uncut (Chunk [] # sc) bs = uncut sc bs" "uncut (Recv_err er # sc) bs = uncut sc bs"
  unfolding leaves_def uncut_def cut_skip by simp_all

lemma leaves_trans: "leaves sc bs sc1 \<Longrightarrow> leaves sc1 ds sc2 \<Longrightarrow> leaves sc (bs @ ds) sc2"
  by (auto simp: leaves_def add.assoc[symmetric] add.commute[of "length bs"])

lemma leaves_refl [simp]: "leaves sc [] sc" and uncut_Nil [simp]: "uncut sc []"
  by (simp_all add: leaves_def uncut_def)

text \<open>What one \<open>recv\<close> takes from a quiet script: some bytes of one chunk, or nothing.\<close>

lemma recv_script_quiet:
  "quiet sc \<Longrightarrow> 0 < n \<Longrightarrow> \<exists>sc' bs. quiet sc' \<and> (sc \<noteq> [] \<longrightarrow> script_size sc' < script_size sc) \<and> leaves sc bs sc' \<and> uncut sc bs \<and>
     length bs \<le> n \<and> recv_script n sc = (if bs = [] then Again else Data bs, sc')"
proof (induction sc rule: quiet.induct)
  case (2 bs sc)
  show ?case
  proof (cases "bs = []")
    case True
    from 2 obtain sc' ds where "quiet sc'" "sc \<noteq> [] \<longrightarrow> script_size sc' < script_size sc" "leaves sc ds sc'" "uncut sc ds" "length ds \<le> n"
      "recv_script n sc = (if ds = [] then Again else Data ds, sc')" by auto
    with True show ?thesis by (intro exI[of _ sc'] exI[of _ ds]) (cases "sc = []", auto simp: script_size_def leaves_skip)
  next
    case False
    show ?thesis
    proof (cases "length bs \<le> n")
      case True
      then show ?thesis using 2 False leaves_Chunk(1)[of bs sc] uncut_Chunk[of bs sc n]
        by (intro exI[of _ sc] exI[of _ bs]) (simp add: script_size_def)
    next
      case F: False
      then show ?thesis using 2 False leaves_Chunk(2)[of n bs sc] uncut_Chunk[of bs sc n]
        by (intro exI[of _ "Chunk (drop n bs) # sc"] exI[of _ "take n bs"]) (simp add: script_size_def)
    qed
  qed
next
  case (4 er sc)
  show ?case
  proof (cases er)
    case EINTR
    from 4 obtain sc' ds where "quiet sc'" "sc \<noteq> [] \<longrightarrow> script_size sc' < script_size sc" "leaves sc ds sc'" "uncut sc ds" "length ds \<le> n"
      "recv_script n sc = (if ds = [] then Again else Data ds, sc')" by auto
    with EINTR show ?thesis by (intro exI[of _ sc'] exI[of _ ds]) (cases "sc = []", auto simp: script_size_def leaves_skip)
  next
    case EAGAIN
    with 4 show ?thesis by (intro exI[of _ sc] exI[of _ "[]"]) (simp add: script_size_def leaves_skip)
  qed (use 4 in simp)
qed (auto intro!: exI[of _ "[] :: recv_ev list"] exI[of _ "[] :: byte list"])

section \<open>The buffer of a connection\<close>

text \<open>The bytes \<open>q\<close> stand at offset \<open>b\<close> of the buffer.\<close>

definition at :: "buffer \<Rightarrow> nat \<Rightarrow> byte list \<Rightarrow> bool" where
  "at buf b q \<longleftrightarrow> b + length q \<le> length buf \<and> take (length q) (drop b buf) = map Some q"

text \<open>The connection is open and has the bytes \<open>p\<close> buffered, which are the beginning of one frame.\<close>

definition conn_buf :: "IoConnection \<Rightarrow> byte list \<Rightarrow> bool" where
  "conn_buf c p \<longleftrightarrow> c_rpos c = int (length p) \<and> c_rsize c = 1024 \<and> length (c_rbuf c) = 1024 \<and> at (c_rbuf c) 0 p \<and>
     c_socket c \<noteq> -1 \<and> length p < 1024 \<and>
     (c_rsock_state c = SOCKET_RECV_FRAMING \<and> split_frames p = ([], p) \<or>
      c_rsock_state c = SOCKET_DATA_RECV \<and> 4 \<le> length p \<and> c_frame_size c = int (frame_len p) \<and> length p < frame_len p)"

declare conn_buf_def [inv_defs]

text \<open>What the handler of a frame can see of the connection.\<close>

definition same_peer :: "IoConnection \<Rightarrow> IoConnection \<Rightarrow> bool" where
  "same_peer c c' \<longleftrightarrow> c_io c' = c_io c \<and> c_id c' = c_id c \<and> c_current_push c' = c_current_push c \<and>
     c_when_destroy c' = c_when_destroy c \<and> c_destroy c' = c_destroy c \<and> c_wsock_state c' = c_wsock_state c"

lemma same_peer_refl [simp]: "same_peer c c"
  by (simp add: same_peer_def)

lemma same_peer_trans: "same_peer c c' \<Longrightarrow> same_peer c' c'' \<Longrightarrow> same_peer c c''"
  by (simp add: same_peer_def)

lemma at_frame_size: "at buf b q \<Longrightarrow> 4 \<le> length q \<Longrightarrow> frame_size_at buf b = Inr (int (frame_len q))"
proof -
  assume a: "at buf b q" and l: "4 \<le> length q"
  have "take 4 (drop b buf) = take 4 (take (length q) (drop b buf))" using l by (simp add: min_def)
  also have "\<dots> = map Some (take 4 q)" using a by (simp add: at_def take_map)
  finally have "rd_bytes buf b 4 = Inr (take 4 q)" using a l by (auto simp: rd_bytes_Inr at_def)
  moreover have "0 \<le> (rd_be32 (take 4 q) + 4) mod 4294967296" by (rule pos_mod_sign) simp
  ultimately show ?thesis by (simp add: frame_size_at_def frame_len_def)
qed

lemma at_drop: "at buf b q \<Longrightarrow> n \<le> length q \<Longrightarrow> at buf (b + n) (drop n q)"
proof -
  assume a: "at buf b q" and n: "n \<le> length q"
  have "drop n (take (length q) (drop b buf)) = drop n (map Some q)" using a by (simp add: at_def)
  then show ?thesis using a n by (simp add: at_def drop_take drop_map add.commute)
qed

lemma at_take: "at buf b q \<Longrightarrow> n \<le> length q \<Longrightarrow> take n (drop b buf) = map Some (take n q)"
proof -
  assume a: "at buf b q" and n: "n \<le> length q"
  have "take n (take (length q) (drop b buf)) = take n (map Some q)" using a by (simp add: at_def)
  then show ?thesis using n by (simp add: take_map min_def)
qed

lemma store_received_ok:
  assumes "at (c_rbuf c) 0 p" "c_rpos c = int (length p)" "length p + length bs \<le> length (c_rbuf c)"
  shows "\<exists>buf. store_received bs c = Inr (c\<lparr>c_rbuf := buf, c_rpos := int (length (p @ bs))\<rparr>) \<and> at buf 0 (p @ bs) \<and>
    length buf = length (c_rbuf c)"
proof -
  have "take (length p) (c_rbuf c) = map Some p" using assms(1) by (simp add: at_def)
  then show ?thesis using assms(2,3)
    by (intro exI[of _ "map Some p @ map Some bs @ drop (length p + length bs) (c_rbuf c)"])
      (simp add: store_received_def wr_bytes_def at_def)
qed

lemma s32_small: "n \<le> 1024 \<Longrightarrow> s32 (int n) = int n"
  by (intro s32_id) simp_all

text \<open>A handler that looks at nothing but the frame it is given, and at the identity of the connection.\<close>

locale frame_handler =
  fixes vt :: "'x vtable"
  assumes handler_local: "8 \<le> length f \<Longrightarrow> take (length f) buf = map Some f \<Longrightarrow> same_peer c c' \<Longrightarrow>
    whenReceivedFrame vt c' buf (int (length f)) e = whenReceivedFrame vt c (map Some f) (int (length f)) e"
begin

lemma handle_frames_peer: "same_peer c c' \<Longrightarrow> \<forall>f \<in> set fs. 8 \<le> length f \<Longrightarrow> handle_frames vt c' fs e = handle_frames vt c fs e"
proof (induction fs arbitrary: e)
  case (Cons f fs)
  then have "whenReceivedFrame vt c' (map Some f) (int (length f)) e = whenReceivedFrame vt c (map Some f) (int (length f)) e"
    by (intro handler_local) auto
  then show ?case using Cons by (auto intro!: bindr_cong)
qed simp

text \<open>The loop over several frames does what the specification says: every complete frame is handled.\<close>

lemma frames_loop_spec:
  assumes "at (c_rbuf c) b q" "stream_ok q" "4 \<le> length q" "length q < k"
  defines "rest \<equiv> snd (split_frames q)"
  shows "case handle_frames vt c (fst (split_frames q)) e of
      Inl f \<Rightarrow> frames_loop k vt c (int b) (int (length q)) (int (frame_len q)) e = Inl f
    | Inr (True, e') \<Rightarrow> frames_loop k vt c (int b) (int (length q)) (int (frame_len q)) e
        = Inr (True, int (b + length q - length rest), int (length rest), e') \<and> at (c_rbuf c) (b + length q - length rest) rest \<and>
          length rest \<le> length q
    | Inr (False, e') \<Rightarrow> \<exists>b' l'. frames_loop k vt c (int b) (int (length q)) (int (frame_len q)) e = Inr (False, b', l', e')"
  using assms(1-4) unfolding rest_def
proof (induction k arbitrary: b q e)
  case (Suc k)
  define n where "n = frame_len q"
  have n: "8 \<le> n" "n \<le> 1024" using stream_okD[OF Suc.prems(2,3)] by (auto simp: n_def)
  show ?case
  proof (cases "length q < n")
    case True
    then have "split_frames q = ([], q)" by (auto simp: n_def intro: split_short)
    then show ?thesis using True Suc.prems(1) by (simp add: n_def)
  next
    case False
    define f where "f = take n q"
    define r where "r = drop n q"
    have lf: "length f = n" "length r = length q - n" "n \<le> length q" using False by (auto simp: f_def r_def)
    have sp: "split_frames q = (f # fst (split_frames r), snd (split_frames r))"
      using split_one[of q] n(1) False by (simp add: n_def f_def r_def)
    have h: "whenReceivedFrame vt c (drop b (c_rbuf c)) (int n) e = whenReceivedFrame vt c (map Some f) (int n) e"
      using handler_local[of f "drop b (c_rbuf c)" c c e] at_take[OF Suc.prems(1), of n] n lf by (simp add: f_def)
    have ar: "at (c_rbuf c) (b + n) r" using at_drop[OF Suc.prems(1) lf(3)] by (simp add: r_def)
    have okr: "stream_ok r" using stream_ok_drop[OF Suc.prems(2,3)] lf(3) by (simp add: n_def r_def)
    have e1: "int (length q) - int n = int (length r)" using lf by simp
    show ?thesis
    proof (cases "whenReceivedFrame vt c (map Some f) (int n) e")
      case (Inl fa)
      then show ?thesis using h lf n by (simp add: sp n_def[symmetric])
    next
      case (Inr re)
      obtain ret e1' where re: "re = (ret, e1')" by (cases re)
      show ?thesis
      proof (cases "ret = -1")
        case True
        then show ?thesis using h lf Inr re by (simp add: sp n_def[symmetric])
      next
        case F: False
        show ?thesis
        proof (cases "4 \<le> length r")
          case False
          then have "split_frames r = ([], r)" by (intro split_short) simp
          moreover have "b + length q - length r = b + n" using lf by simp
          moreover have "length r \<le> length q" using lf by simp
          ultimately show ?thesis using F False h lf(1,3) Inr re ar e1 by (simp add: sp n_def[symmetric])
        next
          case True
          have fs: "frame_size_at (c_rbuf c) (nat (int b + int n)) = Inr (int (frame_len r))"
            using at_frame_size[OF ar True] by (simp only: of_nat_add[symmetric] nat_int)
          have nr: "s32 (int (frame_len r)) = int (frame_len r)" using stream_okD[OF okr True] by (intro s32_small) simp
          have l: "length r < k" using Suc.prems(4) lf n by simp
          have step: "frames_loop (Suc k) vt c (int b) (int (length q)) (int (frame_len q)) e
              = frames_loop k vt c (int (b + n)) (int (length r)) (int (frame_len r)) e1'"
            using F True h lf(3) Inr re fs nr e1 by (simp add: n_def[symmetric])
          have lr: "length (snd (split_frames r)) \<le> length r" using split_rest[OF okr] by simp
          have eq: "b + n + length r - length (snd (split_frames r)) = b + length q - length (snd (split_frames r))" using lf by simp
          have hq: "handle_frames vt c (fst (split_frames q)) e = handle_frames vt c (fst (split_frames r)) e1'"
            "snd (split_frames q) = snd (split_frames r)" using F lf Inr re by (simp_all add: sp)
          note IH = Suc.IH[OF ar okr True l, of e1']
          show ?thesis
          proof (cases "handle_frames vt c (fst (split_frames r)) e1'")
            case (Inl fa)
            then show ?thesis using IH unfolding step hq by simp
          next
            case (Inr ke)
            obtain ok e2 where "ke = (ok, e2)" by (cases ke)
            then show ?thesis using IH Inr eq lr lf unfolding step hq by (cases ok) simp_all
          qed
        qed
      qed
    qed
  qed
qed simp

end

section \<open>One call of readSocket\<close>

text \<open>The call \<open>R\<close> handed the frames of \<open>p\<close> to the handler: if all were accepted it ends with the rest buffered, unless moving the
  rest is undefined; if one was refused it ends with a reset.\<close>

definition delivers :: "'x vtable \<Rightarrow> IoConnection \<Rightarrow> 'x env \<Rightarrow> recv_ev list \<Rightarrow> byte list \<Rightarrow> 'x rstate res \<Rightarrow> bool" where
  "delivers vt c e sc p R \<longleftrightarrow> (case handle_frames vt c (fst (split_frames p)) e of
       Inl f \<Rightarrow> R = Inl f
     | Inr (ok, e') \<Rightarrow> if ok \<and> overlaps p then R = Inl Overlap
         else if ok then \<exists>c'. R = Inr (c', sc, e') \<and> conn_buf c' (snd (split_frames p)) \<and> same_peer c c'
         else \<exists>c1. R = bindr (resetSocket vt c1 e') (\<lambda>(c, e). Inr (c, sc, e)) \<and> same_peer c c1)"

definition run_flow :: "'a flow res \<Rightarrow> 'a res" where
  "run_flow m = bindr m (\<lambda>f. Inr (flow_result f))"

lemma run_flow_simps [simp]:
  "run_flow (Inl e) = Inl e" "run_flow (Inr (Return s)) = Inr s" "run_flow (Inr (Go s)) = Inr s"
  by (simp_all add: run_flow_def flow_result_def)

lemma run_flow_return: "run_flow (bindr m (\<lambda>(c, e). Inr (Return (c, sc, e)))) = bindr m (\<lambda>(c, e). Inr (c, sc, e))"
  by (cases m) auto

lemma andthen_assoc: "andthen (andthen m f) g = andthen m (\<lambda>s. andthen (f s) g)"
proof (cases m)
  case (Inr x) then show ?thesis by (cases x) auto
qed simp

text \<open>A connection in the state \<open>SOCKET_DATA_RECV\<close> with the bytes \<open>p\<close> buffered, possibly beyond the end of the frame.\<close>

definition data_ready :: "IoConnection \<Rightarrow> byte list \<Rightarrow> bool" where
  "data_ready c p \<longleftrightarrow> c_rpos c = int (length p) \<and> c_rsize c = 1024 \<and> length (c_rbuf c) = 1024 \<and> at (c_rbuf c) 0 p \<and>
     c_socket c \<noteq> -1 \<and> length p \<le> 1024 \<and> c_rsock_state c = SOCKET_DATA_RECV \<and> 4 \<le> length p \<and>
     c_frame_size c = int (frame_len p)"

context frame_handler
begin

lemma data_deliver_spec:
  assumes d: "data_ready c p" and ok: "stream_ok p" and fuel: "1024 < fuel"
  shows "delivers vt c e sc p (run_flow (data_deliver fuel vt (c, sc, e)))"
proof -
  define n where "n = frame_len p"
  have r: "c_rpos c = int (length p)" "c_frame_size c = int n" "at (c_rbuf c) 0 p" "4 \<le> length p" "length p \<le> 1024"
    "length (c_rbuf c) = 1024" "c_rsize c = 1024" "c_socket c \<noteq> -1" "c_rsock_state c = SOCKET_DATA_RECV"
    using d by (auto simp: data_ready_def n_def)
  have n: "8 \<le> n" "n \<le> 1024" using stream_okD[OF ok r(4)] by (auto simp: n_def)
  consider "length p < n" | "length p = n" | "n < length p" by linarith
  then show ?thesis
  proof cases
    case 1
    then have "split_frames p = ([], p)" by (intro split_short) (simp add: n_def)
    then show ?thesis using 1 r n
      by (auto simp: delivers_def data_deliver_def conn_buf_def n_def overlaps_def)
  next
    case 2
    then have sp: "split_frames p = ([p], [])" using split_one[of p] n split_short[of "[]"] by (simp add: n_def)
    have h: "whenReceivedFrame vt c (c_rbuf c) (int n) e = whenReceivedFrame vt c (map Some p) (int n) e"
      using handler_local[of p "c_rbuf c" c c e] r(3) 2 n by (simp add: at_def)
    have "conn_buf (c\<lparr>c_rpos := 0, c_rsock_state := SOCKET_RECV_FRAMING\<rparr>) []"
      using r split_short[of "[]"] by (simp add: conn_buf_def at_def)
    then show ?thesis using 2 r h
      by (cases "whenReceivedFrame vt c (map Some p) (int n) e")
        (auto simp: delivers_def data_deliver_def sp run_flow_return same_peer_def overlaps_def intro!: exI[of _ c])
  next
    case 3
    define rest where "rest = snd (split_frames p)"
    have l: "length p < fuel" using r(5) fuel by simp
    note spec = frames_loop_spec[OF r(3) ok r(4) l, of e, folded rest_def n_def]
    have rok: "stream_ok rest" "split_frames rest = ([], rest)" using split_rest[OF ok] by (auto simp: rest_def)
    have step: "data_deliver fuel vt (c, sc, e) = bindr (frames_loop fuel vt c 0 (int (length p)) (int n) e) (\<lambda>(ok, b, len, e).
       if \<not> ok then bindr (resetSocket vt c e) (\<lambda>(c, e). Inr (Return (c, sc, e)))
       else bindr (memcpy_front (c_rbuf c) b len) (\<lambda>buf.
         Inr (Return (c\<lparr>c_rbuf := buf, c_rpos := len, c_rsock_state := SOCKET_RECV_FRAMING\<rparr>, sc, e))))"
      using 3 r n by (simp add: data_deliver_def s32_small)
    show ?thesis
    proof (cases "handle_frames vt c (fst (split_frames p)) e")
      case (Inl fa)
      then show ?thesis using spec unfolding step by (simp add: delivers_def)
    next
      case (Inr ke)
      obtain k e' where ke: "ke = (k, e')" by (cases ke)
      show ?thesis
      proof (cases k)
        case False
        then obtain b' l' where "frames_loop fuel vt c 0 (int (length p)) (int n) e = Inr (False, b', l', e')" using spec Inr ke by auto
        then show ?thesis using False Inr ke unfolding step by (auto simp: delivers_def run_flow_return intro!: exI[of _ c])
      next
        case True
        define b where "b = length p - length rest"
        have lp: "frames_loop fuel vt c 0 (int (length p)) (int n) e = Inr (True, int b, int (length rest), e')"
          "at (c_rbuf c) b rest" "length rest \<le> length p" using spec Inr ke True by (auto simp: b_def)
        have rl: "length rest < 1024"
          using rest_short[OF rok] stream_okD[OF rok(1)] by (cases "4 \<le> length rest") auto
        define c' where "c' = c\<lparr>c_rbuf := take (length rest) (drop b (c_rbuf c)) @ drop (length rest) (c_rbuf c),
            c_rpos := int (length rest), c_rsock_state := SOCKET_RECV_FRAMING\<rparr>"
        have cb: "conn_buf c' rest" using r lp(2) rl rok by (simp add: conn_buf_def c'_def at_def)
        have ne: "fst (split_frames p) \<noteq> []" using split_one[of p] n 3 by (simp add: n_def)
        have ov: "overlaps p \<longleftrightarrow> b < length rest" using ne lp(3) by (auto simp: overlaps_def b_def rest_def)
        have mc: "memcpy_front (c_rbuf c) (int b) (int (length rest)) = (if overlaps p then Inl Overlap else Inr (c_rbuf c'))"
          using lp(2) by (auto simp: memcpy_front_def c'_def at_def ov)
        have dd: "data_deliver fuel vt (c, sc, e) = (if overlaps p then Inl Overlap else Inr (Return (c', sc, e')))"
          unfolding step lp(1) using mc by (simp add: c'_def)
        have "same_peer c c'" by (simp add: c'_def same_peer_def)
        then show ?thesis using Inr ke True cb dd by (simp add: delivers_def rest_def)
      qed
    qed
  qed
qed

lemma delivers_peer:
  "delivers vt c' e sc p R \<Longrightarrow> same_peer c c' \<Longrightarrow> \<forall>f \<in> set (fst (split_frames p)). 8 \<le> length f \<Longrightarrow> delivers vt c e sc p R"
  using handle_frames_peer[of c c' "fst (split_frames p)" e]
  by (auto simp: delivers_def split: sum.splits if_splits intro: same_peer_trans)

end

lemma split_frames_long: "stream_ok p \<Longrightarrow> \<forall>f \<in> set (fst (split_frames p)). 8 \<le> length f"
proof (induction p rule: split_frames.induct)
  case (1 p)
  show ?case
  proof (cases "length p < 4 \<or> frame_len p < 4 \<or> length p < frame_len p")
    case True
    then have "split_frames p = ([], p)" by (subst split_frames.simps) auto
    then show ?thesis by simp
  next
    case False
    have "stream_ok (drop (frame_len p) p)" using stream_ok_drop[OF 1(2)] False by auto
    with 1(1)[OF False] split_one[of p] stream_okD[OF 1(2)] False show ?thesis by auto
  qed
qed

lemma readSocket_framing:
  "c_rsock_state c = SOCKET_RECV_FRAMING \<Longrightarrow> readSocket fuel vt (c, sc, e) = run_flow (andthen (framing_recv vt (c, sc, e))
     (\<lambda>s. andthen (framing_size vt s) (\<lambda>s. andthen (data_recv vt s) (data_deliver fuel vt))))"
  by (simp add: readSocket_def run_flow_def andthen_assoc)

lemma readSocket_data:
  "c_rsock_state c = SOCKET_DATA_RECV \<Longrightarrow>
   readSocket fuel vt (c, sc, e) = run_flow (andthen (data_recv vt (c, sc, e)) (data_deliver fuel vt))"
  by (simp add: readSocket_def run_flow_def)

text \<open>The progress of a call on the script.\<close>

definition consumes :: "recv_ev list \<Rightarrow> byte list \<Rightarrow> recv_ev list \<Rightarrow> bool" where
  "consumes sc cs sc' \<longleftrightarrow> quiet sc' \<and> leaves sc cs sc' \<and> script_size sc' \<le> script_size sc"

lemma consumes_bytes: "consumes sc cs sc' \<Longrightarrow> bytes_of sc = cs @ bytes_of sc'"
  by (simp add: consumes_def leaves_def)

lemma recv_retry_quiet:
  assumes "quiet sc" "0 < n" "fd \<noteq> -1"
  shows "\<exists>sc' bs. consumes sc bs sc' \<and> uncut sc bs \<and> (sc \<noteq> [] \<longrightarrow> script_size sc' < script_size sc) \<and> int (length bs) \<le> n \<and>
    recv_retry fd n sc = Inr (if bs = [] then Again else Data bs, sc')"
proof -
  have n: "0 < nat n" using assms(2) by simp
  from recv_script_quiet[OF assms(1) n] obtain sc' bs where r: "quiet sc'" "sc \<noteq> [] \<longrightarrow> script_size sc' < script_size sc" "leaves sc bs sc'"
    "uncut sc bs" "length bs \<le> nat n" "recv_script (nat n) sc = (if bs = [] then Again else Data bs, sc')" by blast
  have "script_size sc' \<le> script_size sc"
  proof (cases "sc = []")
    case True then show ?thesis using r(6) by (auto split: if_splits)
  qed (use r(2) in simp)
  then show ?thesis using r assms by (intro exI[of _ sc'] exI[of _ bs]) (auto simp: consumes_def recv_retry_def)
qed

context frame_handler
begin

lemma data_phase:
  assumes d: "data_ready c p" and q: "quiet sc" and ok: "stream_ok (p @ bytes_of sc)" and fuel: "1024 < fuel"
  shows "\<exists>cs sc'. consumes sc cs sc' \<and> (sc \<noteq> [] \<longrightarrow> length p < frame_len p \<longrightarrow> script_size sc' < script_size sc) \<and>
    (if length p < frame_len p then length (p @ cs) \<le> frame_len p else cs = []) \<and>
    delivers vt c e sc' (p @ cs) (run_flow (andthen (data_recv vt (c, sc, e)) (data_deliver fuel vt)))"
proof -
  define n where "n = frame_len p"
  have r: "c_rpos c = int (length p)" "c_frame_size c = int n" "at (c_rbuf c) 0 p" "4 \<le> length p" "length p \<le> 1024"
    "length (c_rbuf c) = 1024" "c_rsize c = 1024" "c_socket c \<noteq> -1" "c_rsock_state c = SOCKET_DATA_RECV"
    using d by (auto simp: data_ready_def n_def)
  have okp: "stream_ok p" using stream_ok_prefix[OF ok] .
  have n: "8 \<le> n" "n \<le> 1024" using stream_okD[OF okp r(4)] by (auto simp: n_def)
  show ?thesis
  proof (cases "length p < n")
    case False
    then have "data_recv vt (c, sc, e) = Inr (Go (c, sc, e))" using r by (simp add: data_recv_def Let_def)
    then show ?thesis using data_deliver_spec[OF d okp fuel, of e sc] q False
      by (intro exI[of _ "[]"] exI[of _ sc]) (auto simp: consumes_def n_def)
  next
    case True
    obtain sc' bs where rv: "consumes sc bs sc'" "sc \<noteq> [] \<longrightarrow> script_size sc' < script_size sc" "int (length bs) \<le> int n - int (length p)"
      "recv_retry (c_socket c) (int n - int (length p)) sc = Inr (if bs = [] then Again else Data bs, sc')"
      using recv_retry_quiet[OF q, of "int n - int (length p)" "c_socket c"] True r(8) by auto
    show ?thesis
    proof (cases "bs = []")
      case E: True
      have "data_recv vt (c, sc, e) = Inr (Return (c, sc', e))" using E True r rv(4) by (simp add: data_recv_def Let_def)
      moreover have "split_frames p = ([], p)" using True by (intro split_short) (simp add: n_def)
      moreover have "conn_buf c p" using r True n by (auto simp: conn_buf_def n_def)
      ultimately show ?thesis using E rv True by (intro exI[of _ "[]"] exI[of _ sc']) (auto simp: delivers_def overlaps_def n_def)
    next
      case F: False
      have fit: "length p + length bs \<le> length (c_rbuf c)" using rv(3) r n True by simp
      obtain buf where b: "store_received bs c = Inr (c\<lparr>c_rbuf := buf, c_rpos := int (length (p @ bs))\<rparr>)" "at buf 0 (p @ bs)"
        "length buf = length (c_rbuf c)" using store_received_ok[OF r(3,1) fit] by blast
      define c1 where "c1 = c\<lparr>c_rbuf := buf, c_rpos := int (length (p @ bs))\<rparr>"
      have fl: "frame_len (p @ bs) = n" using r(4) by (simp add: frame_len_append n_def)
      have d1: "data_ready c1 (p @ bs)" using r b fl fit by (simp add: data_ready_def c1_def)
      have okc: "stream_ok (p @ bs)" using stream_ok_prefix[of "p @ bs" "bytes_of sc'"] ok consumes_bytes[OF rv(1)] by simp
      have "data_recv vt (c, sc, e) = Inr (Go (c1, sc', e))"
        using F True r rv(4) b(1) by (simp add: data_recv_def Let_def c1_def)
      moreover have "delivers vt c e sc' (p @ bs) (run_flow (data_deliver fuel vt (c1, sc', e)))"
        using delivers_peer[OF data_deliver_spec[OF d1 okc fuel, of e sc'], of c] split_frames_long[OF okc]
        by (simp add: same_peer_def c1_def)
      ultimately show ?thesis using rv True by (intro exI[of _ bs] exI[of _ sc']) (auto simp: n_def)
    qed
  qed
qed

lemma readSocket_step:
  assumes cb: "conn_buf c p" and q: "quiet sc" and ok: "stream_ok (p @ bytes_of sc)" and fuel: "1024 < fuel"
  shows "\<exists>cs sc'. consumes sc cs sc' \<and> (sc \<noteq> [] \<longrightarrow> script_size sc' < script_size sc) \<and> (overlaps (p @ cs) \<longrightarrow> uncut sc cs) \<and>
    delivers vt c e sc' (p @ cs) (readSocket fuel vt (c, sc, e))"
proof (cases "c_rsock_state c = SOCKET_DATA_RECV")
  case True
  then have "data_ready c p" "length p < frame_len p" using cb by (auto simp: conn_buf_def data_ready_def)
  from data_phase[OF this(1) q ok fuel, of e] this(2) readSocket_data[OF True, of fuel vt sc e] obtain cs sc' where
    d: "consumes sc cs sc'" "sc \<noteq> [] \<longrightarrow> script_size sc' < script_size sc" "length (p @ cs) \<le> frame_len p"
      "delivers vt c e sc' (p @ cs) (readSocket fuel vt (c, sc, e))" by auto
  have "4 \<le> length p" using True cb by (simp add: conn_buf_def)
  moreover have "stream_ok (p @ cs)" using stream_ok_prefix[of "p @ cs" "bytes_of sc'"] ok consumes_bytes[OF d(1)] by simp
  ultimately have "\<not> overlaps (p @ cs)" using d(3) by (intro one_frame_no_overlap) (simp_all add: frame_len_append)
  then show ?thesis using d by blast
next
  case False
  have r: "c_rpos c = int (length p)" "c_rsize c = 1024" "length (c_rbuf c) = 1024" "at (c_rbuf c) 0 p" "c_socket c \<noteq> -1" "length p < 1024"
    "c_rsock_state c = SOCKET_RECV_FRAMING" "split_frames p = ([], p)" using cb False by (auto simp: conn_buf_def)
  obtain sc1 bs where rv: "consumes sc bs sc1" "sc \<noteq> [] \<longrightarrow> script_size sc1 < script_size sc" "int (length bs) \<le> 1024 - int (length p)"
    "recv_retry (c_socket c) (1024 - int (length p)) sc = Inr (if bs = [] then Again else Data bs, sc1)" "uncut sc bs"
    using recv_retry_quiet[OF q, of "1024 - int (length p)" "c_socket c"] r(5,6) by auto
  have fit: "length p + length bs \<le> length (c_rbuf c)" using rv(3) r(3) by simp
  obtain buf where b: "store_received bs c = Inr (c\<lparr>c_rbuf := buf, c_rpos := int (length (p @ bs))\<rparr>)" "at buf 0 (p @ bs)"
    "length buf = length (c_rbuf c)" using store_received_ok[OF r(4,1) fit] by blast
  define c1 where "c1 = (if bs = [] then c else c\<lparr>c_rbuf := buf, c_rpos := int (length (p @ bs))\<rparr>)"
  have fr: "framing_recv vt (c, sc, e) = Inr (Go (c1, sc1, e))" using r rv(4) b(1) by (simp add: framing_recv_def c1_def)
  have c1: "c_rpos c1 = int (length (p @ bs))" "at (c_rbuf c1) 0 (p @ bs)" "length (c_rbuf c1) = 1024" "c_rsize c1 = 1024"
    "c_socket c1 \<noteq> -1" "c_rsock_state c1 = SOCKET_RECV_FRAMING" "same_peer c c1"
    using r b by (auto simp: c1_def same_peer_def)
  have okc: "stream_ok (p @ bs)" using stream_ok_prefix[of "p @ bs" "bytes_of sc1"] ok consumes_bytes[OF rv(1)] by simp
  have q1: "quiet sc1" using rv(1) by (simp add: consumes_def)
  show ?thesis
  proof (cases "length (p @ bs) < 4")
    case True
    then have "framing_size vt (c1, sc1, e) = Inr (Return (c1, sc1, e))" using c1(1) by (simp add: framing_size_def)
    moreover have "split_frames (p @ bs) = ([], p @ bs)" using True by (intro split_short) simp
    moreover have "conn_buf c1 (p @ bs)" using c1 True calculation by (simp add: conn_buf_def)
    ultimately show ?thesis using rv fr c1(7) readSocket_framing[OF r(7), of fuel vt sc e]
      by (intro exI[of _ bs] exI[of _ sc1]) (simp add: delivers_def overlaps_def exI[of _ c1])
  next
    case F: False
    define n where "n = frame_len (p @ bs)"
    have n: "8 \<le> n" "n \<le> 1024" using stream_okD[OF okc] F by (auto simp: n_def)
    define c2 where "c2 = c1\<lparr>c_frame_size := int n, c_rsock_state := SOCKET_DATA_RECV\<rparr>"
    have "frame_size_at (c_rbuf c1) 0 = Inr (int n)" using at_frame_size[OF c1(2)] F by (simp add: n_def)
    then have fs: "framing_size vt (c1, sc1, e) = Inr (Go (c2, sc1, e))"
      using c1 F n by (simp add: framing_size_def Let_def FRAME_MAX_SIZE_def c2_def)
    have "data_ready c2 (p @ bs)" using c1 F fit r(3) by (simp add: data_ready_def c2_def n_def)
    moreover have "stream_ok ((p @ bs) @ bytes_of sc1)" using ok consumes_bytes[OF rv(1)] by simp
    ultimately obtain ds sc2 where d: "consumes sc1 ds sc2"
      "delivers vt c2 e sc2 ((p @ bs) @ ds) (run_flow (andthen (data_recv vt (c2, sc1, e)) (data_deliver fuel vt)))"
      "if length (p @ bs) < n then length ((p @ bs) @ ds) \<le> n else ds = []"
      using data_phase[OF _ q1 _ fuel, of c2 "p @ bs" e] unfolding n_def by blast
    have cons: "consumes sc (bs @ ds) sc2" using rv(1) d(1) leaves_trans by (auto simp: consumes_def)
    have okd: "stream_ok ((p @ bs) @ ds)" using stream_ok_prefix[of "p @ bs @ ds" "bytes_of sc2"] ok consumes_bytes[OF cons] by simp
    have ov: "overlaps (p @ bs @ ds) \<longrightarrow> uncut sc (bs @ ds)"
    proof (cases "length (p @ bs) < n")
      case True
      then have "\<not> overlaps ((p @ bs) @ ds)" using d(3) okd F frame_len_append[of "p @ bs" ds] by (intro one_frame_no_overlap) (simp_all add: n_def)
      then show ?thesis by simp
    qed (use d(3) rv(5) in simp)
    from okd have "delivers vt c e sc2 (p @ bs @ ds) (readSocket fuel vt (c, sc, e))"
      using delivers_peer[OF d(2), of c] split_frames_long[of "(p @ bs) @ ds"] c1(7) fr fs readSocket_framing[OF r(7), of fuel vt sc e]
      by (simp add: same_peer_def c2_def)
    moreover have "sc \<noteq> [] \<longrightarrow> script_size sc2 < script_size sc" using rv(2) d(1) by (auto simp: consumes_def)
    ultimately show ?thesis using cons ov by blast
  qed
qed

end

section \<open>The whole stream\<close>

primrec read_calls :: "nat \<Rightarrow> nat \<Rightarrow> 'x vtable \<Rightarrow> 'x rstate \<Rightarrow> 'x rstate res" where
  "read_calls 0 fuel vt s = Inr s"
| "read_calls (Suc k) fuel vt s = bindr (readSocket fuel vt s) (read_calls k fuel vt)"

lemma handle_frames_append:
  "handle_frames vt c (fs @ gs) e = bindr (handle_frames vt c fs e) (\<lambda>(ok, e). if ok then handle_frames vt c gs e else Inr (False, e))"
proof (induction fs arbitrary: e)
  case (Cons f fs)
  show ?case
  proof (cases "whenReceivedFrame vt c (map Some f) (int (length f)) e")
    case (Inr x) then show ?thesis using Cons by (cases x) auto
  qed simp
qed simp

lemma conn_buf_split: "conn_buf c p \<Longrightarrow> split_frames p = ([], p)"
  by (auto simp: conn_buf_def intro: split_short)

text \<open>With the bytes \<open>p\<close> buffered, what the script still brings is gentle.\<close>

definition calm :: "byte list \<Rightarrow> recv_ev list \<Rightarrow> bool" where
  "calm p sc \<longleftrightarrow> gentle (\<lambda>m. length p \<le> m \<and> cut sc (m - length p)) (p @ bytes_of sc)"

lemma calm_no_overlap:
  assumes "calm p sc" "consumes sc cs sc'" "stream_ok (p @ bytes_of sc)" "split_frames p = ([], p)" "overlaps (p @ cs) \<longrightarrow> uncut sc cs"
  shows "\<not> overlaps (p @ cs)"
proof
  assume o: "overlaps (p @ cs)"
  let ?b = "length (p @ cs) - length (snd (split_frames (p @ cs)))"
  have ok: "stream_ok (p @ cs)" using stream_ok_prefix[of "p @ cs" "bytes_of sc'"] assms(3) consumes_bytes[OF assms(2)] by simp
  have "gentle (\<lambda>m. length p \<le> m \<and> cut sc (m - length p)) ((p @ cs) @ bytes_of sc')"
    using assms(1) consumes_bytes[OF assms(2)] by (simp add: calm_def)
  from gentle_overlap[OF ok this o] have b: "length p \<le> ?b" "cut sc (?b - length p)" by auto
  have "length p < frame_len (p @ cs)" by (rule begun_frame[OF ok assms(4)])
  moreover have "frame_len (p @ cs) + length (snd (split_frames (p @ cs))) \<le> length p + length cs" "0 < length (snd (split_frames (p @ cs)))"
    using boundary_ge[OF ok] o by (auto simp: overlaps_def)
  ultimately have "0 < ?b - length p" "?b - length p < length cs" by (simp_all only: length_append)
  then show False using assms(5) o b(2) by (auto simp: uncut_def)
qed

lemma calm_rest:
  assumes "calm p sc" "consumes sc cs sc'" "stream_ok (p @ bytes_of sc)"
  shows "calm (snd (split_frames (p @ cs))) sc'"
proof -
  define r where "r = snd (split_frames (p @ cs))"
  define b where "b = length (p @ cs) - length r"
  have bo: "bytes_of sc = cs @ bytes_of sc'" by (rule consumes_bytes[OF assms(2)])
  have ok: "stream_ok (p @ cs)" using stream_ok_prefix[of "p @ cs" "bytes_of sc'"] assms(3) bo by simp
  have r: "split_frames r = ([], r)" "length r \<le> length (p @ cs)" using split_rest[OF ok] by (simp_all add: r_def)
  have "stream_ok (r @ bytes_of sc')" using stream_ok_rest[of "p @ cs" "bytes_of sc'"] assms(3) bo by (simp add: r_def)
  then have l: "length r < frame_len (r @ bytes_of sc')" by (rule begun_frame[OF _ r(1)])
  have "gentle (\<lambda>m. length p \<le> m \<and> cut sc (m - length p)) ((p @ cs) @ bytes_of sc')" using assms(1) bo by (simp add: calm_def)
  from gentle_rest[OF ok this, folded r_def, folded b_def]
  have "gentle (\<lambda>m. length p \<le> m + b \<and> cut sc (m + b - length p)) (r @ bytes_of sc')" .
  then show ?thesis unfolding calm_def r_def[symmetric]
  proof (rule gentle_mono)
    fix m assume m: "frame_len (r @ bytes_of sc') \<le> m" "length p \<le> m + b \<and> cut sc (m + b - length p)"
    have "m + b - length p = (m - length r) + length cs" using m(1) l r(2) by (simp add: b_def)
    then have "cut sc' (m - length r)" using m(2) assms(2) by (auto simp: consumes_def leaves_def)
    then show "length r \<le> m \<and> cut sc' (m - length r)" using m(1) l by simp
  qed
qed

context frame_handler
begin

lemma stream_delivered:
  assumes "conn_buf c p" "quiet sc" "stream_ok (p @ bytes_of sc)" "1024 < fuel" "calm p sc" "script_size sc \<le> rounds"
    "handle_frames vt c (fst (split_frames (p @ bytes_of sc))) e = Inr (True, e')"
  shows "\<exists>c'. read_calls rounds fuel vt (c, sc, e) = Inr (c', [], e') \<and> conn_buf c' (snd (split_frames (p @ bytes_of sc))) \<and> same_peer c c'"
  using assms
proof (induction rounds arbitrary: c p sc e)
  case 0
  then have "sc = []" by (simp add: script_size_def)
  then show ?case using 0 conn_buf_split[OF 0(1)] by simp
next
  case (Suc rounds)
  from readSocket_step[OF Suc.prems(1-4), of e] obtain cs sc' where st: "consumes sc cs sc'" "sc \<noteq> [] \<longrightarrow> script_size sc' < script_size sc"
    "delivers vt c e sc' (p @ cs) (readSocket fuel vt (c, sc, e))" "overlaps (p @ cs) \<longrightarrow> uncut sc cs" by blast
  have bo: "bytes_of sc = cs @ bytes_of sc'" by (rule consumes_bytes[OF st(1)])
  have q': "quiet sc'" and le: "script_size sc' \<le> script_size sc" using st(1) by (auto simp: consumes_def)
  have no: "\<not> overlaps (p @ cs)" by (rule calm_no_overlap[OF Suc.prems(5) st(1) Suc.prems(3) conn_buf_split[OF Suc.prems(1)] st(4)])
  define r where "r = snd (split_frames (p @ cs))"
  have sp: "split_frames (p @ bytes_of sc) = (fst (split_frames (p @ cs)) @ fst (split_frames (r @ bytes_of sc')), snd (split_frames (r @ bytes_of sc')))"
    using split_append[of "p @ cs" "bytes_of sc'"] by (simp add: bo r_def)
  from Suc.prems(7) obtain e1 where h1: "handle_frames vt c (fst (split_frames (p @ cs))) e = Inr (True, e1)"
    "handle_frames vt c (fst (split_frames (r @ bytes_of sc'))) e1 = Inr (True, e')"
    by (auto simp: sp handle_frames_append bindr_eq_Inr split: if_splits)
  from st(3) h1(1) obtain c1 where c1: "readSocket fuel vt (c, sc, e) = Inr (c1, sc', e1)" "conn_buf c1 r" "same_peer c c1"
    using no by (auto simp: delivers_def r_def)
  have cm: "calm r sc'" unfolding r_def by (rule calm_rest[OF Suc.prems(5) st(1) Suc.prems(3)])
  have ok1: "stream_ok (r @ bytes_of sc')" using stream_ok_rest[of "p @ cs" "bytes_of sc'"] Suc.prems(3) by (simp add: bo r_def)
  have sz: "script_size sc' \<le> rounds" using st(2) le Suc.prems(6) by (cases "sc = []") (auto simp: script_size_def)
  have "handle_frames vt c1 (fst (split_frames (r @ bytes_of sc'))) e1 = Inr (True, e')"
    using handle_frames_peer[OF c1(3) split_frames_long[OF ok1]] h1(2) by simp
  from Suc.IH[OF c1(2) q' ok1 Suc.prems(4) cm sz this] c1 show ?case
    by (auto simp: sp intro: same_peer_trans)
qed

end

text \<open>The frames the server itself writes are frames of the specification.\<close>

lemma frame_len_frame_of: "length pl + 8 \<le> 1024 \<Longrightarrow> frame_len (frame_of pl @ q) = length pl + 8"
proof -
  assume l: "length pl + 8 \<le> 1024"
  have "take 4 (frame_of pl @ q) = be32 (int (length pl) + 4)" by (simp add: frame_of_header frame_header_def)
  moreover have "s32 (int (length pl) + 4) = int (length pl) + 4" using l by (intro s32_id) simp_all
  moreover have "(int (length pl) + 8) mod 4294967296 = int (length pl) + 8" using l by (intro mod_pos_pos_trivial) simp_all
  ultimately show ?thesis by (simp add: frame_len_def rd_be32_be32 nat_add_distrib)
qed

lemma length_frame_of [simp]: "length (frame_of pl) = length pl + 8"
  by (simp add: frame_of_header)

lemma split_frames_of:
  "\<forall>pl \<in> set pls. length pl + 8 \<le> 1024 \<Longrightarrow> split_frames (concat (map frame_of pls)) = (map frame_of pls, []) \<and> stream_ok (concat (map frame_of pls))"
proof (induction pls)
  case Nil show ?case by (simp add: split_short stream_ok.simps)
next
  case (Cons pl pls)
  then have l: "frame_len (frame_of pl @ concat (map frame_of pls)) = length pl + 8" by (simp add: frame_len_frame_of)
  show ?case using Cons l split_one[of "frame_of pl @ concat (map frame_of pls)"]
    by (subst stream_ok.simps) simp
qed

lemma gentle_frames:
  assumes "\<forall>pl \<in> set pls. length pl + 8 \<le> 1024"
    "\<And>i. Suc i < length pls \<Longrightarrow> k (length (concat (map frame_of (take (Suc i) pls)))) \<or> length (pls ! Suc i) \<le> Suc (length (pls ! i))"
  shows "gentle k (concat (map frame_of pls))"
  using assms
proof (induction pls arbitrary: k)
  case (Cons pl pls)
  let ?q = "concat (map frame_of (pl # pls))" and ?r = "concat (map frame_of pls)"
  have n: "frame_len ?q = length pl + 8" "drop (length pl + 8) ?q = ?r" using Cons.prems(1) by (simp_all add: frame_len_frame_of)
  have r: "gentle (\<lambda>m. k (m + (length pl + 8))) ?r"
  proof (rule Cons.IH)
    fix i assume i: "Suc i < length pls"
    then show "k (length (concat (map frame_of (take (Suc i) pls))) + (length pl + 8)) \<or> length (pls ! Suc i) \<le> Suc (length (pls ! i))"
      using Cons.prems(2)[of "Suc i"] by (simp add: add.commute add.left_commute)
  qed (use Cons.prems(1) in simp)
  show ?case
  proof (cases pls)
    case Nil
    then show ?thesis using n by (subst gentle.simps) simp
  next
    case (Cons pl' pls')
    then have "frame_len ?r = length pl' + 8" using Cons.prems(1) by (simp add: frame_len_frame_of)
    moreover have "k (length pl + 8) \<or> length pl' \<le> Suc (length pl)" using Cons.prems(2)[of 0] Cons by simp
    ultimately show ?thesis using r n by (subst gentle.simps) simp
  qed
qed (rule gentle_short, simp)

section \<open>One chunk\<close>

text \<open>A chunk that begins with a complete frame is read in one piece.\<close>

lemma chunk_read:
  assumes cb: "conn_buf c []" and p: "length p \<le> 1024" "4 \<le> length p" "frame_len p \<le> length p"
  shows "\<exists>c2. readSocket fuel vt (c, [Chunk p], e) = run_flow (data_deliver fuel vt (c2, [], e)) \<and> data_ready c2 p \<and> same_peer c c2"
proof -
  have r: "c_rpos c = int (length [])" "c_rsize c = 1024" "length (c_rbuf c) = 1024" "at (c_rbuf c) 0 []" "c_socket c \<noteq> -1"
    "c_rsock_state c = SOCKET_RECV_FRAMING" using cb by (auto simp: conn_buf_def)
  obtain buf where b: "store_received p c = Inr (c\<lparr>c_rbuf := buf, c_rpos := int (length p)\<rparr>)" "at buf 0 p"
    "length buf = length (c_rbuf c)" using store_received_ok[OF r(4,1), of p] r(3) p(1) by auto
  let ?c1 = "c\<lparr>c_rbuf := buf, c_rpos := int (length p)\<rparr>"
  let ?c2 = "?c1\<lparr>c_frame_size := int (frame_len p), c_rsock_state := SOCKET_DATA_RECV\<rparr>"
  have ne: "p \<noteq> []" using p(2) by auto
  have "recv_retry (c_socket c) (c_rsize c - c_rpos c) [Chunk p] = Inr (Data p, [])" using r p(1) ne by (auto simp: recv_retry_def)
  then have fr: "framing_recv vt (c, [Chunk p], e) = Inr (Go (?c1, [], e))" using b(1) by (simp add: framing_recv_def)
  have "frame_size_at buf 0 = Inr (int (frame_len p))" using at_frame_size[OF b(2) p(2)] .
  then have fs: "framing_size vt (?c1, [], e) = Inr (Go (?c2, [], e))" using p r by (simp add: framing_size_def Let_def FRAME_MAX_SIZE_def)
  have dr: "data_recv vt (?c2, [], e) = Inr (Go (?c2, [], e))" using p(3) by (simp add: data_recv_def)
  have "data_ready ?c2 p" using b r p by (simp add: data_ready_def)
  moreover have "same_peer c ?c2" by (simp add: same_peer_def)
  moreover have "readSocket fuel vt (c, [Chunk p], e) = run_flow (data_deliver fuel vt (?c2, [], e))"
    using readSocket_framing[OF r(6), of fuel vt "[Chunk p]" e] fr fs dr by simp
  ultimately show ?thesis by blast
qed

section \<open>A second frame that is longer\<close>

context frame_handler
begin

lemma long_rest_overlaps:
  assumes cb: "conn_buf c []" and f: "frame_len (f @ r) = length f" "8 \<le> length f" "length f < length r" "length (f @ r) \<le> 1024" "1024 < fuel"
    and r: "length r < frame_len r" "frame_len r \<le> 1024"
    and h: "whenReceivedFrame vt c (map Some f) (int (length f)) e = Inr (ret, e1)" "ret \<noteq> -1"
  shows "readSocket fuel vt (c, [Chunk (f @ r)], e) = Inl Overlap"
proof -
  have sr: "split_frames r = ([], r)" using r by (intro split_short) simp
  have sp: "split_frames (f @ r) = ([f], r)" using split_one[of "f @ r"] f(1,2) sr by simp
  have "stream_ok r" using r f(2,3) by (subst stream_ok.simps) simp
  then have ok: "stream_ok (f @ r)" using f by (subst stream_ok.simps) simp
  obtain c2 where c2: "readSocket fuel vt (c, [Chunk (f @ r)], e) = run_flow (data_deliver fuel vt (c2, [], e))" "data_ready c2 (f @ r)" "same_peer c c2"
    using chunk_read[OF cb, of "f @ r" fuel vt e] f by auto
  have "handle_frames vt c2 [f] e = Inr (True, e1)" using handle_frames_peer[OF c2(3), of "[f]" e] f(2) h by simp
  moreover have "overlaps (f @ r)" using f(3) by (simp add: overlaps_def sp)
  ultimately show ?thesis using data_deliver_spec[OF c2(2) ok f(5), of e "[]"] unfolding c2(1) by (simp add: delivers_def sp)
qed

end

section \<open>A second frame that is not checked\<close>

text \<open>The size of the frame after a good one goes to the loop as it was read.\<close>

context frame_handler
begin

lemma second_frame_fault:
  assumes cb: "conn_buf c []" and q: "length (f @ r) \<le> 1024" "frame_len (f @ r) = length f" "8 \<le> length f" "4 \<le> length r"
    and h: "whenReceivedFrame vt c (map Some f) (int (length f)) e = Inr (ret, e1)" "ret \<noteq> -1"
    and bad: "\<And>c2. at (c_rbuf c2) (length f) r \<Longrightarrow> same_peer c c2 \<Longrightarrow>
      frames_loop fuel vt c2 (int (length f)) (int (length r)) (s32 (int (frame_len r))) e1 = Inl x"
  shows "readSocket (Suc fuel) vt (c, [Chunk (f @ r)], e) = Inl x"
proof -
  obtain c2 where c2: "readSocket (Suc fuel) vt (c, [Chunk (f @ r)], e) = run_flow (data_deliver (Suc fuel) vt (c2, [], e))"
    "data_ready c2 (f @ r)" "same_peer c c2" using chunk_read[OF cb, of "f @ r" "Suc fuel" vt e] q by auto
  have d: "at (c_rbuf c2) 0 (f @ r)" "c_rpos c2 = int (length (f @ r))" "c_frame_size c2 = int (length f)"
    using c2(2) q(2) by (auto simp: data_ready_def)
  have h2: "whenReceivedFrame vt c2 (c_rbuf c2) (int (length f)) e = Inr (ret, e1)"
    using handler_local[OF q(3) _ c2(3), of "c_rbuf c2" e] at_take[OF d(1), of "length f"] h(1) by simp
  have ar: "at (c_rbuf c2) (length f) r" using at_drop[OF d(1), of "length f"] by simp
  have fz: "frame_size_at (c_rbuf c2) (nat (int (length f))) = Inr (int (frame_len r))" using at_frame_size[OF ar q(4)] by simp
  have "frames_loop (Suc fuel) vt c2 0 (int (length (f @ r))) (int (length f)) e = Inl x"
    using h2 h(2) q(4) fz bad[OF ar c2(3)] by simp
  moreover have "s32 (int (length f)) = int (length f)" using q(1) by (intro s32_small) simp
  moreover have "r \<noteq> []" using q(4) by auto
  ultimately show ?thesis unfolding c2(1) using d by (simp add: data_deliver_def del: frames_loop.simps)
qed

end

section \<open>Frames of size zero\<close>

text \<open>A buffer that starts with a frame of declared size zero never leaves the loop as long as the handler accepts it.\<close>

lemma zero_frame_loop:
  assumes acc: "\<And>e. \<exists>e' ret. whenReceivedFrame vt c (c_rbuf c) 0 e = Inr (ret, e') \<and> ret \<noteq> -1"
    and hd: "frame_size_at (c_rbuf c) 0 = Inr 0" and len: "4 \<le> len"
  shows "frames_loop fuel vt c 0 len 0 e = Inl Diverge"
proof (induction fuel arbitrary: e)
  case (Suc fuel)
  obtain e' ret where "whenReceivedFrame vt c (c_rbuf c) 0 e = Inr (ret, e')" "ret \<noteq> -1" using acc by blast
  then show ?case using Suc hd len by (simp add: s32_def)
qed simp

end
