(* ===== verification/Sampling.thy ===== *)
theory Sampling
  imports Prelude
begin

text \<open>
  The rate sampling of a connection, \<open>framework/io/io_sampling.h\<close> and \<open>io_sampling.cpp\<close>.

  The counters are unsigned 32 bit integers. The minute counters \<open>_m[60]\<close> and the second counters
  \<open>_s[3600]\<close> are members of a union, so the model has the one array of 3600 counters they share: \<open>_m[i]\<close>
  and \<open>_s[i]\<close> are both its element \<open>i\<close>. Reading the clock is an argument; times are seconds since
  1970, so the division of the code is \<open>div\<close>.
\<close>

section \<open>Data\<close>

record Sample =
  sec_total :: "32 word"
  min_total :: "32 word"
  hou_total :: "32 word"

record IoSampling =
  sp_total :: "32 word"
  sp_detail :: "32 word list"
  sp_current_hour :: int
  sp_current_hour_begin_second :: int

section \<open>Operations\<close>

definition utcToLocal :: "int \<Rightarrow> int" where
  "utcToLocal utc = utc + 28800"

definition IoSampling_new :: "int \<Rightarrow> IoSampling" where
  "IoSampling_new now = \<lparr>sp_total = 0, sp_detail = replicate 3600 0, sp_current_hour = utcToLocal now div 3600,
     sp_current_hour_begin_second = utcToLocal now div 3600 * 3600\<rparr>"

definition fixSampleSpace :: "int \<Rightarrow> IoSampling \<Rightarrow> IoSampling" where
  "fixSampleSpace loc sp = (let hour = loc div 3600 in
     if hour \<noteq> sp_current_hour sp then
       sp\<lparr>sp_total := 0, sp_detail := replicate 3600 0, sp_current_hour := hour,
          sp_current_hour_begin_second := hour * 3600\<rparr>
     else sp)"

definition slot_get :: "32 word list \<Rightarrow> int \<Rightarrow> 32 word res" where
  "slot_get xs i = (if 0 \<le> i \<and> nat i < length xs then Inr (xs ! nat i) else Inl Out_of_bounds)"

definition slot_inc :: "32 word list \<Rightarrow> int \<Rightarrow> 32 word list res" where
  "slot_inc xs i = (if 0 \<le> i \<and> nat i < length xs then Inr (xs[nat i := xs ! nat i + 1]) else Inl Out_of_bounds)"

definition sample :: "int \<Rightarrow> IoSampling \<Rightarrow> IoSampling res" where
  "sample now sp0 = (let t = utcToLocal now; sp = fixSampleSpace t sp0;
       s = t - sp_current_hour_begin_second sp; m = s div 60 in
     bindr (slot_inc (sp_detail sp) s) (\<lambda>d.
     bindr (slot_inc d m) (\<lambda>d.
     Inr (sp\<lparr>sp_total := sp_total sp + 1, sp_detail := d\<rparr>))))"

definition getSample :: "int \<Rightarrow> IoSampling \<Rightarrow> (Sample \<times> IoSampling) res" where
  "getSample now sp0 = (let t = utcToLocal now; sp = fixSampleSpace t sp0;
       s = t - sp_current_hour_begin_second sp; m = s div 60 in
     bindr (slot_get (sp_detail sp) s) (\<lambda>st.
     bindr (slot_get (sp_detail sp) m) (\<lambda>mt.
     Inr (\<lparr>sec_total = st, min_total = mt, hou_total = sp_total sp\<rparr>, sp))))"

section \<open>Invariant\<close>

definition sp_ok :: "IoSampling \<Rightarrow> bool" where
  "sp_ok sp \<longleftrightarrow> length (sp_detail sp) = 3600 \<and> sp_current_hour_begin_second sp = sp_current_hour sp * 3600"

declare sp_ok_def [inv_defs]

text \<open>The hour a time falls in, and the second within it.\<close>

definition hour_of :: "int \<Rightarrow> int" where
  "hour_of now = utcToLocal now div 3600"

definition sec_of :: "int \<Rightarrow> nat" where
  "sec_of now = nat (utcToLocal now mod 3600)"

lemma sp_ok_new [simp]: "sp_ok (IoSampling_new now)"
  by (simp add: sp_ok_def IoSampling_new_def)

lemma sp_ok_fix [simp]: "sp_ok sp \<Longrightarrow> sp_ok (fixSampleSpace t sp)"
  by (simp add: sp_ok_def fixSampleSpace_def Let_def)

lemma fix_hour: "sp_current_hour (fixSampleSpace t sp) = t div 3600"
  by (simp add: fixSampleSpace_def Let_def)

lemma sec_lt: "sec_of now < 3600"
proof -
  have "utcToLocal now mod 3600 < 3600" by (rule pos_mod_bound) simp
  then show ?thesis unfolding sec_of_def by linarith
qed

lemma offset_in_hour:
  assumes "sp_ok sp"
  shows "utcToLocal now - sp_current_hour_begin_second (fixSampleSpace (utcToLocal now) sp) = int (sec_of now)"
proof -
  have "sp_current_hour_begin_second (fixSampleSpace (utcToLocal now) sp) = utcToLocal now div 3600 * 3600"
    using sp_ok_fix[OF assms] by (simp add: sp_ok_def fix_hour)
  moreover have "0 \<le> utcToLocal now mod 3600" by (rule pos_mod_sign) simp
  ultimately show ?thesis unfolding sec_of_def by (simp add: minus_div_mult_eq_mod)
qed

lemma slot_get_ok: "i < length xs \<Longrightarrow> slot_get xs (int i) = Inr (xs ! i)"
  by (simp add: slot_get_def)

lemma slot_inc_ok: "i < length xs \<Longrightarrow> slot_inc xs (int i) = Inr (xs[i := xs ! i + 1])"
  by (simp add: slot_inc_def)

lemma minute_index: "int (sec_of now) div 60 = int (sec_of now div 60)"
  by (simp add: zdiv_int)

text \<open>The shared array after one more sample in second \<open>s\<close>.\<close>

definition bump :: "nat \<Rightarrow> 32 word list \<Rightarrow> 32 word list" where
  "bump s xs = (let xs = xs[s := xs ! s + 1] in xs[s div 60 := xs ! (s div 60) + 1])"

lemma sample_eq:
  assumes "sp_ok sp"
  shows "sample now sp = Inr (let sp' = fixSampleSpace (utcToLocal now) sp in
    sp'\<lparr>sp_total := sp_total sp' + 1, sp_detail := bump (sec_of now) (sp_detail sp')\<rparr>)"
proof -
  define sp' where "sp' = fixSampleSpace (utcToLocal now) sp"
  have l: "length (sp_detail sp') = 3600" using sp_ok_fix[OF assms] by (simp add: sp_ok_def sp'_def)
  have s: "sec_of now < 3600" by (rule sec_lt)
  then have m: "sec_of now div 60 < 3600" by simp
  show ?thesis
    using l s m offset_in_hour[OF assms, of now] unfolding sp'_def[symmetric]
    by (simp add: sample_def Let_def sp'_def[symmetric] slot_inc_ok minute_index bump_def)
qed

lemma getSample_eq:
  assumes "sp_ok sp"
  shows "getSample now sp = Inr (let sp' = fixSampleSpace (utcToLocal now) sp in
    (\<lparr>sec_total = sp_detail sp' ! sec_of now, min_total = sp_detail sp' ! (sec_of now div 60),
      hou_total = sp_total sp'\<rparr>, sp'))"
proof -
  define sp' where "sp' = fixSampleSpace (utcToLocal now) sp"
  have l: "length (sp_detail sp') = 3600" using sp_ok_fix[OF assms] by (simp add: sp_ok_def sp'_def)
  have s: "sec_of now < 3600" by (rule sec_lt)
  then have m: "sec_of now div 60 < 3600" by simp
  show ?thesis
    using l s m offset_in_hour[OF assms, of now] unfolding sp'_def[symmetric]
    by (simp add: getSample_def Let_def sp'_def[symmetric] slot_get_ok minute_index)
qed

lemma length_bump [simp]: "length (bump s xs) = length xs"
  by (simp add: bump_def Let_def)

lemma bump_nth:
  "i < length xs \<Longrightarrow> bump s xs ! i = xs ! i + (if i = s then 1 else 0) + (if i = s div 60 then 1 else 0)"
  by (simp add: bump_def Let_def nth_list_update)

section \<open>A run of samples\<close>

primrec sample_all :: "int list \<Rightarrow> IoSampling \<Rightarrow> IoSampling res" where
  "sample_all [] sp = Inr sp"
| "sample_all (t # ts) sp = bindr (sample t sp) (sample_all ts)"

text \<open>What the counters hold after the samples \<open>ts\<close> of one hour.\<close>

definition counts :: "int \<Rightarrow> int list \<Rightarrow> IoSampling \<Rightarrow> bool" where
  "counts H ts sp \<longleftrightarrow> sp_ok sp \<and> sp_current_hour sp = H \<and> sp_total sp = of_nat (length ts) \<and>
     (\<forall>i < 3600. sp_detail sp ! i =
        of_nat (length (filter (\<lambda>t. sec_of t = i) ts) + length (filter (\<lambda>t. sec_of t div 60 = i) ts)))"

lemma counts_new: "counts (hour_of now) [] (IoSampling_new now)"
  by (simp add: counts_def IoSampling_new_def hour_of_def sp_ok_def)

lemma fix_same: "hour_of t = sp_current_hour sp \<Longrightarrow> fixSampleSpace (utcToLocal t) sp = sp"
  by (simp add: fixSampleSpace_def Let_def hour_of_def)

lemma sample_counts:
  assumes "counts H ts sp" "hour_of t = H"
  shows "\<exists>sp'. sample t sp = Inr sp' \<and> counts H (ts @ [t]) sp'"
proof -
  have c: "sp_ok sp" "sp_current_hour sp = H" "sp_total sp = of_nat (length ts)" "length (sp_detail sp) = 3600"
    using assms(1) by (auto simp: counts_def sp_ok_def)
  have "sample t sp = Inr (sp\<lparr>sp_total := sp_total sp + 1, sp_detail := bump (sec_of t) (sp_detail sp)\<rparr>)"
    using sample_eq[OF c(1), of t] fix_same[of t sp] c(2) assms(2) by (simp add: Let_def)
  moreover have "counts H (ts @ [t]) (sp\<lparr>sp_total := sp_total sp + 1, sp_detail := bump (sec_of t) (sp_detail sp)\<rparr>)"
    using assms c by (auto simp: counts_def sp_ok_def bump_nth algebra_simps)
  ultimately show ?thesis by blast
qed

lemma sample_all_counts:
  "counts H us sp \<Longrightarrow> \<forall>t \<in> set ts. hour_of t = H \<Longrightarrow> \<exists>sp'. sample_all ts sp = Inr sp' \<and> counts H (us @ ts) sp'"
proof (induction ts arbitrary: us sp)
  case (Cons t ts)
  then obtain sp1 where "sample t sp = Inr sp1" "counts H (us @ [t]) sp1" using sample_counts[of H us sp t] by auto
  with Cons.IH[of "us @ [t]" sp1] Cons.prems show ?case by auto
qed auto

section \<open>Properties\<close>

text \<open>C30: The exact readings of the sampler. After the samples \<open>ts\<close> of one hour, \<open>getSample\<close> never faults and returns the
  number of samples of the hour in \<open>hou_total\<close>, but in \<open>sec_total\<close> the samples of the current second plus those of
  the minute whose number within the hour equals the number of this second, and in \<open>min_total\<close> the samples of the
  current minute plus those of the second whose number equals the number of this minute, all modulo the
  counter width: the union makes the two tables overlap.\<close>

theorem getSample_readings:
  assumes "\<forall>t \<in> set (now0 # now # ts). hour_of t = H"
  shows "\<exists>sp sp' st. sample_all ts (IoSampling_new now0) = Inr sp \<and> getSample now sp = Inr (st, sp') \<and>
    hou_total st = of_nat (length ts) \<and>
    sec_total st = of_nat (length (filter (\<lambda>t. sec_of t = sec_of now) ts) +
                           length (filter (\<lambda>t. sec_of t div 60 = sec_of now) ts)) \<and>
    min_total st = of_nat (length (filter (\<lambda>t. sec_of t = sec_of now div 60) ts) +
                           length (filter (\<lambda>t. sec_of t div 60 = sec_of now div 60) ts))"
proof -
  have "counts H [] (IoSampling_new now0)" using counts_new[of now0] assms by simp
  from sample_all_counts[OF this, of ts] assms obtain sp where sp: "sample_all ts (IoSampling_new now0) = Inr sp" "counts H ts sp"
    by auto
  have c: "sp_ok sp" "sp_current_hour sp = H" "sp_total sp = of_nat (length ts)" using sp(2) by (auto simp: counts_def)
  have fx: "fixSampleSpace (utcToLocal now) sp = sp" using fix_same[of now sp] c(2) assms by simp
  have s: "sec_of now < 3600" "sec_of now div 60 < 3600" using sec_lt[of now] by auto
  from sp s show ?thesis
    by (intro exI[of _ sp]) (simp add: getSample_eq[OF c(1)] fx Let_def counts_def)
qed

text \<open>Two samples in the first second of an hour are read back as four in that second.\<close>

theorem getSample_readings_witness:
  "\<exists>sp sp' st. sample_all [0, 0] (IoSampling_new 0) = Inr sp \<and> getSample 0 sp = Inr (st, sp') \<and>
    hou_total st = 2 \<and> sec_total st = 4 \<and> min_total st = 4"
proof -
  have "hour_of 0 = 8" "sec_of 0 = 0" by (simp_all add: hour_of_def sec_of_def utcToLocal_def)
  then show ?thesis using getSample_readings[of 0 0 "[0, 0]" 8] by simp
qed

text \<open>The counters bound what they are meant to bound: as long as fewer than \<open>2^31\<close> samples were taken in the hour, no
  reading is below the true number of samples in the current second, minute or hour.\<close>

lemma getSample_never_undercounts:
  assumes "\<forall>t \<in> set (now0 # now # ts). hour_of t = H" "length ts < 2147483648"
    "sample_all ts (IoSampling_new now0) = Inr sp" "getSample now sp = Inr (st, sp')"
  shows "length (filter (\<lambda>t. sec_of t = sec_of now) ts) \<le> unat (sec_total st) \<and>
    length (filter (\<lambda>t. sec_of t div 60 = sec_of now div 60) ts) \<le> unat (min_total st) \<and>
    length ts \<le> unat (hou_total st)"
proof -
  have "counts H [] (IoSampling_new now0)" using counts_new[of now0] assms by simp
  from sample_all_counts[OF this, of ts] assms have sp: "counts H ts sp" by auto
  have c: "sp_ok sp" "sp_current_hour sp = H" using sp by (auto simp: counts_def)
  have fx: "fixSampleSpace (utcToLocal now) sp = sp" using fix_same[of now sp] c(2) assms(1) by simp
  have s: "sec_of now < 3600" "sec_of now div 60 < 3600" using sec_lt[of now] by auto
  have u: "unat (of_nat (a + b) :: 32 word) = a + b" if "a \<le> length ts" "b \<le> length ts" for a b
    using that assms(2) by (simp add: unat_of_nat del: of_nat_add)
  have f: "length (filter P ts) \<le> length ts" for P by simp
  have "unat (of_nat (length ts) :: 32 word) = length ts" using assms(2) by (simp add: unat_of_nat)
  with sp s assms(4) show ?thesis unfolding getSample_eq[OF c(1)] fx Let_def
    by (auto simp: counts_def u[OF f f] simp del: of_nat_add)
qed

end
