(* ===== verification/AppConnection.thy ===== *)
theory AppConnection
  imports Framing Sampling
begin

text \<open>
  The connection to a client, \<open>framework/io/io_app_connection.h\<close> and \<open>io_app_connection.cpp\<close>, and the connection to a
  backend, \<open>io_backend_connection.cpp\<close>: the handlers behind the virtual functions of \<open>Connection\<close>.

  The message processor the frames go to is a function over its own state and the heap of messages; the
  components that provide it are in other theories. The collector of undeliverable messages is its queue, or
  \<open>None\<close> when none is set. The clock is the sequence of the values its coming readings return, seconds and microseconds; a frame
  that is served reads it three times.
\<close>

section \<open>State\<close>

record 'p IoAppConnection =
  ac_state :: int
  ac_sampling :: IoSampling
  ac_push_buffer :: IoPushList
  ac_pending_data :: addr
  ac_second_limit :: int
  ac_minute_limit :: int
  ac_hour_limit :: int
  ac_collector :: "MsMessageBlockQueue option"
  ac_clock :: "nat \<Rightarrow> timeval"
  ac_proc :: 'p

type_synonym 'p appenv = "'p IoAppConnection env"
type_synonym 'p processor = "addr \<Rightarrow> 'p \<times> mheap \<Rightarrow> ('p \<times> mheap) res"

definition switch_state_app_msg :: "int \<Rightarrow> 'p IoAppConnection \<Rightarrow> 'p IoAppConnection" where
  "switch_state_app_msg s a = a\<lparr>ac_state := s\<rparr>"

section \<open>Operations\<close>

definition app_initialize :: "int \<Rightarrow> int \<Rightarrow> 64 word \<Rightarrow> 'p \<Rightarrow> IoConnection \<times> 'p IoAppConnection \<Rightarrow> IoConnection \<times> 'p IoAppConnection" where
  "app_initialize fd io cid processor = (\<lambda>(c, a). (conn_initialize fd io cid c,
     a\<lparr>ac_state := 0, ac_proc := processor, ac_pending_data := 0\<rparr>))"

definition pushMsgData :: "IoPushData \<Rightarrow> addr \<Rightarrow> 'p appenv \<Rightarrow> 'p appenv res" where
  "pushMsgData junk msg e = bindr (createPushData junk (e_ph e)) (\<lambda>(data, ph).
     bindr (hget (e_mh e) msg) (\<lambda>m.
     bindr (hmod ph data (\<lambda>d. d\<lparr>pd_next := 0, pd_msg := msg, pd_freev := Fn_releaseIMessage,
                               pd_wbuf := msg, pd_wsize := m_frame_len m, pd_wpos := 0\<rparr>)) (\<lambda>ph.
     bindr (pl_put data (ac_push_buffer (e_ext e), ph, e_mh e)) (\<lambda>(l, ph, mh).
     Inr (e\<lparr>e_ph := ph, e_mh := mh, e_ext := (e_ext e)\<lparr>ac_push_buffer := l\<rparr>\<rparr>)))))"

text \<open>The three comparisons with the limits, all unsigned.\<close>

definition over_limit :: "Sample \<Rightarrow> 'p IoAppConnection \<Rightarrow> bool" where
  "over_limit stat a \<longleftrightarrow> word_of_int (ac_second_limit a) < sec_total stat \<or> word_of_int (ac_minute_limit a) < min_total stat \<or>
     word_of_int (ac_hour_limit a) < hou_total stat"

text \<open>The bytes known at the start of a buffer.\<close>

fun known :: "buffer \<Rightarrow> byte list" where
  "known (Some b # buf) = b # known buf"
| "known _ = []"

text \<open>The clock after \<open>n\<close> readings.\<close>

definition tick :: "nat \<Rightarrow> 'p IoAppConnection \<Rightarrow> 'p IoAppConnection" where
  "tick n a = a\<lparr>ac_clock := \<lambda>k. ac_clock a (k + n)\<rparr>"

definition app_whenReceivedFrame :: "'p processor \<Rightarrow> IoConnection \<Rightarrow> buffer \<Rightarrow> int \<Rightarrow> 'p appenv \<Rightarrow> (int \<times> 'p appenv) res" where
  "app_whenReceivedFrame process c buf sz e = bindr (rd_bytes buf 4 4) (\<lambda>mg.
     if rd_le32 mg = magic then
       let a = e_ext e in
       bindr (getSample (fst (ac_clock a 0)) (ac_sampling a)) (\<lambda>(stat, sp).
       let a = a\<lparr>ac_sampling := sp\<rparr> in
       if over_limit stat a then Inr (-1, e\<lparr>e_ext := tick 1 a\<rparr>)
       else bindr (createIMessage_frame (known buf) sz (e_mh e)) (\<lambda>(msg, mh).
         bindr (hmod mh msg (\<lambda>m. m\<lparr>m_state := Some (ac_state a), m_io := c_io c, m_conn := c_id c,
                                   m_type := source_bits APP, m_gen_time := Some (ac_clock a 1)\<rparr>)) (\<lambda>mh.
         bindr (process msg (ac_proc a, mh)) (\<lambda>(p, mh).
         bindr (sample (fst (ac_clock a 2)) (ac_sampling a)) (\<lambda>sp.
         Inr (0, e\<lparr>e_mh := mh, e_ext := (tick 3 a)\<lparr>ac_proc := p, ac_sampling := sp\<rparr>\<rparr>))))))
     else Inr (-1, e))"

definition app_whenClosed :: "IoConnection \<Rightarrow> 'p appenv \<Rightarrow> 'p appenv res" where
  "app_whenClosed c e =
    (let a = e_ext e in
     bindr (if ac_pending_data a \<noteq> 0
         then bindr (pl_putFirst (ac_pending_data a) (ac_push_buffer a, e_ph e, e_mh e)) (\<lambda>s. Inr (0, s))
         else Inr (ac_pending_data a, ac_push_buffer a, e_ph e, e_mh e)) (\<lambda>(pending, s).
     bindr (pl_stealMsg s) (\<lambda>msg.
     bindr (if msg = 0 then Inr (ac_collector a, s)
         else case ac_collector a of
           Some q \<Rightarrow> (case s of (l, ph, mh) \<Rightarrow> bindr (bq_put msg (q, mh)) (\<lambda>(q, mh).
             bindr (pl_shallowClear (l, ph, mh)) (\<lambda>s. Inr (Some q, s))))
         | None \<Rightarrow> bindr (pl_clear s) (\<lambda>s. Inr (None, s))) (\<lambda>(q, l, ph, mh).
     Inr (e\<lparr>e_ph := ph, e_mh := mh,
            e_ext := a\<lparr>ac_pending_data := pending, ac_collector := q, ac_push_buffer := l\<rparr>\<rparr>)))))"

definition app_getPushData :: "'p appenv \<Rightarrow> (addr \<times> 'p appenv) res" where
  "app_getPushData e = bindr (pl_get (ac_push_buffer (e_ext e), e_ph e, e_mh e)) (\<lambda>(d, l, ph, mh).
     Inr (d, e\<lparr>e_ph := ph, e_mh := mh, e_ext := (e_ext e)\<lparr>ac_push_buffer := l\<rparr>\<rparr>))"

definition app_pendingPushData :: "addr \<Rightarrow> 'p appenv \<Rightarrow> 'p appenv res" where
  "app_pendingPushData d e = Inr (e\<lparr>e_ext := (e_ext e)\<lparr>ac_pending_data := d\<rparr>\<rparr>)"

definition app_vtable :: "'p processor \<Rightarrow> (IoConnection \<Rightarrow> 'p appenv \<Rightarrow> 'p appenv res) \<Rightarrow> 'p IoAppConnection vtable" where
  "app_vtable process destroy = \<lparr>whenReceivedFrame = app_whenReceivedFrame process, whenClosed = app_whenClosed,
     getPushData = app_getPushData, pendingPushData = app_pendingPushData, onDestroy = destroy\<rparr>"

text \<open>The backend connection: it hands the message to a worker cluster, when it has one.\<close>

definition backend_whenReceivedFrame :: "'w processor option \<Rightarrow> IoConnection \<Rightarrow> buffer \<Rightarrow> int \<Rightarrow> 'w env \<Rightarrow> (int \<times> 'w env) res" where
  "backend_whenReceivedFrame workers c buf sz e = (case workers of None \<Rightarrow> Inr (-1, e)
     | Some schedule \<Rightarrow> bindr (createIMessage_frame (known buf) sz (e_mh e)) (\<lambda>(m, mh).
         bindr (hmod mh m (\<lambda>x. x\<lparr>m_io := c_io c, m_conn := c_id c, m_type := source_bits BACKEND\<rparr>)) (\<lambda>mh.
         bindr (schedule m (e_ext e, mh)) (\<lambda>(w, mh).
         Inr (0, e\<lparr>e_mh := mh, e_ext := w\<rparr>)))))"

definition backend_vtable :: "'w processor option \<Rightarrow> (IoConnection \<Rightarrow> 'w env \<Rightarrow> 'w env res) \<Rightarrow> 'w vtable" where
  "backend_vtable workers destroy = \<lparr>whenReceivedFrame = backend_whenReceivedFrame workers, whenClosed = \<lambda>c e. Inr e,
     getPushData = \<lambda>e. Inr (0, e), pendingPushData = \<lambda>d e. Inr e, onDestroy = destroy\<rparr>"

section \<open>The handlers look at the frame only\<close>

lemma known_map_Some [simp]: "known (map Some f @ buf) = f @ known buf"
  by (induction f) auto

lemma known_map [simp]: "known (map Some f) = f"
  using known_map_Some[of f "[]"] by simp

lemma known_prefix: "take (length f) buf = map Some f \<Longrightarrow> known buf = f @ known (drop (length f) buf)"
  using known_map_Some[of f "drop (length f) buf"] append_take_drop_id[of "length f" buf] by metis

lemma createIMessage_frame_prefix: "createIMessage_frame (f @ g) (int (length f)) h = createIMessage_frame f (int (length f)) h"
  by (simp add: createIMessage_frame_def Let_def split_beta)

lemma known_create:
  "take (length f) buf = map Some f \<Longrightarrow> createIMessage_frame (known buf) (int (length f)) h = createIMessage_frame f (int (length f)) h"
  by (simp add: known_prefix createIMessage_frame_prefix)

lemma rd_bytes_prefix:
  assumes "take (length f) buf = map Some f" "off + n \<le> length f"
  shows "rd_bytes buf off n = Inr (take n (drop off f))"
proof -
  have "buf = map Some f @ drop (length f) buf" using assms(1) append_take_drop_id[of "length f" buf] by simp
  then show ?thesis using rd_bytes_Some[OF assms(2), of "drop (length f) buf"] by simp
qed

interpretation app_handler: frame_handler "app_vtable process destroy" for process destroy
proof
  fix f :: "byte list" and buf c c' e
  assume f: "8 \<le> length f" "take (length f) buf = map Some f" "same_peer c c'"
  have "rd_bytes buf 4 4 = rd_bytes (map Some f) 4 4"
    using rd_bytes_prefix[OF f(2), of 4 4] rd_bytes_prefix[of f "map Some f" 4 4] f(1) by simp
  then show "whenReceivedFrame (app_vtable process destroy) c' buf (int (length f)) e
      = whenReceivedFrame (app_vtable process destroy) c (map Some f) (int (length f)) e"
    using f by (simp add: app_vtable_def app_whenReceivedFrame_def known_create same_peer_def cong: if_cong)
qed

interpretation backend_handler: frame_handler "backend_vtable workers destroy" for workers destroy
proof
  fix f :: "byte list" and buf c c' e
  assume f: "8 \<le> length f" "take (length f) buf = map Some f" "same_peer c c'"
  then show "whenReceivedFrame (backend_vtable workers destroy) c' buf (int (length f)) e
      = whenReceivedFrame (backend_vtable workers destroy) c (map Some f) (int (length f)) e"
    by (cases workers) (simp_all add: backend_vtable_def backend_whenReceivedFrame_def known_create same_peer_def)
qed

section \<open>Serving a client\<close>

text \<open>
  The service without sockets, buffers and frames: each payload is charged to the limiter at the time it is served, becomes a
  message of the connection, and is processed before the next one.
\<close>

definition app_message :: "IoConnection \<Rightarrow> 'p IoAppConnection \<Rightarrow> byte list \<Rightarrow> IMessage" where
  "app_message c a d = (new_IMessage (map Some (frame_of d) @ malloc_bytes 32) (int (length d) + 40) (int (length d))
      (int (length d) + 8))\<lparr>m_state := Some (ac_state a), m_io := c_io c, m_conn := c_id c, m_type := source_bits APP,
      m_gen_time := Some (ac_clock a 1)\<rparr>"

definition serve_one :: "'p processor \<Rightarrow> IoConnection \<Rightarrow> byte list \<Rightarrow> 'p appenv \<Rightarrow> (bool \<times> 'p appenv) res" where
  "serve_one process c d e = (let a = e_ext e; h = e_mh e in
     bindr (getSample (fst (ac_clock a 0)) (ac_sampling a)) (\<lambda>(stat, sp).
     let a = a\<lparr>ac_sampling := sp\<rparr> in
     if over_limit stat a then Inr (False, e\<lparr>e_ext := tick 1 a\<rparr>)
     else if heap_ok h \<and> h_brk h < h_lim h
     then bindr (process (h_brk h) (ac_proc a, hnew (app_message c a d) h)) (\<lambda>(p, h).
       bindr (sample (fst (ac_clock a 2)) sp) (\<lambda>sp. Inr (True, e\<lparr>e_mh := h, e_ext := (tick 3 a)\<lparr>ac_proc := p, ac_sampling := sp\<rparr>\<rparr>)))
     else Inl Abort))"

primrec serve :: "'p processor \<Rightarrow> IoConnection \<Rightarrow> byte list list \<Rightarrow> 'p appenv \<Rightarrow> (bool \<times> 'p appenv) res" where
  "serve process c [] e = Inr (True, e)"
| "serve process c (d # ds) e = bindr (serve_one process c d e) (\<lambda>(ok, e). if ok then serve process c ds e else Inr (False, e))"

lemma app_message_data: "load_data (app_message c a d) = Inr d" "load_frame (app_message c a d) = Inr (frame_of d)"
  "msg_wf (app_message c a d)"
  using rd_bytes_Some[of 8 "length d" "frame_of d" "malloc_bytes 32"] rd_bytes_Some[of 0 "length d + 8" "frame_of d" "malloc_bytes 32"]
  by (simp_all add: load_data_def load_frame_def msg_wf_def app_message_def new_IMessage_def nat_add_distrib malloc_bytes_def)
    (simp add: frame_of_header)

lemma frame_magic: "rd_bytes (map Some (frame_of d)) 4 4 = Inr (le32 magic)" "rd_le32 (le32 magic) = magic"
  using rd_bytes_Some[of 4 4 "frame_of d" "[]"]
  by (simp_all add: frame_of_header frame_header_def rd_le32_le32) (simp add: magic_def s32_id)

lemma app_receives:
  assumes "length d \<le> 1016" "serve_one process c d e = Inr (ok, e')"
  shows "app_whenReceivedFrame process c (map Some (frame_of d)) (int (length (frame_of d))) e = Inr (if ok then 0 else -1, e')"
proof -
  let ?h = "e_mh e" and ?n = "int (length d) + 8"
  have cr: "createIMessage_frame (frame_of d) ?n ?h = Inr (h_brk ?h, hnew (new_IMessage (map Some (frame_of d) @ malloc_bytes 32)
      (int (length d) + 40) (int (length d)) ?n) ?h)" if "heap_ok ?h" "h_brk ?h < h_lim ?h"
    using createIMessage_frame_ok(1)[of ?n "frame_of d" ?h] assms(1) that by (simp add: nat_add_distrib add.commute[of 40])
  from assms(2) obtain stat sp where g: "getSample (fst (ac_clock (e_ext e) 0)) (ac_sampling (e_ext e)) = Inr (stat, sp)"
    by (auto simp: serve_one_def bindr_eq_Inr Let_def)
  show ?thesis
  proof (cases "over_limit stat (e_ext e\<lparr>ac_sampling := sp\<rparr>)")
    case True
    then show ?thesis using assms(2) g by (auto simp: app_whenReceivedFrame_def serve_one_def frame_magic Let_def)
  next
    case False
    then show ?thesis using assms(2) g cr
      by (auto simp: app_whenReceivedFrame_def serve_one_def frame_magic Let_def hmod_hnew app_message_def bindr_eq_Inr split: if_splits)
  qed
qed

lemma app_handles:
  "\<forall>d \<in> set ds. length d \<le> 1016 \<Longrightarrow> serve process c ds e = Inr (ok, e') \<Longrightarrow>
   handle_frames (app_vtable process destroy) c (map frame_of ds) e = Inr (ok, e')"
proof (induction ds arbitrary: e)
  case (Cons d ds)
  from Cons.prems(2) obtain k e1 where k: "serve_one process c d e = Inr (k, e1)"
    "(if k then serve process c ds e1 else Inr (False, e1)) = Inr (ok, e')" by (auto simp: bindr_eq_Inr)
  have "whenReceivedFrame (app_vtable process destroy) c (map Some (frame_of d)) (int (length (frame_of d))) e
      = Inr (if k then 0 else -1, e1)"
    using app_receives[OF _ k(1)] Cons.prems(1) by (simp add: app_vtable_def)
  then show ?case using k(2) Cons by (cases k) simp_all
qed simp

text \<open>
  C2: the bytes of any sequence of client frames, however the socket cuts them up and however often it answers
  \<open>EAGAIN\<close> or \<open>EINTR\<close>, have the effect of serving the payloads one after the other, each with its own readings of the clock: every payload is
  charged to the limiter, reaches the processor in order as a message that carries it and the identity and state of the
  connection, and nothing stays in the buffer. This holds for clients that pause between a frame and a longer one: where
  a frame exceeds the one before it by more than a byte, a chunk ends between the two.
\<close>

theorem client_stream_served:
  assumes "conn_buf c []" "quiet sc" "bytes_of sc = concat (map frame_of ds)" "\<forall>d \<in> set ds. length d \<le> 1016"
    and "\<And>i. Suc i < length ds \<Longrightarrow> cut sc (length (concat (map frame_of (take (Suc i) ds)))) \<or> length (ds ! Suc i) \<le> Suc (length (ds ! i))"
    and "serve process c ds e = Inr (True, e')" "1024 < fuel" "script_size sc \<le> rounds"
  shows "(\<exists>c'. read_calls rounds fuel (app_vtable process destroy) (c, sc, e) = Inr (c', [], e') \<and> conn_buf c' [] \<and> same_peer c c') \<and>
    load_data (app_message c a d) = Inr d \<and> m_conn (app_message c a d) = c_id c \<and> m_state (app_message c a d) = Some (ac_state a)"
proof -
  have sp: "split_frames ([] @ bytes_of sc) = (map frame_of ds, [])" "stream_ok ([] @ bytes_of sc)"
    using split_frames_of[of ds] assms(3,4) by auto
  have "handle_frames (app_vtable process destroy) c (fst (split_frames ([] @ bytes_of sc))) e = Inr (True, e')"
    using app_handles[OF assms(4,6), of destroy] sp by simp
  moreover have "gentle (cut sc) (concat (map frame_of ds))" by (rule gentle_frames) (use assms(4,5) in auto)
  then have "calm [] sc" using assms(3) by (simp add: calm_def)
  ultimately show ?thesis using app_handler.stream_delivered[OF assms(1,2) sp(2) assms(7) _ assms(8), of process destroy e e'] sp(1)
    by (simp add: app_message_data) (simp add: app_message_def)
qed

text \<open>A fresh connection whose processor only notes the messages it is given.\<close>

definition demo_conn :: IoConnection where
  "demo_conn = conn_initialize 3 0 1 IoConnection_new"

definition demo_app :: "addr list IoAppConnection" where
  "demo_app = \<lparr>ac_state = 0, ac_sampling = IoSampling_new 0, ac_push_buffer = pl_new, ac_pending_data = 0,
     ac_second_limit = 100, ac_minute_limit = 1000, ac_hour_limit = 10000, ac_collector = None, ac_clock = \<lambda>_. (0, 0), ac_proc = []\<rparr>"

definition demo_env :: "addr list appenv" where
  "demo_env = \<lparr>e_ph = heap_empty 100, e_mh = heap_empty 100, e_wire = [], e_closes = [], e_ext = demo_app\<rparr>"

definition note_msg :: "addr list processor" where
  "note_msg msg = (\<lambda>(p, h). Inr (p @ [msg], h))"

lemma demo_conn_buf: "conn_buf demo_conn []"
  by (simp add: conn_buf_def demo_conn_def conn_initialize_def IoConnection_new_def CONN_DEFAULT_READ_LEN_def malloc_bytes_def
      at_def split_short)

lemma demo_getSample: "getSample 0 (IoSampling_new 0) = Inr (\<lparr>sec_total = 0, min_total = 0, hou_total = 0\<rparr>, IoSampling_new 0)"
proof -
  have "hour_of 0 = sp_current_hour (IoSampling_new 0)" "sec_of 0 = 0"
    by (simp_all add: hour_of_def sec_of_def utcToLocal_def IoSampling_new_def)
  then show ?thesis by (simp add: getSample_eq fix_same) (simp add: IoSampling_new_def)
qed

lemma demo_sample: "sample 0 (IoSampling_new 0) = Inr (IoSampling_new 0\<lparr>sp_total := 1, sp_detail := 2 # replicate 3599 0\<rparr>)"
proof -
  have "hour_of 0 = sp_current_hour (IoSampling_new 0)" "sec_of 0 = 0"
    by (simp_all add: hour_of_def sec_of_def utcToLocal_def IoSampling_new_def)
  moreover have "replicate 3600 (0::32 word) = 0 # replicate 3599 0" by (simp add: numeral_eq_Suc)
  ultimately show ?thesis by (simp add: sample_eq fix_same) (simp add: IoSampling_new_def bump_def)
qed

lemma demo_getSample2:
  "getSample 0 (IoSampling_new 0\<lparr>sp_total := 1, sp_detail := 2 # replicate 3599 0\<rparr>) = Inr (\<lparr>sec_total = 2, min_total = 2, hou_total = 1\<rparr>,
     IoSampling_new 0\<lparr>sp_total := 1, sp_detail := 2 # replicate 3599 0\<rparr>)" (is "getSample 0 ?sp = _")
proof -
  have "hour_of 0 = sp_current_hour ?sp" "sec_of 0 = 0" "sp_ok ?sp"
    by (simp_all add: hour_of_def sec_of_def utcToLocal_def IoSampling_new_def sp_ok_def)
  then show ?thesis by (simp add: getSample_eq fix_same)
qed

lemma demo_serve:
  "serve_one note_msg c d demo_env = Inr (True, demo_env\<lparr>e_mh := hnew (app_message c demo_app d) (heap_empty 100),
     e_ext := demo_app\<lparr>ac_proc := [1], ac_sampling := IoSampling_new 0\<lparr>sp_total := 1, sp_detail := 2 # replicate 3599 0\<rparr>\<rparr>\<rparr>)"
proof -
  have "demo_app\<lparr>ac_sampling := IoSampling_new 0\<rparr> = demo_app" by (simp add: demo_app_def)
  moreover have "tick 3 demo_app = demo_app" by (simp add: tick_def demo_app_def)
  ultimately show ?thesis
    by (simp add: serve_one_def demo_env_def demo_app_def demo_getSample demo_sample over_limit_def note_msg_def tick_def Let_def)
      (simp add: heap_empty_def)
qed

text \<open>The state after one and after two payloads.\<close>

definition demo_env1 :: "IoConnection \<Rightarrow> byte list \<Rightarrow> addr list appenv" where
  "demo_env1 c d = demo_env\<lparr>e_mh := hnew (app_message c demo_app d) (heap_empty 100),
     e_ext := demo_app\<lparr>ac_proc := [1], ac_sampling := IoSampling_new 0\<lparr>sp_total := 1, sp_detail := 2 # replicate 3599 0\<rparr>\<rparr>\<rparr>"

lemma demo_sample2:
  "sample 0 (IoSampling_new 0\<lparr>sp_total := 1, sp_detail := 2 # replicate 3599 0\<rparr>) =
     Inr (IoSampling_new 0\<lparr>sp_total := 2, sp_detail := 4 # replicate 3599 0\<rparr>)" (is "sample 0 ?sp = _")
proof -
  have "hour_of 0 = sp_current_hour ?sp" "sec_of 0 = 0" "sp_ok ?sp"
    by (simp_all add: hour_of_def sec_of_def utcToLocal_def IoSampling_new_def sp_ok_def)
  then show ?thesis by (simp add: sample_eq fix_same) (simp add: IoSampling_new_def bump_def)
qed

lemma demo_serve2:
  "\<exists>m e'. serve_one note_msg c d (demo_env1 c d1) = Inr (True, e') \<and> ac_proc (e_ext e') = [1, 2] \<and> hget (e_mh e') 2 = Inr m \<and> load_data m = Inr d"
proof -
  have h: "heap_ok (e_mh (demo_env1 c d1))" "h_brk (e_mh (demo_env1 c d1)) = 2" "h_lim (e_mh (demo_env1 c d1)) = 100"
    by (simp_all add: demo_env1_def heap_empty_def heap_ok_def)
  let ?m = "app_message c (e_ext (demo_env1 c d1)) d"
  have "hget (hnew ?m (e_mh (demo_env1 c d1))) 2 = Inr ?m" using hget_hnew[OF h(1), of ?m 2] h(2) by simp
  then show ?thesis using h
    by (intro exI[of _ ?m])
      (simp add: serve_one_def demo_env1_def demo_app_def demo_getSample2 demo_sample2 over_limit_def note_msg_def tick_def Let_def app_message_data)
qed

theorem client_stream_served_witness:
  "\<exists>c' e' m. read_calls 40 1025 (app_vtable note_msg (\<lambda>c e. Inr e)) (demo_conn, [Chunk [0, 0, 0], Recv_err EAGAIN,
      Chunk [5, 0x6D, 0x69, 0x6D, 0x69, 7], Chunk [0, 0, 0, 7, 0x6D, 0x69, 0x6D, 0x69, 1, 2, 3]], demo_env) = Inr (c', [], e') \<and>
    conn_buf c' [] \<and> ac_proc (e_ext e') = [1, 2] \<and> hget (e_mh e') 2 = Inr m \<and> load_data m = Inr [1, 2, 3]"
proof -
  let ?sc = "[Chunk [0, 0, 0], Recv_err EAGAIN, Chunk [5, 0x6D, 0x69, 0x6D, 0x69, 7], Chunk [0, 0, 0, 7, 0x6D, 0x69, 0x6D, 0x69, 1, 2, 3]]"
  let ?ds = "[[7], [1, 2, 3]] :: byte list list"
  have f: "frame_of [7] = [0, 0, 0, 5, 0x6D, 0x69, 0x6D, 0x69, 7]" "frame_of [1, 2, 3] = [0, 0, 0, 7, 0x6D, 0x69, 0x6D, 0x69, 1, 2, 3]"
    by (simp_all add: frame_of_def)
  have b: "bytes_of ?sc = concat (map frame_of ?ds)" by (simp add: f)
  have q: "quiet ?sc" "script_size ?sc \<le> 40" by (simp_all add: script_size_def)
  have pace: "cut ?sc (length (concat (map frame_of (take (Suc i) ?ds)))) \<or> length (?ds ! Suc i) \<le> Suc (length (?ds ! i))"
    if "Suc i < length ?ds" for i using that by simp
  obtain e' m where e': "serve_one note_msg demo_conn [1, 2, 3] (demo_env1 demo_conn [7]) = Inr (True, e')" "ac_proc (e_ext e') = [1, 2]"
    "hget (e_mh e') 2 = Inr m" "load_data m = Inr [1, 2, 3]" using demo_serve2 by blast
  have sv: "serve note_msg demo_conn ?ds demo_env = Inr (True, e')" using e'(1) by (simp add: demo_serve demo_env1_def)
  have l: "\<forall>d \<in> set ?ds. length d \<le> 1016" by simp
  have "(1024 :: nat) < 1025" by simp
  from client_stream_served[OF demo_conn_buf q(1) b l pace sv this q(2), of "\<lambda>c e. Inr e" demo_app "[7]"] show ?thesis using e'(2-4) by blast
qed

text \<open>
  C3: moving the incomplete rest of the buffer to its front is undefined when the rest is longer than the frames before it: \<open>memcpy\<close> gets
  overlapping regions. A client the limiter still admits brings it about by sending a frame and, in the same packet, more
  bytes of the next frame than the first one has; both frames are well-formed.
\<close>

theorem long_frame_overlaps:
  assumes "conn_buf c []" "serve_one process c d e = Inr (True, e1)" "length d + 8 < n" "n < length d' + 8" "length d' \<le> 1016"
    "length d + 8 + n \<le> 1024" "1024 < fuel"
  shows "readSocket fuel (app_vtable process destroy) (c, [Chunk (frame_of d @ take n (frame_of d'))], e) = Inl Overlap"
proof -
  let ?vt = "app_vtable process destroy" and ?r = "take n (frame_of d')"
  have h: "whenReceivedFrame ?vt c (map Some (frame_of d)) (int (length (frame_of d))) e = Inr (0, e1)"
    using app_receives[OF _ assms(2)] assms(3,6) by (simp add: app_vtable_def)
  have "frame_len (?r @ drop n (frame_of d')) = frame_len ?r" by (rule frame_len_append) (use assms(3,4) in simp)
  then have "frame_len ?r = length d' + 8" using frame_len_frame_of[of d' "[]"] assms(5) by simp
  moreover have "frame_len (frame_of d @ ?r) = length (frame_of d)" using frame_len_frame_of[of d ?r] assms(3,6) by simp
  ultimately show ?thesis using app_handler.long_rest_overlaps[OF assms(1) _ _ _ _ assms(7) _ _ h] assms(3-6) by simp
qed

theorem long_frame_overlaps_witness:
  "readSocket 1025 (app_vtable note_msg (\<lambda>c e. Inr e)) (demo_conn, [Chunk (frame_of [7] @ take 10 (frame_of [1, 2, 3]))], demo_env) = Inl Overlap"
  by (rule long_frame_overlaps[OF demo_conn_buf demo_serve]) simp_all

lemma negative_size: "s32 (int (frame_len ([0x80, 0, 0, 0] @ le32 magic))) = -2147483644"
  by (simp add: frame_len_def s32_def)

lemma negative_frame:
  assumes "take 8 buf = map Some ([0x80, 0, 0, 0] @ le32 magic)"
    "getSample (fst (ac_clock (e_ext e) 0)) (ac_sampling (e_ext e)) = Inr (stat, sp)" "\<not> over_limit stat (e_ext e)"
  shows "app_whenReceivedFrame process c buf (-2147483644) e = Inl Abort"
proof -
  have "rd_bytes buf 4 4 = Inr (le32 magic)" using rd_bytes_prefix[of "[0x80, 0, 0, 0] @ le32 magic" buf 4 4] assms(1) by simp
  moreover have "\<not> over_limit stat (e_ext e\<lparr>ac_sampling := sp\<rparr>)" using assms(3) by (simp add: over_limit_def)
  moreover have "createIMessage_frame (known buf) (-2147483644) (e_mh e) = Inl Abort"
    by (simp add: createIMessage_frame_def s32_def split_beta Let_def)
  ultimately show ?thesis using assms(2) by (simp add: app_whenReceivedFrame_def frame_magic Let_def)
qed

text \<open>
  C4: the size of a frame that follows another in the buffer is not checked. A client the limiter still admits stops the
  whole server with one good frame and eight more bytes, a length word of \<open>0x80000000\<close> and the magic: the
  allocation for the negative size fails and the program aborts.
\<close>

theorem client_can_abort_server:
  assumes "conn_buf c []" "length d \<le> 1000" "1024 < fuel" "serve_one process c d e = Inr (True, e1)"
    "getSample (fst (ac_clock (e_ext e1) 0)) (ac_sampling (e_ext e1)) = Inr (stat, sp)" "\<not> over_limit stat (e_ext e1)"
  shows "readSocket fuel (app_vtable process destroy) (c, [Chunk (frame_of d @ [0x80, 0, 0, 0] @ le32 magic)], e) = Inl Abort"
proof -
  let ?vt = "app_vtable process destroy" and ?r = "[0x80, 0, 0, 0] @ le32 magic"
  define k where "k = fuel - 2"
  have k: "fuel = Suc (Suc k)" using assms(3) by (simp add: k_def)
  have h: "whenReceivedFrame ?vt c (map Some (frame_of d)) (int (length (frame_of d))) e = Inr (0, e1)"
    using app_receives[OF _ assms(4)] assms(2) by (simp add: app_vtable_def)
  have bad: "frames_loop (Suc k) ?vt c2 (int (length (frame_of d))) (int (length ?r)) (s32 (int (frame_len ?r))) e1 = Inl Abort"
    if a: "at (c_rbuf c2) (length (frame_of d)) ?r" "same_peer c c2" for c2
  proof -
    have "take 8 (drop (length (frame_of d)) (c_rbuf c2)) = map Some ?r" using a(1) by (simp add: at_def)
    from negative_frame[OF this assms(5,6), of process c2] show ?thesis
      unfolding negative_size by (simp add: app_vtable_def nat_add_distrib)
  qed
  have "frame_len (frame_of d @ ?r) = length (frame_of d)" using assms(2) by (simp only: frame_len_frame_of) simp
  moreover have "length (frame_of d @ ?r) \<le> 1024" "8 \<le> length (frame_of d)" "4 \<le> length ?r" using assms(2) by simp_all
  ultimately show ?thesis unfolding k using app_handler.second_frame_fault[OF assms(1) _ _ _ _ h _ bad] by simp
qed

theorem client_can_abort_server_witness:
  "readSocket 1025 (app_vtable note_msg (\<lambda>c e. Inr e)) (demo_conn, [Chunk (frame_of [7] @ [0x80, 0, 0, 0] @ le32 magic)], demo_env) = Inl Abort"
proof -
  let ?e = "demo_env\<lparr>e_mh := hnew (app_message demo_conn demo_app [7]) (heap_empty 100),
     e_ext := demo_app\<lparr>ac_proc := [1], ac_sampling := IoSampling_new 0\<lparr>sp_total := 1, sp_detail := 2 # replicate 3599 0\<rparr>\<rparr>\<rparr>"
  have g: "getSample (fst (ac_clock (e_ext ?e) 0)) (ac_sampling (e_ext ?e)) = Inr (\<lparr>sec_total = 2, min_total = 2, hou_total = 1\<rparr>,
      IoSampling_new 0\<lparr>sp_total := 1, sp_detail := 2 # replicate 3599 0\<rparr>)"
    using demo_getSample2 by (simp add: demo_app_def)
  have "\<not> over_limit \<lparr>sec_total = 2, min_total = 2, hou_total = 1\<rparr> (e_ext ?e)" by (simp add: over_limit_def demo_app_def)
  from client_can_abort_server[OF demo_conn_buf _ _ demo_serve g this, of 1025 "\<lambda>c e. Inr e"] show ?thesis by simp
qed

section \<open>Closing\<close>

text \<open>What is still to be written: the data a closing write handed back, then the push list.\<close>

definition backlog :: "'p IoAppConnection \<Rightarrow> addr list \<Rightarrow> addr list" where
  "backlog a ds = (if ac_pending_data a = 0 then ds else ac_pending_data a # ds)"

definition app_holds :: "'p appenv \<Rightarrow> addr list \<Rightarrow> bool" where
  "app_holds e ds \<longleftrightarrow> pl_holds (ac_push_buffer (e_ext e), e_ph e, e_mh e) ds \<and> (ac_pending_data (e_ext e) = 0 \<or>
     pl_spare (ac_push_buffer (e_ext e), e_ph e, e_mh e) (ac_pending_data (e_ext e)) ds)"

lemma pending_put_back:
  assumes "app_holds e ds"
  shows "\<exists>l ph mh. (if ac_pending_data (e_ext e) \<noteq> 0
      then bindr (pl_putFirst (ac_pending_data (e_ext e)) (ac_push_buffer (e_ext e), e_ph e, e_mh e)) (\<lambda>s. Inr (0, s))
      else Inr (ac_pending_data (e_ext e), ac_push_buffer (e_ext e), e_ph e, e_mh e)) = Inr (0, l, ph, mh) \<and>
    pl_holds (l, ph, mh) (backlog (e_ext e) ds) \<and> msg_at ph = msg_at (e_ph e) \<and> relinked set_pnext (e_ph e) ph \<and>
    relinked set_next (e_mh e) mh"
proof (cases "ac_pending_data (e_ext e) = 0")
  case False
  then show ?thesis using assms pl_putFirst_ok[of "ac_push_buffer (e_ext e)" "e_ph e" "e_mh e" ds "ac_pending_data (e_ext e)"]
    by (auto simp: app_holds_def backlog_def)
qed (use assms in \<open>auto simp: app_holds_def backlog_def relinked_refl\<close>)

text \<open>
  C5: closing a connection without a collector drops the backlog: the pending data and everything in the push list is
  freed together with its message, and nothing else is.
\<close>

theorem close_drops_backlog:
  assumes "app_holds e ds" "ac_collector (e_ext e) = None"
  defines "bs \<equiv> backlog (e_ext e) ds"
  shows "\<exists>e'. app_whenClosed c e = Inr e' \<and> app_holds e' [] \<and> ac_pending_data (e_ext e') = 0 \<and>
    (\<forall>x. live (e_ph e') x = (live (e_ph e) x \<and> x \<notin> set bs)) \<and>
    (\<forall>x. live (e_mh e') x = (live (e_mh e) x \<and> x \<notin> msg_at (e_ph e) ` set bs))"
proof -
  from pending_put_back[OF assms(1)] obtain l ph mh where p: "(if ac_pending_data (e_ext e) \<noteq> 0
      then bindr (pl_putFirst (ac_pending_data (e_ext e)) (ac_push_buffer (e_ext e), e_ph e, e_mh e)) (\<lambda>s. Inr (0, s))
      else Inr (ac_pending_data (e_ext e), ac_push_buffer (e_ext e), e_ph e, e_mh e)) = Inr (0, l, ph, mh)"
    "pl_holds (l, ph, mh) bs" "msg_at ph = msg_at (e_ph e)" "relinked set_pnext (e_ph e) ph" "relinked set_next (e_mh e) mh"
    unfolding bs_def by blast
  obtain v where v: "pl_stealMsg (l, ph, mh) = Inr v" "mpath mh v (map (msg_at ph) bs) 0" using pl_stealMsg_ok[OF p(2)] by blast
  have lv: "live ph x = live (e_ph e) x" "live mh x = live (e_mh e) x" for x using p(4,5) relinked_live by blast+
  have hp: "heap_ok ph" "heap_ok mh" using p(2) by (auto simp: pl_holds_def)
  show ?thesis
  proof (cases "bs = []")
    case True
    then have "app_whenClosed c e = Inr (e\<lparr>e_ph := ph, e_mh := mh, e_ext := (e_ext e)\<lparr>ac_pending_data := 0, ac_collector := None, ac_push_buffer := l\<rparr>\<rparr>)"
      using p(1) v assms(2) by (simp add: app_whenClosed_def Let_def)
    then show ?thesis using True p(2) lv by (simp add: app_holds_def)
  next
    case False
    then have "v \<noteq> 0" using v(2) by (cases bs) auto
    then have "app_whenClosed c e = Inr (e\<lparr>e_ph := freed ph (set bs), e_mh := freed mh (msg_at ph ` set bs),
        e_ext := (e_ext e)\<lparr>ac_pending_data := 0, ac_collector := None, ac_push_buffer := l\<lparr>pl_list := 0, pl_tail := 0, pl_list_size := 0\<rparr>\<rparr>\<rparr>)"
      using p(1) v(1) assms(2) pl_clear_ok[OF p(2)] by (simp add: app_whenClosed_def Let_def)
    then show ?thesis using lv p(3) hp by (simp add: app_holds_def pl_holds_new)
  qed
qed

theorem close_drops_backlog_witness:
  "\<exists>e'. app_whenClosed demo_conn (demo_env\<lparr>e_ph := fst (snd two_nodes), e_mh := snd (snd two_nodes),
      e_ext := demo_app\<lparr>ac_pending_data := 1\<rparr>\<rparr>) = Inr e' \<and> \<not> live (e_ph e') 1 \<and> live (e_ph e') 2 \<and> \<not> live (e_mh e') 1 \<and> live (e_mh e') 2"
proof -
  let ?e = "demo_env\<lparr>e_ph := fst (snd two_nodes), e_mh := snd (snd two_nodes), e_ext := demo_app\<lparr>ac_pending_data := 1\<rparr>\<rparr>"
  have "pl_spare two_nodes 1 []" by (simp add: pl_spare_def two_nodes_def live_def msg_at_def some_msgs_def)
  then have "app_holds ?e []" using two_nodes_holds
    by (simp add: app_holds_def demo_app_def two_nodes_def)
  moreover have "backlog (e_ext ?e) [] = [1]" "ac_collector (e_ext ?e) = None" by (simp_all add: backlog_def demo_app_def)
  moreover have "live (e_ph ?e) 2" "live (e_mh ?e) 2" "msg_at (e_ph ?e) 1 = 1"
    by (simp_all add: two_nodes_def live_def msg_at_def some_msgs_def)
  ultimately obtain e' where "app_whenClosed demo_conn ?e = Inr e'" "\<forall>x. live (e_ph e') x = (live (e_ph ?e) x \<and> x \<notin> set [1])"
    "\<forall>x. live (e_mh e') x = (live (e_mh ?e) x \<and> x \<notin> {1})" "live (e_ph ?e) 2" "live (e_mh ?e) 2"
    using close_drops_backlog[of ?e "[]" demo_conn] by (simp only: list.set image_insert image_empty) blast
  then show ?thesis by (intro exI[of _ e']) simp
qed

text \<open>
  C6: closing a connection that has a collector hands over one message only. \<open>collect\<close> takes a single message, and the
  chain that \<open>stealMsg\<close> returned is cut behind the first one: the collector gains that message, the nodes of the
  list are freed, and the remaining messages stay allocated although nothing refers to them any more.
\<close>

theorem close_collects_first_only:
  assumes "app_holds e (d # ds)" "ac_pending_data (e_ext e) = 0" "ac_collector (e_ext e) = Some q" "bq_holds (q, e_mh e) xs"
    and "set xs \<inter> msg_at (e_ph e) ` set (d # ds) = {}"
  shows "\<exists>e' q'. app_whenClosed c e = Inr e' \<and> ac_collector (e_ext e') = Some q' \<and>
    bq_holds (q', e_mh e') (xs @ [msg_at (e_ph e) d]) \<and> pl_list (ac_push_buffer (e_ext e')) = 0 \<and>
    (\<forall>x. live (e_ph e') x = (live (e_ph e) x \<and> x \<notin> set (d # ds))) \<and>
    (\<forall>x \<in> set ds. live (e_mh e') (msg_at (e_ph e) x) \<and> msg_at (e_ph e) x \<notin> set (xs @ [msg_at (e_ph e) d]))"
proof -
  let ?l = "ac_push_buffer (e_ext e)" and ?ph = "e_ph e" and ?mh = "e_mh e"
  have h: "pl_holds (?l, ?ph, ?mh) (d # ds)" using assms(1) by (simp add: app_holds_def)
  have ms: "distinct (map (msg_at ?ph) (d # ds))" "\<forall>x \<in> set (d # ds). live ?mh (msg_at ?ph x)" using pl_holds_msgs[OF h] by auto
  obtain v where v: "pl_stealMsg (?l, ?ph, ?mh) = Inr v" "mpath ?mh v (map (msg_at ?ph) (d # ds)) 0" using pl_stealMsg_ok[OF h] by blast
  then have v1: "v = msg_at ?ph d" "v \<noteq> 0" by auto
  have "v \<notin> set xs" using assms(5) v1 by auto
  then obtain q' mh' where q: "bq_put v (q, ?mh) = Inr (q', mh')" "bq_holds (q', mh') (xs @ [v])" "relinked set_next ?mh mh'"
    using bq_put_ok[OF assms(4)] ms(2) v1 by fastforce
  have "pl_shallowClear (?l, ?ph, mh') = Inr (?l\<lparr>pl_list := 0, pl_tail := 0, pl_list_size := 0\<rparr>, freed ?ph (set (d # ds)), mh')"
    using pl_shallowClear_ok[OF h] by (auto simp: pl_shallowClear_def bindr_eq_Inr)
  then have "app_whenClosed c e = Inr (e\<lparr>e_ph := freed ?ph (set (d # ds)), e_mh := mh', e_ext := (e_ext e)\<lparr>ac_pending_data := 0,
      ac_collector := Some q', ac_push_buffer := ?l\<lparr>pl_list := 0, pl_tail := 0, pl_list_size := 0\<rparr>\<rparr>\<rparr>)"
    using v(1) v1(2) assms(2,3) q(1) by (simp add: app_whenClosed_def Let_def)
  moreover have "\<forall>x \<in> set ds. live mh' (msg_at ?ph x)" using ms(2) relinked_live[OF q(3)] by auto
  moreover have "\<forall>x \<in> set ds. msg_at ?ph x \<notin> set (xs @ [msg_at ?ph d])" using ms(1) assms(5) by (auto simp: image_iff)
  ultimately show ?thesis using q(2) v1 by auto
qed

lemma two_linked: "\<exists>l ph mh. pl_holds (l, ph, mh) [2, 1] \<and> msg_at ph 2 = 2 \<and> msg_at ph 1 = 1"
proof -
  obtain l ph mh where t: "two_nodes = (l, ph, mh)" by (cases two_nodes)
  have m: "msg_at ph 2 = 2" "msg_at ph 1 = 1" "live ph 1" "live mh 1" "live ph 2" "live mh 2"
    using t by (auto simp: two_nodes_def msg_at_def live_def some_msgs_def)
  then have "pl_spare (l, ph, mh) 2 []" by (simp add: pl_spare_def)
  then obtain l1 ph1 mh1 where p: "pl_holds (l1, ph1, mh1) [2]" "msg_at ph1 = msg_at ph" "relinked set_pnext ph ph1" "relinked set_next mh mh1"
    using pl_put_ok[of l ph mh "[]" 2] two_nodes_holds t by auto
  then have "pl_spare (l1, ph1, mh1) 1 [2]" using m by (simp add: pl_spare_def relinked_live)
  then obtain l2 ph2 mh2 where "pl_holds (l2, ph2, mh2) [2, 1]" "msg_at ph2 = msg_at ph1" using pl_put_ok[OF p(1), of 1] by auto
  then show ?thesis using p(2) m by (intro exI[of _ l2] exI[of _ ph2] exI[of _ mh2]) simp
qed

theorem close_collects_first_only_witness:
  "\<exists>e :: addr list appenv. \<exists>e' q'. app_holds e [2, 1] \<and> app_whenClosed demo_conn e = Inr e' \<and> ac_collector (e_ext e') = Some q' \<and>
    bq_holds (q', e_mh e') [2] \<and> live (e_mh e') 1"
proof -
  obtain l ph mh where r: "pl_holds (l, ph, mh) [2, 1]" and m: "msg_at ph 2 = 2" "msg_at ph 1 = 1"
    using two_linked by blast
  let ?e = "demo_env\<lparr>e_ph := ph, e_mh := mh, e_ext := demo_app\<lparr>ac_push_buffer := l, ac_collector := Some bq_new\<rparr>\<rparr>"
  have a: "app_holds ?e [2, 1]" using r by (simp add: app_holds_def demo_env_def demo_app_def)
  have b: "bq_holds (bq_new, e_mh ?e) []" using r by (simp add: bq_holds_def bq_new_def pl_holds_def)
  have "ac_pending_data (e_ext ?e) = 0" "ac_collector (e_ext ?e) = Some bq_new" by (simp_all add: demo_app_def)
  from close_collects_first_only[OF a this b, of demo_conn] m obtain e' q' where
    "app_whenClosed demo_conn ?e = Inr e'" "ac_collector (e_ext e') = Some q'" "bq_holds (q', e_mh e') [2]" "live (e_mh e') 1"
    by auto
  with a show ?thesis by blast
qed

end
