(* ===== verification/Writing.thy ===== *)
theory Writing
  imports AppConnection
begin

text \<open>
  The write side of a client connection. What a connection still has to write is the current push data and the push
  list; the lemmas follow it through \<open>writeSocket\<close>, which sends a piece, drops the data that is written
  completely together with its message, and fetches the next.
\<close>

section \<open>The output that is left\<close>

text \<open>The node \<open>d\<close> has the bytes \<open>bs\<close> left to write.\<close>

definition node_out :: "pheap \<Rightarrow> mheap \<Rightarrow> addr \<Rightarrow> byte list \<Rightarrow> bool" where
  "node_out ph mh d bs \<longleftrightarrow> (\<exists>pd m. hget ph d = Inr pd \<and> hget mh (pd_msg pd) = Inr m \<and> pd_wbuf pd = pd_msg pd \<and> \<not> m_close_conn m \<and>
     0 \<le> pd_wpos pd \<and> pd_wsize pd = pd_wpos pd + int (length bs) \<and> bs \<noteq> [] \<and> rd_bytes (m_b m) (nat (pd_wpos pd)) (length bs) = Inr bs)"

definition cur_list :: "addr \<Rightarrow> addr list" where
  "cur_list d = (if d = 0 then [] else [d])"

definition out_inv :: "addr \<Rightarrow> 'p appenv \<Rightarrow> addr list \<Rightarrow> byte list list \<Rightarrow> bool" where
  "out_inv cur e ds bss \<longleftrightarrow> pl_holds (ac_push_buffer (e_ext e), e_ph e, e_mh e) ds \<and>
     (cur \<noteq> 0 \<longrightarrow> pl_spare (ac_push_buffer (e_ext e), e_ph e, e_mh e) cur ds) \<and>
     list_all2 (node_out (e_ph e) (e_mh e)) (cur_list cur @ ds) bss"

declare out_inv_def [inv_defs]

fun send_quiet :: "send_ev list \<Rightarrow> bool" where
  "send_quiet [] \<longleftrightarrow> True"
| "send_quiet (Send_err er # sc) \<longleftrightarrow> er \<noteq> EOTHER \<and> send_quiet sc"
| "send_quiet (_ # sc) \<longleftrightarrow> send_quiet sc"

section \<open>What changes and what does not\<close>

lemma relinked_get: "relinked upd h h' \<Longrightarrow> hget h a = Inr c \<Longrightarrow> \<exists>c'. hget h' a = Inr c' \<and> upd 0 c' = upd 0 c"
  by (auto simp: relinked_def hget_Inr dest!: spec[of _ a])

lemma set_next_rest: "set_next 0 m' = set_next 0 m \<Longrightarrow> m_b m' = m_b m \<and> m_close_conn m' = m_close_conn m"
  by (metis set_next_def IMessage.ext_inject IMessage.surjective IMessage.update_convs(23))

lemma set_pnext_rest: "set_pnext 0 d' = set_pnext 0 d \<Longrightarrow> pd_msg d' = pd_msg d \<and> pd_wbuf d' = pd_wbuf d \<and> pd_wsize d' = pd_wsize d \<and> pd_wpos d' = pd_wpos d"
  by (cases d; cases d') (simp add: set_pnext_def)

lemma node_out_relinked:
  assumes "relinked set_pnext ph ph'" "relinked set_next mh mh'" "node_out ph mh d bs"
  shows "node_out ph' mh' d bs"
proof -
  from assms(3) obtain pd m where o: "hget ph d = Inr pd" "hget mh (pd_msg pd) = Inr m" "pd_wbuf pd = pd_msg pd" "\<not> m_close_conn m"
    "0 \<le> pd_wpos pd" "pd_wsize pd = pd_wpos pd + int (length bs)" "bs \<noteq> []" "rd_bytes (m_b m) (nat (pd_wpos pd)) (length bs) = Inr bs"
    by (auto simp: node_out_def)
  obtain pd' m' where "hget ph' d = Inr pd'" "set_pnext 0 pd' = set_pnext 0 pd" "hget mh' (pd_msg pd) = Inr m'" "set_next 0 m' = set_next 0 m"
    using relinked_get[OF assms(1) o(1)] relinked_get[OF assms(2) o(2)] by blast
  with o show ?thesis using set_pnext_rest[of pd' pd] set_next_rest[of m' m] by (auto simp: node_out_def)
qed

lemma node_out_frame:
  assumes "node_out ph mh d bs" "h_cells ph' d = h_cells ph d" "h_cells mh' (msg_at ph d) = h_cells mh (msg_at ph d)"
  shows "node_out ph' mh' d bs"
  using assms by (auto simp: node_out_def hget_Inr msg_at_def split: option.splits)

lemma list_all2_mono_on: "list_all2 P xs ys \<Longrightarrow> (\<And>x y. x \<in> set xs \<Longrightarrow> P x y \<Longrightarrow> Q x y) \<Longrightarrow> list_all2 Q xs ys"
  by (erule list.rel_mono_strong) auto

lemma msg_at_frame: "h_cells ph' d = h_cells ph d \<Longrightarrow> msg_at ph' d = msg_at ph d"
  by (simp add: msg_at_def)

text \<open>A list is not affected by what happens outside its nodes and messages.\<close>

lemma pl_holds_frame:
  assumes "pl_holds (l, ph, mh) ds" "heap_ok ph'" "heap_ok mh'" "\<And>d. d \<in> set ds \<Longrightarrow> h_cells ph' d = h_cells ph d"
    "\<And>d. d \<in> set ds \<Longrightarrow> h_cells mh' (msg_at ph d) = h_cells mh (msg_at ph d)"
  shows "pl_holds (l, ph', mh') ds"
proof -
  have m: "map (msg_at ph') ds = map (msg_at ph) ds" using assms(4) by (auto intro: msg_at_frame)
  have h: "(if ds = [] then 0 else msg_at ph' (hd ds)) = (if ds = [] then 0 else msg_at ph (hd ds))"
    using assms(4) by (auto intro: msg_at_frame)
  let ?w = "if ds = [] then 0 else msg_at ph (hd ds)" and ?ms = "map (msg_at ph) ds"
  have s: "seg pd_next ph (pl_list l) (pl_tail l) ds" "mseg mh ?w (tail_of ?ms) ?ms" "pl_list_size l = int (length ds)"
    using assms(1) by (simp_all add: pl_holds_def)
  have "seg pd_next ph' (pl_list l) (pl_tail l) ds" by (rule seg_frame[OF s(1)]) (rule assms(4))
  moreover have "mseg mh' ?w (tail_of ?ms) ?ms" by (rule seg_frame[OF s(2)]) (auto intro: assms(5))
  ultimately show ?thesis using assms(2,3) s(3) by (simp only: pl_holds_def m h prod.case)
qed

section \<open>Fetching the next push data\<close>

lemma app_next:
  assumes "out_inv 0 e ds bss"
  shows "\<exists>d e' ds'. app_getPushData e = Inr (d, e') \<and> out_inv d e' ds' bss \<and> e_wire e' = e_wire e \<and> e_closes e' = e_closes e \<and> (d = 0 \<longleftrightarrow> ds = [])"
proof (cases ds)
  case Nil
  then show ?thesis using assms pl_get_empty[of "ac_push_buffer (e_ext e)" "e_ph e" "e_mh e"]
    by (auto simp: out_inv_def app_getPushData_def)
next
  case (Cons d ds1)
  have h: "pl_holds (ac_push_buffer (e_ext e), e_ph e, e_mh e) (d # ds1)" using assms Cons by (simp add: out_inv_def)
  from pl_get_ok[OF h] obtain l' ph' mh' where p: "pl_get (ac_push_buffer (e_ext e), e_ph e, e_mh e) = Inr (d, l', ph', mh')"
    "pl_holds (l', ph', mh') ds1" "msg_at ph' = msg_at (e_ph e)" "relinked set_pnext (e_ph e) ph'" "relinked set_next (e_mh e) mh'"
    "live ph' d" "d \<notin> set ds1" by blast
  have ms: "distinct (map (msg_at (e_ph e)) (d # ds1))" "live (e_mh e) (msg_at (e_ph e) d)" using pl_holds_msgs[OF h] by auto
  have "pl_spare (l', ph', mh') d ds1" using p(3,5,6,7) ms by (auto simp: pl_spare_def relinked_live)
  moreover have "list_all2 (node_out ph' mh') (d # ds1) bss"
    using assms Cons node_out_relinked[OF p(4,5)] by (auto simp: out_inv_def cur_list_def elim: list_all2_mono)
  moreover have "d \<noteq> 0" using p(6) by (simp add: live_def)
  ultimately show ?thesis using p(1,2) Cons
    by (intro exI[of _ d] exI[of _ "e\<lparr>e_ph := ph', e_mh := mh', e_ext := (e_ext e)\<lparr>ac_push_buffer := l'\<rparr>\<rparr>"] exI[of _ ds1])
      (simp add: out_inv_def app_getPushData_def cur_list_def)
qed

section \<open>One call\<close>

text \<open>One send of a piece of the current data.\<close>

lemma send_script_quiet:
  "send_quiet sc \<Longrightarrow> 0 < n \<Longrightarrow> \<exists>sc'. send_quiet sc' \<and>
    ((\<exists>k. send_script n sc = (Wrote k, sc') \<and> 0 < k \<and> k \<le> n) \<or> send_script n sc = (Send_again, sc') \<or> send_script n sc = (Send_other, sc'))"
proof (induction sc rule: send_quiet.induct)
  case (2 er sc)
  then show ?case by (cases er) auto
qed auto

lemma node_out_sent:
  assumes "node_out ph mh d bs" "hget ph d = Inr pd" "k < length bs" "d \<noteq> 0"
  shows "node_out (hset ph d (pd\<lparr>pd_wpos := pd_wpos pd + int k\<rparr>)) mh d (drop k bs)"
proof -
  from assms(1,2) obtain m where o: "hget mh (pd_msg pd) = Inr m" "pd_wbuf pd = pd_msg pd" "\<not> m_close_conn m" "0 \<le> pd_wpos pd"
    "pd_wsize pd = pd_wpos pd + int (length bs)" "rd_bytes (m_b m) (nat (pd_wpos pd)) (length bs) = Inr bs"
    by (auto simp: node_out_def)
  have r: "nat (pd_wpos pd) + length bs \<le> length (m_b m)" "map Some bs = take (length bs) (drop (nat (pd_wpos pd)) (m_b m))"
    using o(6) by (auto simp: rd_bytes_Inr)
  have "map Some (drop k bs) = take (length bs - k) (drop (nat (pd_wpos pd) + k) (m_b m))"
    using arg_cong[OF r(2), of "drop k"] by (simp add: drop_map drop_take add.commute)
  then have "rd_bytes (m_b m) (nat (pd_wpos pd) + k) (length bs - k) = Inr (drop k bs)" using r(1) assms(3) by (simp add: rd_bytes_Inr)
  then show ?thesis using o assms(3,4) by (auto simp: node_out_def hget_hset nat_add_distrib)
qed

lemma pl_spare_notin: "pl_spare (l, ph, mh) d ds \<Longrightarrow> x \<in> set ds \<Longrightarrow> x \<noteq> d \<and> msg_at ph x \<noteq> msg_at ph d"
  by (auto simp: pl_spare_def image_iff)

text \<open>The state after \<open>k\<close> bytes of the current data were sent.\<close>

definition sent :: "nat \<Rightarrow> byte list \<Rightarrow> addr \<Rightarrow> IoPushData \<Rightarrow> 'p appenv \<Rightarrow> 'p appenv" where
  "sent k bs d pd e = e\<lparr>e_ph := hset (e_ph e) d (pd\<lparr>pd_wpos := pd_wpos pd + int k\<rparr>), e_wire := e_wire e @ take k bs\<rparr>"

lemma sent_keeps:
  assumes "out_inv d e ds (bs # bss)" "d \<noteq> 0" "hget (e_ph e) d = Inr pd" and e'_def: "e' = sent k bs d pd e"
  shows "pl_holds (ac_push_buffer (e_ext e'), e_ph e', e_mh e') ds" "pl_spare (ac_push_buffer (e_ext e'), e_ph e', e_mh e') d ds"
    "list_all2 (node_out (e_ph e') (e_mh e')) ds bss"
proof -
  let ?l = "ac_push_buffer (e_ext e)" and ?ph = "e_ph e" and ?mh = "e_mh e" and ?ph' = "hset (e_ph e) d (pd\<lparr>pd_wpos := pd_wpos pd + int k\<rparr>)"
  have i: "pl_holds (?l, ?ph, ?mh) ds" "pl_spare (?l, ?ph, ?mh) d ds" "list_all2 (node_out ?ph ?mh) ds bss"
    using assms(1,2) by (auto simp: out_inv_def cur_list_def)
  have m: "msg_at ?ph' = msg_at ?ph" using assms(3) by simp
  have o: "h_cells ?ph' x = h_cells ?ph x" if "x \<in> set ds" for x using pl_spare_notin[OF i(2) that] by (simp add: hset_def)
  have hk: "heap_ok ?ph" "heap_ok ?mh" "live ?ph d" using i(1,2) by (auto simp: pl_holds_def pl_spare_def)
  then have "heap_ok ?ph'" by simp
  from pl_holds_frame[OF i(1) this hk(2) o] show "pl_holds (ac_push_buffer (e_ext e'), e_ph e', e_mh e') ds"
    by (simp add: e'_def sent_def)
  show "pl_spare (ac_push_buffer (e_ext e'), e_ph e', e_mh e') d ds" using i(2) m assms(2) by (simp add: e'_def sent_def pl_spare_def)
  show "list_all2 (node_out (e_ph e') (e_mh e')) ds bss"
    by (rule list_all2_mono_on[OF i(3)]) (auto simp: e'_def sent_def intro: node_out_frame o)
qed

lemma write_piece:
  assumes i: "out_inv d e ds (bs # bss)" "d \<noteq> 0" and c: "c_current_push c = d"
  shows "\<exists>pd. hget (e_ph e) d = Inr pd \<and> write_data (app_vtable process destroy) (c, sc, e) = (case send_script (length bs) sc of
      (Wrote k, sc) \<Rightarrow> Inr (if k = length bs then Go (c, sc, sent k bs d pd e) else Return (c, sc, sent k bs d pd e))
    | (Send_again, sc) \<Rightarrow> Inr (Return (c, sc, e)) | (Send_other, sc) \<Rightarrow> Inr (Return (c, sc, e))
    | (Send_hard, sc) \<Rightarrow> bindr (resetSocket (app_vtable process destroy) c e) (\<lambda>(c, e). Inr (Return (c, sc, e))))"
proof -
  from i obtain pd m where o: "hget (e_ph e) d = Inr pd" "hget (e_mh e) (pd_msg pd) = Inr m" "pd_wbuf pd = pd_msg pd" "\<not> m_close_conn m"
    "0 \<le> pd_wpos pd" "pd_wsize pd = pd_wpos pd + int (length bs)" "bs \<noteq> []" "rd_bytes (m_b m) (nat (pd_wpos pd)) (length bs) = Inr bs"
    by (auto simp: out_inv_def cur_list_def node_out_def)
  then show ?thesis using c by (auto simp: write_data_def Let_def sent_def split: prod.splits send_out.splits)
qed

text \<open>Dropping the data that is written completely.\<close>

lemma destroy_written:
  assumes "pl_holds (l, ph, mh) ds" "pl_spare (l, ph, mh) d ds" "list_all2 (node_out ph mh) ds bss"
  shows "\<exists>ph' mh'. destroyMsgData d (ph, mh) = Inr (ph', mh') \<and> pl_holds (l, ph', mh') ds \<and> list_all2 (node_out ph' mh') ds bss"
proof -
  have lv: "live ph d" "live mh (msg_at ph d)" and hk: "heap_ok ph" "heap_ok mh" using assms(1,2) by (auto simp: pl_spare_def pl_holds_def)
  then obtain pd where pd: "hget ph d = Inr pd" "msg_at ph d = pd_msg pd" using msg_at_hget by (auto simp: live_iff_hget)
  have "destroyMsgData d (ph, mh) = Inr (freed ph {d}, freed mh {msg_at ph d})"
    using pd lv by (cases "pd_freev pd") (simp add: destroyMsgData_def releaseIMessage_def destroyPushData_def hfree_freed live_def)
  moreover have "pl_holds (l, freed ph {d}, freed mh {msg_at ph d}) ds"
    using pl_spare_notin[OF assms(2)] hk by (intro pl_holds_frame[OF assms(1)]) auto
  moreover have "list_all2 (node_out (freed ph {d}) (freed mh {msg_at ph d})) ds bss"
    by (rule list_all2_mono_on[OF assms(3)]) (use pl_spare_notin[OF assms(2)] in \<open>auto intro!: node_out_frame[of ph mh]\<close>)
  ultimately show ?thesis by blast
qed

lemma turn_to_reading [simp]:
  "c_current_push (setRead b (setWrite' b' c)) = c_current_push c" "c_wsock_state (setRead b (setWrite' b' c)) = c_wsock_state c"
  by (simp_all add: setRead_def setWrite'_def setReadFlag_def setWriteFlag_def Let_def)

lemma next_push_app:
  assumes "out_inv 0 e ds bss"
  shows "\<exists>d e' ds'. next_push (app_vtable process destroy) (c, sc, e) = Inr (if d = 0 then Return (setRead True (setWrite' False (c\<lparr>c_current_push := 0\<rparr>)), sc, e')
      else Go (c\<lparr>c_current_push := d\<rparr>, sc, e')) \<and> out_inv d e' ds' bss \<and> e_wire e' = e_wire e \<and> e_closes e' = e_closes e \<and> (d = 0 \<longleftrightarrow> bss = [])"
proof -
  from app_next[OF assms] obtain d e' ds' where a: "app_getPushData e = Inr (d, e')" "out_inv d e' ds' bss" "e_wire e' = e_wire e"
    "e_closes e' = e_closes e" "d = 0 \<longleftrightarrow> ds = []" by blast
  have "bss = [] \<longleftrightarrow> ds = []" using assms by (auto simp: out_inv_def cur_list_def)
  with a show ?thesis by (intro exI[of _ d] exI[of _ e'] exI[of _ ds']) (auto simp: next_push_def app_vtable_def Let_def)
qed

lemma write_done_app:
  assumes "pl_holds (ac_push_buffer (e_ext e), e_ph e, e_mh e) ds" "pl_spare (ac_push_buffer (e_ext e), e_ph e, e_mh e) (c_current_push c) ds"
    "list_all2 (node_out (e_ph e) (e_mh e)) ds bss" "c_wsock_state c = SOCKET_DATA_WRITE"
  shows "\<exists>c' e' ds'. run_flow (write_done (app_vtable process destroy) (c, sc, e)) = Inr (c', sc, e') \<and> out_inv (c_current_push c') e' ds' bss \<and>
    e_wire e' = e_wire e \<and> e_closes e' = e_closes e \<and> c_wsock_state c' = SOCKET_DATA_WRITE"
proof -
  from destroy_written[OF assms(1-3)] obtain ph' mh' where d: "destroyMsgData (c_current_push c) (e_ph e, e_mh e) = Inr (ph', mh')"
    "pl_holds (ac_push_buffer (e_ext e), ph', mh') ds" "list_all2 (node_out ph' mh') ds bss" by blast
  then have "out_inv 0 (e\<lparr>e_ph := ph', e_mh := mh'\<rparr>) ds bss" by (simp add: out_inv_def cur_list_def)
  from next_push_app[OF this, of process destroy c sc] obtain d e' ds' where n:
    "next_push (app_vtable process destroy) (c, sc, e\<lparr>e_ph := ph', e_mh := mh'\<rparr>) = Inr (if d = 0 then Return (setRead True (setWrite' False (c\<lparr>c_current_push := 0\<rparr>)), sc, e')
      else Go (c\<lparr>c_current_push := d\<rparr>, sc, e'))" "out_inv d e' ds' bss" "e_wire e' = e_wire e" "e_closes e' = e_closes e" by auto
  then have w: "write_done (app_vtable process destroy) (c, sc, e) = Inr (if d = 0 then Return (setRead True (setWrite' False (c\<lparr>c_current_push := 0\<rparr>)), sc, e')
      else Go (c\<lparr>c_current_push := d\<rparr>, sc, e'))" using d(1) by (simp add: write_done_def)
  show ?thesis
  proof (cases "d = 0")
    case True
    then show ?thesis using w n assms(4) by (intro exI[of _ "setRead True (setWrite' False (c\<lparr>c_current_push := 0\<rparr>))"] exI[of _ e'] exI[of _ ds']) simp
  next
    case False
    then show ?thesis using w n assms(4) by (intro exI[of _ "c\<lparr>c_current_push := d\<rparr>"] exI[of _ e'] exI[of _ ds']) simp
  qed
qed

lemma writeSocket_data:
  "c_wsock_state c = SOCKET_DATA_WRITE \<Longrightarrow> writeSocket so vt (c, sc, e) =
    run_flow (andthen (andthen (if c_current_push c = 0 then next_push vt (c, sc, e) else Inr (Go (c, sc, e))) (write_data vt)) (write_done vt))"
  by (simp add: writeSocket_def run_flow_def)

definition write_progress :: "send_ev list \<Rightarrow> byte list list \<Rightarrow> send_ev list \<Rightarrow> byte list list \<Rightarrow> bool" where
  "write_progress sc bss sc' bss' \<longleftrightarrow> (if bss = [] then bss' = [] \<and> sc' = sc
     else \<forall>k sc1. sc = Sent k # sc1 \<longrightarrow> sc' = sc1 \<and> length (concat bss') < length (concat bss))"

text \<open>What a call leaves behind, relative to the state it started in.\<close>

definition wrote :: "send_ev list \<Rightarrow> 'p appenv \<Rightarrow> byte list list \<Rightarrow> 'p IoAppConnection wstate res \<Rightarrow> bool" where
  "wrote sc e bss R \<longleftrightarrow> (\<exists>c' sc' e' ds' bss'. R = Inr (c', sc', e') \<and> out_inv (c_current_push c') e' ds' bss' \<and>
    e_wire e' @ concat bss' = e_wire e @ concat bss \<and> e_closes e' = e_closes e \<and> send_quiet sc' \<and> c_wsock_state c' = SOCKET_DATA_WRITE \<and>
    write_progress sc bss sc' bss')"

lemma wroteI:
  "R = Inr (c', sc', e') \<Longrightarrow> out_inv (c_current_push c') e' ds' bss' \<Longrightarrow> e_wire e' @ concat bss' = e_wire e @ concat bss \<Longrightarrow>
   e_closes e' = e_closes e \<Longrightarrow> send_quiet sc' \<Longrightarrow> c_wsock_state c' = SOCKET_DATA_WRITE \<Longrightarrow> write_progress sc bss sc' bss' \<Longrightarrow> wrote sc e bss R"
  unfolding wrote_def by blast

lemma write_current:
  assumes i: "out_inv (c_current_push c) e ds (bs # bss)" "c_current_push c \<noteq> 0" and q: "send_quiet sc" and w: "c_wsock_state c = SOCKET_DATA_WRITE"
  shows "wrote sc e (bs # bss) (run_flow (andthen (write_data (app_vtable process destroy) (c, sc, e)) (write_done (app_vtable process destroy))))"
proof -
  let ?vt = "app_vtable process destroy" and ?d = "c_current_push c"
  have ne: "bs \<noteq> []" using i by (auto simp: out_inv_def cur_list_def node_out_def)
  from write_piece[OF i refl, of process destroy sc] obtain pd where pd: "hget (e_ph e) ?d = Inr pd" and
    wd: "write_data ?vt (c, sc, e) = (case send_script (length bs) sc of
      (Wrote k, sc) \<Rightarrow> Inr (if k = length bs then Go (c, sc, sent k bs ?d pd e) else Return (c, sc, sent k bs ?d pd e))
    | (Send_again, sc) \<Rightarrow> Inr (Return (c, sc, e)) | (Send_other, sc) \<Rightarrow> Inr (Return (c, sc, e))
    | (Send_hard, sc) \<Rightarrow> bindr (resetSocket ?vt c e) (\<lambda>(c, e). Inr (Return (c, sc, e))))" by blast
  from send_script_quiet[OF q, of "length bs"] ne obtain sc' where q': "send_quiet sc'" and
    cs: "(\<exists>k. send_script (length bs) sc = (Wrote k, sc') \<and> 0 < k \<and> k \<le> length bs) \<or> send_script (length bs) sc = (Send_again, sc') \<or>
      send_script (length bs) sc = (Send_other, sc')" by auto
  from cs consider (part) k where "send_script (length bs) sc = (Wrote k, sc')" "0 < k" "k < length bs"
    | (all) "send_script (length bs) sc = (Wrote (length bs), sc')"
    | (none) "send_script (length bs) sc = (Send_again, sc') \<or> send_script (length bs) sc = (Send_other, sc')"
    using le_neq_implies_less by blast
  then show ?thesis
  proof cases
    case part
    let ?e = "sent k bs ?d pd e"
    have "node_out (e_ph e) (e_mh e) ?d bs" using i by (simp add: out_inv_def cur_list_def)
    from node_out_sent[OF this pd part(3) i(2)] sent_keeps[OF i pd refl, of k]
    have "out_inv ?d ?e ds (drop k bs # bss)" using i(2) by (simp add: out_inv_def cur_list_def sent_def)
    moreover have "write_progress sc (bs # bss) sc' (drop k bs # bss)" using part by (auto simp: write_progress_def)
    moreover have "write_data ?vt (c, sc, e) = Inr (Return (c, sc', ?e))" using wd part by simp
    moreover have "e_wire ?e @ concat (drop k bs # bss) = e_wire e @ concat (bs # bss)" "e_closes ?e = e_closes e" by (simp_all add: sent_def)
    ultimately show ?thesis using q' w by (intro wroteI[where c' = c and e' = ?e and sc' = sc']) simp_all
  next
    case all
    let ?e = "sent (length bs) bs ?d pd e"
    from write_done_app[OF sent_keeps[OF i pd refl, of "length bs"] w, of process destroy sc'] obtain c' e' ds' where
      r: "run_flow (write_done ?vt (c, sc', ?e)) = Inr (c', sc', e')" "out_inv (c_current_push c') e' ds' bss"
      "e_wire e' = e_wire ?e" "e_closes e' = e_closes ?e" "c_wsock_state c' = SOCKET_DATA_WRITE" by auto
    moreover have "write_progress sc (bs # bss) sc' bss" using all ne by (auto simp: write_progress_def)
    moreover have "write_data ?vt (c, sc, e) = Inr (Go (c, sc', ?e))" using wd all by simp
    moreover have "e_wire ?e @ concat bss = e_wire e @ concat (bs # bss)" "e_closes ?e = e_closes e" by (simp_all add: sent_def)
    ultimately show ?thesis using q' by (intro wroteI[where c' = c' and e' = e' and sc' = sc' and ds' = ds' and bss' = bss]) simp_all
  next
    case none
    then have "write_data ?vt (c, sc, e) = Inr (Return (c, sc', e))" using wd by auto
    moreover have "write_progress sc (bs # bss) sc' (bs # bss)" using none by (auto simp: write_progress_def)
    ultimately show ?thesis using i q' w by (intro wroteI[where c' = c and e' = e and sc' = sc']) auto
  qed
qed

lemma write_step:
  assumes i: "out_inv (c_current_push c) e ds bss" and q: "send_quiet sc" and w: "c_wsock_state c = SOCKET_DATA_WRITE"
  shows "wrote sc e bss (writeSocket so (app_vtable process destroy) (c, sc, e))"
proof (cases "c_current_push c = 0")
  case False
  then obtain bs bss' where "bss = bs # bss'" using i by (cases bss) (auto simp: out_inv_def cur_list_def)
  then show ?thesis using write_current[of c e ds bs bss' sc process destroy] False i q w by (simp add: writeSocket_data)
next
  case True
  have i0: "out_inv 0 e ds bss" using i True by simp
  from next_push_app[OF i0, of process destroy c sc] obtain d e' ds' where n:
    "next_push (app_vtable process destroy) (c, sc, e) = Inr (if d = 0 then Return (setRead True (setWrite' False (c\<lparr>c_current_push := 0\<rparr>)), sc, e')
      else Go (c\<lparr>c_current_push := d\<rparr>, sc, e'))" "out_inv d e' ds' bss" "e_wire e' = e_wire e" "e_closes e' = e_closes e" "d = 0 \<longleftrightarrow> bss = []"
    by blast
  show ?thesis
  proof (cases "d = 0")
    case t: True
    let ?c = "setRead True (setWrite' False (c\<lparr>c_current_push := 0\<rparr>))"
    have "writeSocket so (app_vtable process destroy) (c, sc, e) = Inr (?c, sc, e')" using n(1) t True w by (simp add: writeSocket_data)
    moreover have "out_inv (c_current_push ?c) e' ds' bss" "c_wsock_state ?c = SOCKET_DATA_WRITE" using n(2) t w by simp_all
    moreover have "write_progress sc bss sc bss" using t n(5) by (simp add: write_progress_def)
    ultimately show ?thesis using n(3,4) q by (intro wroteI[where c' = ?c and e' = e' and sc' = sc and ds' = ds' and bss' = bss]) simp_all
  next
    case False
    then obtain bs bss' where b: "bss = bs # bss'" using n(5) by (cases bss) auto
    have "wrote sc e' (bs # bss') (run_flow (andthen (write_data (app_vtable process destroy) (c\<lparr>c_current_push := d\<rparr>, sc, e')) (write_done (app_vtable process destroy))))"
      using write_current[of "c\<lparr>c_current_push := d\<rparr>" e' ds' bs bss' sc process destroy] n(2) b False q w by simp
    then have "wrote sc e bss (run_flow (andthen (write_data (app_vtable process destroy) (c\<lparr>c_current_push := d\<rparr>, sc, e')) (write_done (app_vtable process destroy))))"
      unfolding wrote_def n(3,4) b .
    then show ?thesis using n(1) False True w by (simp add: writeSocket_data)
  qed
qed

section \<open>Pushing\<close>

text \<open>A message with the complete frame \<open>f\<close> that does not ask for the connection to be closed.\<close>

definition msg_frame :: "mheap \<Rightarrow> addr \<Rightarrow> byte list \<Rightarrow> bool" where
  "msg_frame mh msg f \<longleftrightarrow> (case hget mh msg of Inl _ \<Rightarrow> False | Inr m \<Rightarrow> load_frame m = Inr f \<and> f \<noteq> [] \<and> \<not> m_close_conn m)"

lemma load_frame_len: "load_frame m = Inr f \<Longrightarrow> m_frame_len m = int (length f) \<and> rd_bytes (m_b m) 0 (length f) = Inr f"
proof -
  assume l: "load_frame m = Inr f"
  then have r: "0 \<le> m_frame_len m" "rd_bytes (m_b m) 0 (nat (m_frame_len m)) = Inr f" by (auto simp: load_frame_def split: if_splits)
  then have "length f = nat (m_frame_len m)" by (metis rd_bytes_Inr length_map length_take min_absorb2 drop0 add_0)
  with r show ?thesis by simp
qed

lemma msg_frame_relinked: "relinked set_next mh mh' \<Longrightarrow> msg_frame mh msg f \<Longrightarrow> msg_frame mh' msg f"
proof -
  assume r: "relinked set_next mh mh'" and f: "msg_frame mh msg f"
  then obtain m where m: "hget mh msg = Inr m" by (auto simp: msg_frame_def split: sum.splits)
  from relinked_get[OF r m] obtain m' where m': "hget mh' msg = Inr m'" "set_next 0 m' = set_next 0 m" by blast
  then have "load_frame m' = load_frame m"
    unfolding load_frame_def by (metis IMessage.ext_inject IMessage.surjective IMessage.update_convs(23) set_next_def)
  with m m' f set_next_rest[OF m'(2)] show ?thesis by (simp add: msg_frame_def)
qed

lemma pushMsgData_ok:
  assumes i: "out_inv cur e ds bss" and f: "msg_frame (e_mh e) msg f" and new: "msg \<notin> msg_at (e_ph e) ` set (cur_list cur @ ds)"
    and room: "h_brk (e_ph e) < h_lim (e_ph e)"
  defines "d \<equiv> h_brk (e_ph e)"
  shows "\<exists>e'. pushMsgData junk msg e = Inr e' \<and> out_inv cur e' (ds @ [d]) (bss @ [f]) \<and> e_wire e' = e_wire e \<and>
    h_brk (e_ph e') = Suc d \<and> h_lim (e_ph e') = h_lim (e_ph e) \<and> relinked set_next (e_mh e) (e_mh e') \<and>
    msg_at (e_ph e') ` set (cur_list cur @ ds @ [d]) = insert msg (msg_at (e_ph e) ` set (cur_list cur @ ds))"
proof -
  let ?l = "ac_push_buffer (e_ext e)" and ?ph = "e_ph e" and ?mh = "e_mh e"
  from f obtain m where m: "hget ?mh msg = Inr m" "load_frame m = Inr f" "f \<noteq> []" "\<not> m_close_conn m"
    by (auto simp: msg_frame_def split: sum.splits)
  define pd where "pd = junk\<lparr>pd_next := 0, pd_msg := msg, pd_freev := Fn_releaseIMessage, pd_wbuf := msg, pd_wsize := m_frame_len m, pd_wpos := 0\<rparr>"
  define ph1 where "ph1 = hnew pd ?ph"
  have h: "pl_holds (?l, ?ph, ?mh) ds" "cur \<noteq> 0 \<longrightarrow> pl_spare (?l, ?ph, ?mh) cur ds" "list_all2 (node_out ?ph ?mh) (cur_list cur @ ds) bss"
    using i by (auto simp: out_inv_def)
  have hk: "heap_ok ?ph" "heap_ok ?mh" using h(1) by (auto simp: pl_holds_def)
  have old: "x \<noteq> d \<and> h_cells ph1 x = h_cells ?ph x" if "live ?ph x" for x
    using that hk(1) by (auto simp: ph1_def hnew_def d_def live_def heap_ok_def)
  have lv: "live ?ph x" if "x \<in> set (cur_list cur @ ds)" for x
    using that h(1,2) seg_live[of pd_next ?ph _ _ ds] by (auto simp: cur_list_def pl_holds_def pl_spare_def split: if_splits)
  have ok1: "heap_ok ph1" using hk(1) by (simp add: ph1_def)
  have md: "msg_at ph1 d = msg" by (simp add: msg_at_def ph1_def hnew_def d_def pd_def)
  have mo: "msg_at ph1 x = msg_at ?ph x" if "x \<in> set (cur_list cur @ ds)" for x using old lv[OF that] by (simp add: msg_at_def)
  have h1: "pl_holds (?l, ph1, ?mh) ds" using old lv by (intro pl_holds_frame[OF h(1) ok1 hk(2)]) auto
  have "pl_spare (?l, ph1, ?mh) d ds"
    using old lv md mo new m(1) hk(1) by (auto simp: pl_spare_def live_iff_hget ph1_def hget_hnew d_def image_iff)
  from pl_put_ok[OF h1 this] obtain l' ph' mh' where p: "pl_put d (?l, ph1, ?mh) = Inr (l', ph', mh')" "pl_holds (l', ph', mh') (ds @ [d])"
    "msg_at ph' = msg_at ph1" "relinked set_pnext ph1 ph'" "relinked set_next ?mh mh'" by blast
  define e' where "e' = e\<lparr>e_ph := ph', e_mh := mh', e_ext := (e_ext e)\<lparr>ac_push_buffer := l'\<rparr>\<rparr>"
  have d0: "d \<noteq> 0" using hk(1) by (simp add: d_def heap_ok_def)
  have "pushMsgData junk msg e = Inr e'"
  proof -
    have "createPushData junk ?ph = Inr (d, hnew junk ?ph)" using room d0 by (simp add: createPushData_def halloc_room d_def)
    moreover have "hmod (hnew junk ?ph) d (\<lambda>d. d\<lparr>pd_next := 0, pd_msg := msg, pd_freev := Fn_releaseIMessage, pd_wbuf := msg,
        pd_wsize := m_frame_len m, pd_wpos := 0\<rparr>) = Inr ph1"
      using hmod_hnew[OF hk(1)] by (simp add: d_def ph1_def pd_def)
    ultimately show ?thesis using m(1) p(1) by (simp add: pushMsgData_def e'_def)
  qed
  moreover have "out_inv cur e' (ds @ [d]) (bss @ [f])"
  proof -
    have la: "list_all2 (node_out ph' mh') (cur_list cur @ ds) bss"
      by (rule list_all2_mono_on[OF h(3)]) (use old lv in \<open>auto intro: node_out_relinked[OF p(4,5)] node_out_frame[of ?ph ?mh]\<close>)
    have no: "node_out ph' mh' d f"
    proof (rule node_out_relinked[OF p(4,5)])
      have "hget ph1 d = Inr pd" using hk(1) by (simp add: ph1_def hget_hnew d_def)
      moreover have "pd_msg pd = msg" "pd_wbuf pd = msg" "pd_wpos pd = 0" "pd_wsize pd = int (length f)"
        using load_frame_len[OF m(2)] by (simp_all add: pd_def)
      ultimately show "node_out ph1 ?mh d f" using m load_frame_len[OF m(2)] unfolding node_out_def
        by (intro exI[of _ pd] exI[of _ m]) simp
    qed
    have ca: "pl_spare (l', ph', mh') cur (ds @ [d])" if c0: "cur \<noteq> 0"
    proof -
      have c: "cur \<in> set (cur_list cur @ ds)" using c0 by (simp add: cur_list_def)
      have sp: "live ?ph cur" "cur \<notin> set ds" "live ?mh (msg_at ?ph cur)" "msg_at ?ph cur \<notin> set (map (msg_at ?ph) ds)"
        using h(2) c0 by (auto simp: pl_spare_def)
      have ms: "map (msg_at ph') (ds @ [d]) = map (msg_at ?ph) ds @ [msg]" using mo md unfolding p(3) by simp
      have mc: "msg_at ph' cur = msg_at ?ph cur" using mo[OF c] p(3) by simp
      have "live ph1 cur" using sp(1) old by (simp add: live_def)
      then have lv': "live ph' cur" "live mh' (msg_at ph' cur)" using relinked_live[OF p(4)] relinked_live[OF p(5)] sp(3) mc by auto
      have nm: "msg_at ?ph cur \<noteq> msg" using new c by auto
      show ?thesis using lv' sp(2,4) old[OF sp(1)] nm unfolding pl_spare_def prod.case ms mc by simp
    qed
    have "list_all2 (node_out ph' mh') ((cur_list cur @ ds) @ [d]) (bss @ [f])" using la no by (intro list_all2_appendI) simp_all
    then show ?thesis using p(2) ca by (simp add: out_inv_def e'_def)
  qed
  moreover have "h_brk ph' = Suc d" "h_lim ph' = h_lim ?ph" using p(4) by (simp_all add: relinked_def ph1_def hnew_def d_def)
  moreover have "msg_at ph' ` set (cur_list cur @ ds @ [d]) = insert msg (msg_at ?ph ` set (cur_list cur @ ds))"
    using mo md unfolding p(3) by (auto simp: image_iff)
  ultimately show ?thesis using p(5) by (intro exI[of _ e']) (simp add: e'_def)
qed

section \<open>Properties\<close>

primrec write_calls :: "nat \<Rightarrow> int \<Rightarrow> 'x vtable \<Rightarrow> 'x wstate \<Rightarrow> 'x wstate res" where
  "write_calls 0 so vt s = Inr s"
| "write_calls (Suc n) so vt s = bindr (writeSocket so vt s) (write_calls n so vt)"

lemma write_calls_conserve:
  assumes "out_inv (c_current_push c) e ds bss" "send_quiet sc" "c_wsock_state c = SOCKET_DATA_WRITE"
  shows "\<exists>c' sc' e' ds' bss'. write_calls n so (app_vtable process destroy) (c, sc, e) = Inr (c', sc', e') \<and> out_inv (c_current_push c') e' ds' bss' \<and>
    e_wire e' @ concat bss' = e_wire e @ concat bss \<and> e_closes e' = e_closes e"
  using assms
proof (induction n arbitrary: c sc e ds bss)
  case 0
  then show ?case by auto
next
  case (Suc n)
  from write_step[OF Suc.prems, of so process destroy] obtain c1 sc1 e1 ds1 bss1 where st:
    "writeSocket so (app_vtable process destroy) (c, sc, e) = Inr (c1, sc1, e1)" "out_inv (c_current_push c1) e1 ds1 bss1"
    "e_wire e1 @ concat bss1 = e_wire e @ concat bss" "e_closes e1 = e_closes e" "send_quiet sc1" "c_wsock_state c1 = SOCKET_DATA_WRITE"
    unfolding wrote_def by blast
  from Suc.IH[OF st(2,5,6)] st show ?case by simp
qed

lemma send_quiet_Sent: "send_quiet (map Sent ks)"
  by (induction ks) auto

lemma write_calls_drain:
  assumes "out_inv (c_current_push c) e ds bss" "c_wsock_state c = SOCKET_DATA_WRITE" "length (concat bss) \<le> n" "length (concat bss) \<le> length ks"
  shows "\<exists>c' sc' e'. write_calls n so (app_vtable process destroy) (c, map Sent ks, e) = Inr (c', sc', e') \<and> out_inv 0 e' [] [] \<and> c_current_push c' = 0 \<and>
    e_wire e' = e_wire e @ concat bss"
  using assms
proof (induction n arbitrary: c ks e ds bss)
  case 0
  then have "concat bss = []" by simp
  moreover have "\<forall>bs \<in> set bss. bs \<noteq> []" using 0(1) by (auto simp: out_inv_def node_out_def list_all2_conv_all_nth set_conv_nth)
  ultimately have "bss = []" by (cases bss) auto
  then show ?case using 0 by (auto simp: out_inv_def cur_list_def split: if_splits)
next
  case (Suc n)
  from write_step[OF Suc.prems(1) send_quiet_Sent Suc.prems(2), of ks so process destroy] obtain c1 sc1 e1 ds1 bss1 where st:
    "writeSocket so (app_vtable process destroy) (c, map Sent ks, e) = Inr (c1, sc1, e1)" "out_inv (c_current_push c1) e1 ds1 bss1"
    "e_wire e1 @ concat bss1 = e_wire e @ concat bss" "c_wsock_state c1 = SOCKET_DATA_WRITE" "write_progress (map Sent ks) bss sc1 bss1"
    unfolding wrote_def by blast
  have "\<exists>ks1. sc1 = map Sent ks1 \<and> length (concat bss1) \<le> n \<and> length (concat bss1) \<le> length ks1"
  proof (cases "bss = []")
    case True
    then show ?thesis using st(5) by (intro exI[of _ ks]) (simp add: write_progress_def)
  next
    case False
    have "\<forall>bs \<in> set bss. bs \<noteq> []" using Suc.prems(1) by (auto simp: out_inv_def node_out_def list_all2_conv_all_nth set_conv_nth)
    then have "concat bss \<noteq> []" using False by (cases bss) auto
    then obtain k ks1 where "ks = k # ks1" using Suc.prems(4) by (cases ks) auto
    then show ?thesis using st(5) False Suc.prems(3,4) by (auto simp: write_progress_def)
  qed
  then obtain ks1 where "sc1 = map Sent ks1" "length (concat bss1) \<le> n" "length (concat bss1) \<le> length ks1" by blast
  with Suc.IH[OF st(2,4), of ks1] st(1,3) show ?case by auto
qed

primrec push_all :: "IoPushData \<Rightarrow> addr list \<Rightarrow> 'p appenv \<Rightarrow> 'p appenv res" where
  "push_all junk [] e = Inr e"
| "push_all junk (m # ms) e = bindr (pushMsgData junk m e) (push_all junk ms)"

lemma push_all_ok:
  assumes "out_inv cur e ds bss" "list_all2 (msg_frame (e_mh e)) ms fs" "distinct ms"
    "set ms \<inter> msg_at (e_ph e) ` set (cur_list cur @ ds) = {}" "h_brk (e_ph e) + length ms \<le> h_lim (e_ph e)"
  shows "\<exists>e' ds'. push_all junk ms e = Inr e' \<and> out_inv cur e' ds' (bss @ fs) \<and> e_wire e' = e_wire e"
  using assms
proof (induction ms arbitrary: e ds bss fs)
  case Nil
  then show ?case by auto
next
  case (Cons m ms)
  from Cons.prems(2) obtain f fs' where f: "fs = f # fs'" "msg_frame (e_mh e) m f" "list_all2 (msg_frame (e_mh e)) ms fs'" by (cases fs) auto
  from pushMsgData_ok[OF Cons.prems(1) f(2), of junk] Cons.prems(4,5) obtain e1 where e1: "pushMsgData junk m e = Inr e1"
    "out_inv cur e1 (ds @ [h_brk (e_ph e)]) (bss @ [f])" "e_wire e1 = e_wire e" "h_brk (e_ph e1) = Suc (h_brk (e_ph e))"
    "h_lim (e_ph e1) = h_lim (e_ph e)" "relinked set_next (e_mh e) (e_mh e1)"
    "msg_at (e_ph e1) ` set (cur_list cur @ ds @ [h_brk (e_ph e)]) = insert m (msg_at (e_ph e) ` set (cur_list cur @ ds))" by auto
  have a: "list_all2 (msg_frame (e_mh e1)) ms fs'" using f(3) msg_frame_relinked[OF e1(6)] by (rule list_all2_mono)
  have b: "set ms \<inter> msg_at (e_ph e1) ` set (cur_list cur @ ds @ [h_brk (e_ph e)]) = {}" unfolding e1(7) using Cons.prems(3,4) by auto
  have c: "h_brk (e_ph e1) + length ms \<le> h_lim (e_ph e1)" using Cons.prems(5) e1(4,5) by simp
  from Cons.IH[OF e1(2) a _ b c] Cons.prems(3) e1(1,3) f(1) show ?case by auto
qed

text \<open>
  C33: every byte pushed to a connection is sent exactly once and in order. Messages pushed to an idle connection go out, over any
  sequence of partial sends that is long enough, as the concatenation of their frames, and the connection
  is idle again.
\<close>

theorem pushed_messages_go_out:
  assumes "out_inv 0 e [] []" "list_all2 (msg_frame (e_mh e)) ms fs" "distinct ms" "h_brk (e_ph e) + length ms \<le> h_lim (e_ph e)"
    and "c_current_push c = 0" "c_wsock_state c = SOCKET_DATA_WRITE" "length (concat fs) \<le> n" "length (concat fs) \<le> length ks"
  shows "\<exists>e1 c' sc' e'. push_all junk ms e = Inr e1 \<and> write_calls n so (app_vtable process destroy) (c, map Sent ks, e1) = Inr (c', sc', e') \<and>
    e_wire e' = e_wire e @ concat fs \<and> out_inv 0 e' [] [] \<and> c_current_push c' = 0"
proof -
  from push_all_ok[OF assms(1-3) _ assms(4), of junk] obtain e1 ds1 where e1: "push_all junk ms e = Inr e1" "out_inv 0 e1 ds1 fs" "e_wire e1 = e_wire e"
    by (auto simp: cur_list_def)
  from write_calls_drain[of c e1 ds1 fs n ks so process destroy] e1 assms(5-8) show ?thesis by auto
qed

definition demo_out :: "addr list appenv" where
  "demo_out = demo_env\<lparr>e_mh := hnew (app_message demo_conn demo_app [7]) (heap_empty 100)\<rparr>"

definition demo_junk :: IoPushData where
  "demo_junk = \<lparr>pd_next = 9, pd_msg = 9, pd_freev = Fn_releaseIMessage, pd_wbuf = 9, pd_wsize = 9, pd_wpos = 9\<rparr>"

lemma demo_out_frame: "list_all2 (msg_frame (e_mh demo_out)) [1] [frame_of [7]]" "out_inv 0 demo_out [] []" "h_brk (e_ph demo_out) = 1" "h_lim (e_ph demo_out) = 100"
proof -
  have h: "heap_ok (heap_empty 100 :: mheap)" "heap_ok (heap_empty 100 :: pheap)" "h_brk (heap_empty 100 :: mheap) = 1" by (simp_all add: heap_empty_def heap_ok_def)
  then have "hget (e_mh demo_out) 1 = Inr (app_message demo_conn demo_app [7])" by (simp add: demo_out_def hget_hnew)
  moreover have "\<not> m_close_conn (app_message demo_conn demo_app [7])" by (simp add: app_message_def new_IMessage_def)
  ultimately show "list_all2 (msg_frame (e_mh demo_out)) [1] [frame_of [7]]" by (simp add: msg_frame_def app_message_data frame_of_header)
  show "out_inv 0 demo_out [] []" using h by (simp add: out_inv_def demo_out_def demo_env_def demo_app_def pl_holds_def pl_new_def cur_list_def)
  show "h_brk (e_ph demo_out) = 1" "h_lim (e_ph demo_out) = 100" by (simp_all add: demo_out_def demo_env_def heap_empty_def)
qed

lemma demo_conn_write: "c_current_push demo_conn = 0" "c_wsock_state demo_conn = SOCKET_DATA_WRITE"
  by (simp_all add: demo_conn_def conn_initialize_def)

theorem pushed_messages_go_out_witness:
  "\<exists>e1 c' sc' e'. push_all demo_junk [1] demo_out = Inr e1 \<and>
    write_calls 9 0 (app_vtable note_msg (\<lambda>c e. Inr e)) (demo_conn, map Sent [4, 1, 1, 1, 1, 1, 1, 1, 1], e1) = Inr (c', sc', e') \<and> e_wire e' = frame_of [7]"
proof -
  have w: "e_wire demo_out = []" by (simp add: demo_out_def demo_env_def)
  have r: "h_brk (e_ph demo_out) + length [1 :: addr] \<le> h_lim (e_ph demo_out)" by (simp add: demo_out_frame)
  have l: "distinct [1 :: addr]" "length (concat [frame_of [7]]) \<le> 9" "length (concat [frame_of [7]]) \<le> length [4, 1, 1, 1, 1, 1, 1, 1, 1 :: nat]" by simp_all
  from pushed_messages_go_out[OF demo_out_frame(2,1) l(1) r demo_conn_write l(2,3), of demo_junk 0 note_msg "\<lambda>c e. Inr e"] obtain e1 c' sc' e' where
    "push_all demo_junk [1] demo_out = Inr e1" "e_wire e' = e_wire demo_out @ concat [frame_of [7]]"
    "write_calls 9 0 (app_vtable note_msg (\<lambda>c e. Inr e)) (demo_conn, map Sent [4, 1, 1, 1, 1, 1, 1, 1, 1], e1) = Inr (c', sc', e')" by blast
  then show ?thesis using w by (intro exI[of _ e1] exI[of _ c'] exI[of _ sc'] exI[of _ e']) (simp only: concat.simps append_Nil append_Nil2 simp_thms)
qed

text \<open>
  whatever the socket does short of a hard error, and after any number of calls, the bytes already sent followed by the bytes
  still queued are the same sequence, and the connection is not closed.
\<close>

lemma output_conserved:
  assumes "out_inv (c_current_push c) e ds bss" "send_quiet sc" "c_wsock_state c = SOCKET_DATA_WRITE"
  shows "\<exists>c' sc' e' ds' bss'. write_calls n so (app_vtable process destroy) (c, sc, e) = Inr (c', sc', e') \<and> out_inv (c_current_push c') e' ds' bss' \<and>
    e_wire e' @ concat bss' = e_wire e @ concat bss \<and> e_closes e' = e_closes e"
  by (rule write_calls_conserve[OF assms])

end
