(* ===== verification/LinkedList.thy ===== *)
theory LinkedList
  imports Prelude
begin

text \<open>
  The circular doubly linked lists with a sentinel: \<open>framework/lib/linked_list.h\<close> and the copy the RPC client
  library has in \<open>thrift/pilot/linked_list.h\<close>.

  All links live in one store with a map for each of the two fields, so that several lists (and the
  statements of one operation, which may alias) share it. A list is the address of its sentinel; an entry
  is the address of its link field, and the null pointer is 0. \<open>ring L hdr xs\<close> says that the list at
  \<open>hdr\<close> holds \<open>xs\<close>.
\<close>

section \<open>LinkedListType\<close>

record links =
  ln_next :: "addr \<Rightarrow> addr"
  ln_prev :: "addr \<Rightarrow> addr"

definition setn :: "addr \<Rightarrow> addr \<Rightarrow> links \<Rightarrow> links" where
  "setn a v L = L\<lparr>ln_next := (ln_next L)(a := v)\<rparr>"

definition setp :: "addr \<Rightarrow> addr \<Rightarrow> links \<Rightarrow> links" where
  "setp a v L = L\<lparr>ln_prev := (ln_prev L)(a := v)\<rparr>"

definition ll_init :: "addr \<Rightarrow> links \<Rightarrow> links" where
  "ll_init hdr L = setn hdr hdr (setp hdr hdr L)"

definition ll_empty :: "addr \<Rightarrow> links \<Rightarrow> bool" where
  "ll_empty hdr L \<longleftrightarrow> ln_next L hdr = hdr"

definition ll_entry :: "addr \<Rightarrow> addr \<Rightarrow> addr" where
  "ll_entry hdr node = (if node = hdr then 0 else node)"

definition ll_add :: "addr \<Rightarrow> addr \<Rightarrow> links \<Rightarrow> links" where
  "ll_add hdr node L = (let L = setp (ln_next L hdr) node L; L = setn node (ln_next L hdr) L;
     L = setp node hdr L in setn hdr node L)"

definition ll_addLast :: "addr \<Rightarrow> addr \<Rightarrow> links \<Rightarrow> links" where
  "ll_addLast hdr node L = (let L = setn (ln_prev L hdr) node L; L = setp node (ln_prev L hdr) L;
     L = setn node hdr L in setp hdr node L)"

definition ll_first :: "addr \<Rightarrow> links \<Rightarrow> addr" where
  "ll_first hdr L = (if ll_empty hdr L then 0 else ln_next L hdr)"

definition ll_last :: "addr \<Rightarrow> links \<Rightarrow> addr" where
  "ll_last hdr L = (if ll_empty hdr L then 0 else ln_prev L hdr)"

definition ll_next :: "addr \<Rightarrow> addr \<Rightarrow> links \<Rightarrow> addr" where
  "ll_next hdr node L = (if ln_next L node = hdr then 0 else ln_next L node)"

definition ll_prev :: "addr \<Rightarrow> addr \<Rightarrow> links \<Rightarrow> addr" where
  "ll_prev hdr node L = (if ln_prev L node = hdr then 0 else ln_prev L node)"

definition ll_addPrev :: "addr \<Rightarrow> addr \<Rightarrow> links \<Rightarrow> links" where
  "ll_addPrev node cur L = (let L = setn (ln_prev L cur) node L; L = setp node (ln_prev L cur) L;
     L = setn node cur L in setp cur node L)"

definition ll_addNext :: "addr \<Rightarrow> addr \<Rightarrow> links \<Rightarrow> links" where
  "ll_addNext node cur L = (let L = setp (ln_next L cur) node L; L = setn node (ln_next L cur) L;
     L = setp node cur L in setn cur node L)"

definition ll_remove :: "addr \<Rightarrow> links \<Rightarrow> links" where
  "ll_remove node L = (let L = setp (ln_next L node) (ln_prev L node) L in
     setn (ln_prev L node) (ln_next L node) L)"

section \<open>The copy in the RPC client library\<close>

definition lk_init :: "addr \<Rightarrow> links \<Rightarrow> links" where
  "lk_init hdr L = setn hdr hdr (setp hdr hdr L)"

definition lk_is_empty :: "addr \<Rightarrow> links \<Rightarrow> bool" where
  "lk_is_empty hdr L \<longleftrightarrow> ln_next L hdr = hdr"

definition lk_empty :: "addr \<Rightarrow> links \<Rightarrow> links" where
  "lk_empty hdr L = setn hdr hdr (setp hdr hdr L)"

definition lk_add :: "addr \<Rightarrow> addr \<Rightarrow> links \<Rightarrow> links" where
  "lk_add hdr node L = (let L = setp (ln_next L hdr) node L; L = setn node (ln_next L hdr) L;
     L = setp node hdr L in setn hdr node L)"

definition lk_add_prev :: "addr \<Rightarrow> addr \<Rightarrow> links \<Rightarrow> links" where
  "lk_add_prev node cur L = (let L = setn (ln_prev L cur) node L; L = setp node (ln_prev L cur) L;
     L = setn node cur L in setp cur node L)"

definition lk_add_next :: "addr \<Rightarrow> addr \<Rightarrow> links \<Rightarrow> links" where
  "lk_add_next node cur L = (let L = setp (ln_next L cur) node L; L = setn node (ln_next L cur) L;
     L = setp node cur L in setn cur node L)"

definition lk_del :: "addr \<Rightarrow> links \<Rightarrow> links" where
  "lk_del node L = (let L = setp (ln_next L node) (ln_prev L node) L in
     setn (ln_prev L node) (ln_next L node) L)"

definition lk_next :: "addr \<Rightarrow> addr \<Rightarrow> links \<Rightarrow> addr" where
  "lk_next hdr node L = (if ln_next L node = hdr then 0 else ln_next L node)"

definition lk_prev :: "addr \<Rightarrow> addr \<Rightarrow> links \<Rightarrow> addr" where
  "lk_prev hdr node L = (if ln_prev L node = hdr then 0 else ln_prev L node)"

section \<open>Rings\<close>

primrec dseg :: "links \<Rightarrow> addr \<Rightarrow> addr list \<Rightarrow> addr \<Rightarrow> bool" where
  "dseg L a [] b \<longleftrightarrow> ln_next L a = b \<and> ln_prev L b = a"
| "dseg L a (x # xs) b \<longleftrightarrow> ln_next L a = x \<and> ln_prev L x = a \<and> dseg L x xs b"

definition ring :: "links \<Rightarrow> addr \<Rightarrow> addr list \<Rightarrow> bool" where
  "ring L hdr xs \<longleftrightarrow> dseg L hdr xs hdr \<and> distinct (hdr # xs) \<and> 0 \<notin> set (hdr # xs)"

lemma setnp_simps [simp]:
  "ln_next (setn a v L) = (ln_next L)(a := v)" "ln_prev (setn a v L) = ln_prev L"
  "ln_prev (setp a v L) = (ln_prev L)(a := v)" "ln_next (setp a v L) = ln_next L"
  by (simp_all add: setn_def setp_def)

lemma dseg_append: "dseg L a (xs @ x # ys) b \<longleftrightarrow> dseg L a xs x \<and> dseg L x ys b"
  by (induction xs arbitrary: a) auto

lemma dseg_frame:
  "dseg L a xs b \<Longrightarrow> (\<And>n. n \<in> set (a # xs) \<Longrightarrow> ln_next M n = ln_next L n) \<Longrightarrow>
   (\<And>n. n \<in> set (xs @ [b]) \<Longrightarrow> ln_prev M n = ln_prev L n) \<Longrightarrow> dseg M a xs b"
  by (induction xs arbitrary: a) auto

lemma dseg_next: "dseg L a xs b \<Longrightarrow> ln_next L a = (if xs = [] then b else hd xs)"
  by (cases xs) auto

lemma dseg_prev: "dseg L a xs b \<Longrightarrow> ln_prev L b = (if xs = [] then a else last xs)"
  by (induction xs arbitrary: a) auto

text \<open>Two stores that agree on the links of a set of nodes.\<close>

definition agree :: "addr set \<Rightarrow> links \<Rightarrow> links \<Rightarrow> bool" where
  "agree A L M \<longleftrightarrow> (\<forall>n \<in> A. ln_next M n = ln_next L n \<and> ln_prev M n = ln_prev L n)"

lemma ring_agree: "ring L hdr xs \<Longrightarrow> agree (set (hdr # xs)) L M \<Longrightarrow> ring M hdr xs"
  unfolding ring_def agree_def by (auto intro!: dseg_frame[of L])

lemma ring_init: "hdr \<noteq> 0 \<Longrightarrow> ring (ll_init hdr L) hdr []"
  by (simp add: ring_def ll_init_def)

text \<open>Linking \<open>n\<close> between the neighbours \<open>a\<close> and \<open>b\<close>.\<close>

lemma dseg_first_cut: "dseg L a xs b \<Longrightarrow> xs \<noteq> [] \<Longrightarrow> dseg L (hd xs) (tl xs) b"
  by (cases xs) auto

lemma ring_insert:
  assumes r: "ring L h (xs @ ys)" and n: "n \<notin> set (h # xs @ ys)" "n \<noteq> 0"
    and M: "M = L\<lparr>ln_next := (ln_next L)(last (h # xs) := n, n := hd (ys @ [h])),
                  ln_prev := (ln_prev L)(hd (ys @ [h]) := n, n := last (h # xs))\<rparr>"
  shows "ring M h (xs @ n # ys)"
proof -
  have d: "distinct (h # xs @ ys)" using r by (simp add: ring_def)
  have ds: "dseg L h (xs @ ys) h" using r by (simp add: ring_def)
  have left: "dseg M h xs n"
  proof (cases xs rule: rev_cases)
    case Nil then show ?thesis using n M by simp
  next
    case (snoc zs x)
    then have "dseg L h zs x" using ds by (simp add: dseg_append)
    moreover have "hd (ys @ [h]) \<notin> set (zs @ [x])" using d snoc by (cases ys) auto
    ultimately have "dseg M h zs x" using d n snoc M by (auto intro!: dseg_frame[of L])
    then show ?thesis using snoc n M by (simp add: dseg_append)
  qed
  have right: "dseg M n ys h"
  proof (cases ys)
    case Nil then show ?thesis using n M d by (cases xs rule: rev_cases) auto
  next
    case (Cons y zs)
    then have "dseg L y zs h" using ds by (simp add: dseg_append)
    moreover have "last (h # xs) \<notin> set (y # zs)" using d Cons by (cases xs rule: rev_cases) auto
    ultimately have "dseg M y zs h" using d n Cons M by (auto intro!: dseg_frame[of L])
    then show ?thesis using Cons n M by (cases xs rule: rev_cases) auto
  qed
  show ?thesis using left right d n r by (auto simp: ring_def dseg_append)
qed

lemma ring_neighbours:
  assumes "ring L h (xs @ ys)"
  shows "ln_next L (last (h # xs)) = hd (ys @ [h])" "ln_prev L (hd (ys @ [h])) = last (h # xs)"
proof -
  have "dseg L h (xs @ ys) h" using assms by (simp add: ring_def)
  then show "ln_next L (last (h # xs)) = hd (ys @ [h])" "ln_prev L (hd (ys @ [h])) = last (h # xs)"
    by (cases xs rule: rev_cases; cases ys; auto simp: dseg_append)+
qed

lemma ring_addNext:
  assumes "ring L h (xs @ ys)" "n \<notin> set (h # xs @ ys)" "n \<noteq> 0"
  shows "ring (ll_addNext n (last (h # xs)) L) h (xs @ n # ys)"
proof (rule ring_insert[OF assms])
  have "n \<noteq> last (h # xs)" using assms(2) by (cases xs rule: rev_cases) auto
  then show "ll_addNext n (last (h # xs)) L = L\<lparr>ln_next := (ln_next L)(last (h # xs) := n, n := hd (ys @ [h])),
      ln_prev := (ln_prev L)(hd (ys @ [h]) := n, n := last (h # xs))\<rparr>"
    using ring_neighbours[OF assms(1)] by (simp add: ll_addNext_def Let_def setn_def setp_def fun_upd_twist)
qed

lemma ring_addPrev:
  assumes "ring L h (xs @ ys)" "n \<notin> set (h # xs @ ys)" "n \<noteq> 0"
  shows "ring (ll_addPrev n (hd (ys @ [h])) L) h (xs @ n # ys)"
proof (rule ring_insert[OF assms])
  have "n \<noteq> hd (ys @ [h])" using assms(2) by (cases ys) auto
  then show "ll_addPrev n (hd (ys @ [h])) L = L\<lparr>ln_next := (ln_next L)(last (h # xs) := n, n := hd (ys @ [h])),
      ln_prev := (ln_prev L)(hd (ys @ [h]) := n, n := last (h # xs))\<rparr>"
    using ring_neighbours[OF assms(1)] by (simp add: ll_addPrev_def Let_def setn_def setp_def fun_upd_twist)
qed

lemma ll_add_eq: "ll_add h n L = ll_addNext n h L" and ll_addLast_eq: "ll_addLast h n L = ll_addPrev n h L"
  by (simp_all add: ll_add_def ll_addNext_def ll_addLast_def ll_addPrev_def)

lemma ring_add: "ring L h xs \<Longrightarrow> n \<notin> set (h # xs) \<Longrightarrow> n \<noteq> 0 \<Longrightarrow> ring (ll_add h n L) h (n # xs)"
  using ring_addNext[of L h "[]" xs n] by (simp add: ll_add_eq)

lemma ring_addLast: "ring L h xs \<Longrightarrow> n \<notin> set (h # xs) \<Longrightarrow> n \<noteq> 0 \<Longrightarrow> ring (ll_addLast h n L) h (xs @ [n])"
  using ring_addPrev[of L h xs "[]" n] by (simp add: ll_addLast_eq)

lemma ring_remove:
  assumes r: "ring L h (xs @ n # ys)"
  shows "ring (ll_remove n L) h (xs @ ys)"
proof -
  define u where "u = last (h # xs)"
  define w where "w = hd (ys @ [h])"
  define M where "M = ll_remove n L"
  have d: "distinct (h # xs @ n # ys)" using r by (simp add: ring_def)
  have ds: "dseg L h xs n" "dseg L n ys h" using r by (simp_all add: ring_def dseg_append)
  have nb: "ln_prev L n = u" "ln_next L n = w"
    using ring_neighbours(2)[of L h xs "n # ys"] ring_neighbours(1)[of L h "xs @ [n]" ys] r
    by (simp_all add: u_def w_def)
  have uw: "u \<noteq> n" "w \<noteq> n" using d by (cases xs rule: rev_cases; cases ys; auto simp: u_def w_def)+
  have M: "ln_next M = (ln_next L)(u := w)" "ln_prev M = (ln_prev L)(w := u)"
    using nb uw by (auto simp: M_def ll_remove_def Let_def fun_eq_iff)
  have left: "dseg M h zs x" if "xs = zs @ [x]" for zs x
  proof -
    have "dseg L h zs x" using ds(1) that by (simp add: dseg_append)
    moreover have "u = x" "w \<notin> set (zs @ [x])" using d that by (cases ys; auto simp: u_def w_def)+
    ultimately show ?thesis using d that M by (auto intro!: dseg_frame[of L])
  qed
  have right: "dseg M y zs h" if "ys = y # zs" for y zs
  proof -
    have "dseg L y zs h" using ds(2) that by simp
    moreover have "w = y" "u \<notin> set (y # zs)" using d that by (cases xs rule: rev_cases; auto simp: u_def w_def)+
    ultimately show ?thesis using d that M by (auto intro!: dseg_frame[of L])
  qed
  have "dseg M h (xs @ ys) h"
    using left right M by (cases xs rule: rev_cases; cases ys) (auto simp: dseg_append u_def w_def)
  then show ?thesis using d r unfolding M_def[symmetric] by (auto simp: ring_def)
qed

lemma ll_first_ring: "ring L h xs \<Longrightarrow> ll_first h L = (if xs = [] then 0 else hd xs)"
  by (cases xs) (auto simp: ring_def ll_first_def ll_empty_def)

lemma ll_last_ring: "ring L h xs \<Longrightarrow> ll_last h L = (if xs = [] then 0 else last xs)"
  using ll_first_ring[of L h xs] dseg_prev[of L h xs h]
  by (cases xs) (auto simp: ring_def ll_last_def ll_empty_def)

lemma ll_next_ring: "ring L h (xs @ x # ys) \<Longrightarrow> ll_next h x L = (if ys = [] then 0 else hd ys)"
  using ring_neighbours(1)[of L h "xs @ [x]" ys] by (cases ys) (auto simp: ll_next_def ring_def)

lemma ll_prev_ring: "ring L h (xs @ x # ys) \<Longrightarrow> ll_prev h x L = (if xs = [] then 0 else last xs)"
  using ring_neighbours(2)[of L h xs "x # ys"] by (cases xs rule: rev_cases) (auto simp: ll_prev_def ring_def)

text \<open>What the operations leave alone.\<close>

lemma agree_addNext: "ring L h (xs @ ys) \<Longrightarrow> agree (- set (n # h # xs @ ys)) L (ll_addNext n (last (h # xs)) L)"
  using ring_neighbours(1)[of L h xs ys]
  by (cases xs rule: rev_cases; cases ys) (auto simp: agree_def ll_addNext_def Let_def)

lemma agree_addPrev: "ring L h (xs @ ys) \<Longrightarrow> agree (- set (n # h # xs @ ys)) L (ll_addPrev n (hd (ys @ [h])) L)"
  using ring_neighbours(2)[of L h xs ys]
  by (cases xs rule: rev_cases; cases ys) (auto simp: agree_def ll_addPrev_def Let_def)

lemma agree_remove: "ring L h (xs @ n # ys) \<Longrightarrow> agree (- set (h # xs @ n # ys)) L (ll_remove n L)"
  using ring_neighbours(2)[of L h xs "n # ys"] ring_neighbours(1)[of L h "xs @ [n]" ys]
  by (cases xs rule: rev_cases; cases ys) (auto simp: agree_def ll_remove_def Let_def)

lemma agree_disjoint: "agree (- A) L M \<Longrightarrow> ring L h xs \<Longrightarrow> A \<inter> set (h # xs) = {} \<Longrightarrow> ring M h xs"
  by (erule ring_agree) (auto simp: agree_def)

section \<open>The contract of the lists\<close>

text \<open>Several lists over one store of links: an operation on one list keeps every list whose nodes are disjoint.\<close>

locale sentinel_list =
  fixes holds :: "links \<Rightarrow> addr \<Rightarrow> addr list \<Rightarrow> bool"
    and push :: "addr \<Rightarrow> addr \<Rightarrow> links \<Rightarrow> links"
    and del :: "addr \<Rightarrow> links \<Rightarrow> links"
  assumes push_law: "holds L h xs \<Longrightarrow> n \<notin> set (h # xs) \<Longrightarrow> n \<noteq> 0 \<Longrightarrow> holds (push h n L) h (n # xs)"
    and push_other: "holds L h xs \<Longrightarrow> n \<notin> set (h # xs) \<Longrightarrow> holds L k ys \<Longrightarrow>
      set (n # h # xs) \<inter> set (k # ys) = {} \<Longrightarrow> holds (push h n L) k ys"
    and del_law: "holds L h (xs @ n # ys) \<Longrightarrow> holds (del n L) h (xs @ ys)"
    and del_other: "holds L h (xs @ n # ys) \<Longrightarrow> holds L k zs \<Longrightarrow>
      set (h # xs @ n # ys) \<inter> set (k # zs) = {} \<Longrightarrow> holds (del n L) k zs"
    and nonnull: "holds L h xs \<Longrightarrow> 0 \<notin> set (h # xs) \<and> distinct (h # xs)"
begin

text \<open>Moving the first node of one list to the front of another.\<close>

lemma move_front:
  assumes "holds L a (x # xs)" "holds L b ys" "set (a # x # xs) \<inter> set (b # ys) = {}"
  shows "holds (push b x (del x L)) a xs" "holds (push b x (del x L)) b (x # ys)"
proof -
  have d: "holds (del x L) a xs" using del_law[of L a "[]" x xs] assms(1) by simp
  have e: "holds (del x L) b ys" using del_other[of L a "[]" x xs b ys] assms by simp
  have x: "x \<notin> set (b # ys)" "x \<noteq> 0" "x \<notin> set (a # xs)" using assms(3) nonnull[OF assms(1)] by auto
  show "holds (push b x (del x L)) b (x # ys)" by (rule push_law[OF e x(1,2)])
  show "holds (push b x (del x L)) a xs" using push_other[OF e x(1) d] assms(3) x by auto
qed

end

locale sentinel_deque = sentinel_list +
  fixes snoc :: "addr \<Rightarrow> addr \<Rightarrow> links \<Rightarrow> links"
  assumes snoc_law: "holds L h xs \<Longrightarrow> n \<notin> set (h # xs) \<Longrightarrow> n \<noteq> 0 \<Longrightarrow> holds (snoc h n L) h (xs @ [n])"
    and snoc_other: "holds L h xs \<Longrightarrow> n \<notin> set (h # xs) \<Longrightarrow> holds L k ys \<Longrightarrow>
      set (n # h # xs) \<inter> set (k # ys) = {} \<Longrightarrow> holds (snoc h n L) k ys"
begin

text \<open>Moving the first node of one list to the end of another.\<close>

lemma move_back:
  assumes "holds L a (x # xs)" "holds L b ys" "set (a # x # xs) \<inter> set (b # ys) = {}"
  shows "holds (snoc b x (del x L)) a xs" "holds (snoc b x (del x L)) b (ys @ [x])"
proof -
  have d: "holds (del x L) a xs" using del_law[of L a "[]" x xs] assms(1) by simp
  have e: "holds (del x L) b ys" using del_other[of L a "[]" x xs b ys] assms by simp
  have x: "x \<notin> set (b # ys)" "x \<noteq> 0" "x \<notin> set (a # xs)" using assms(3) nonnull[OF assms(1)] by auto
  show "holds (snoc b x (del x L)) b (ys @ [x])" by (rule snoc_law[OF e x(1,2)])
  show "holds (snoc b x (del x L)) a xs" using snoc_other[OF e x(1) d] assms(3) x by auto
qed

end

interpretation util_list: sentinel_deque ring ll_add ll_remove ll_addLast
proof
  fix L h xs n k ys
  assume a: "ring L h xs" "n \<notin> set (h # xs)"
  show "n \<noteq> 0 \<Longrightarrow> ring (ll_add h n L) h (n # xs)" using a by (rule ring_add)
  show "n \<noteq> 0 \<Longrightarrow> ring (ll_addLast h n L) h (xs @ [n])" using a by (rule ring_addLast)
  assume b: "ring L k ys" "set (n # h # xs) \<inter> set (k # ys) = {}"
  show "ring (ll_add h n L) k ys"
    using agree_disjoint[OF agree_addNext[of L h "[]" xs n] b(1)] a b by (simp add: ll_add_eq)
  show "ring (ll_addLast h n L) k ys"
    using agree_disjoint[OF agree_addPrev[of L h xs "[]" n] b(1)] a b by (simp add: ll_addLast_eq)
next
  fix L h xs n ys k zs
  assume a: "ring L h (xs @ n # ys)"
  show "ring (ll_remove n L) h (xs @ ys)" using a by (rule ring_remove)
  assume b: "ring L k zs" "set (h # xs @ n # ys) \<inter> set (k # zs) = {}"
  show "ring (ll_remove n L) k zs" using agree_disjoint[OF agree_remove[OF a] b] .
next
  fix L h xs assume "ring L h xs"
  then show "0 \<notin> set (h # xs) \<and> distinct (h # xs)" by (simp add: ring_def)
qed

text \<open>The operations of the copy are the same functions of the links.\<close>

lemma lk_eqs: "lk_add = ll_add" "lk_add_prev = ll_addPrev" "lk_add_next = ll_addNext" "lk_del = ll_remove"
  "lk_next = ll_next" "lk_prev = ll_prev" "lk_is_empty = ll_empty" "lk_init = ll_init"
  by (auto simp: fun_eq_iff lk_add_def ll_add_def lk_add_prev_def ll_addPrev_def lk_add_next_def ll_addNext_def
      lk_del_def ll_remove_def lk_next_def ll_next_def lk_prev_def ll_prev_def lk_is_empty_def ll_empty_def
      lk_init_def ll_init_def)

interpretation pilot_list: sentinel_list ring lk_add lk_del
  unfolding lk_eqs by (rule util_list.sentinel_list_axioms)

section \<open>Properties\<close>

text \<open>C31: Inserting before or after a given entry, adding at either end and removing keep the list a well-formed ring and
  change its content exactly as the same operation on a sequence does; iteration from an entry yields its
  neighbours, and null at the ends.\<close>

theorem linked_list_operations:
  assumes "ring L h (xs @ x # ys)" "n \<notin> set (h # xs @ x # ys)" "n \<noteq> 0"
  shows "ring (ll_addNext n x L) h (xs @ x # n # ys) \<and> ring (ll_addPrev n x L) h (xs @ n # x # ys) \<and>
    ring (ll_add h n L) h (n # xs @ x # ys) \<and> ring (ll_addLast h n L) h ((xs @ x # ys) @ [n]) \<and>
    ring (ll_remove x L) h (xs @ ys) \<and> ll_first h L = hd (xs @ [x]) \<and> ll_last h L = last (x # ys) \<and>
    ll_next h x L = (if ys = [] then 0 else hd ys) \<and> ll_prev h x L = (if xs = [] then 0 else last xs)"
  using ring_addNext[of L h "xs @ [x]" ys n] ring_addPrev[of L h xs "x # ys" n] ring_add[OF assms] ring_addLast[OF assms]
    ring_remove[OF assms(1)] ll_first_ring[OF assms(1)] ll_last_ring[OF assms(1)] ll_next_ring[OF assms(1)]
    ll_prev_ring[OF assms(1)] assms(1,2,3)
  by (cases xs) auto

theorem linked_list_operations_witness:
  "let L = ll_addLast 1 3 (ll_add 1 2 (ll_init 1 \<lparr>ln_next = \<lambda>_. 0, ln_prev = \<lambda>_. 0\<rparr>))
   in ring (ll_addNext 4 2 L) 1 [2, 4, 3] \<and> ring (ll_remove 2 L) 1 [3] \<and> ll_next 1 2 L = 3"
proof -
  define L where "L = ll_addLast 1 3 (ll_add 1 2 (ll_init 1 \<lparr>ln_next = \<lambda>_. 0, ln_prev = \<lambda>_. 0\<rparr>))"
  have "ring L 1 ([] @ 2 # [3])" unfolding L_def
    using ring_addLast[OF ring_add[OF ring_init[of 1], of 2], of 3] by simp
  from linked_list_operations[OF this, of 4] show ?thesis unfolding L_def[symmetric] Let_def by simp
qed

end
