(* ===== verification/ConnCache.thy ===== *)
theory ConnCache
  imports LinkedList
begin

text \<open>
  The pool of connection objects of an io thread, \<open>framework/io/connection_cache.h\<close> and \<open>.inl\<close>, and the table of
  open connections, \<open>connection_register.h\<close>.

  The three lists of the pool (spare nodes, reusable connections, connections recycled recently) share one
  store of links; their sentinels have the addresses 1, 2 and 3. Connections are addresses; \<open>new T()\<close> hands out
  the next unused one.
\<close>

section \<open>ConnectionCache\<close>

record ConnectionCache =
  cc_links :: links
  cc_conn :: "addr \<Rightarrow> addr"
  cc_which_loop :: "addr \<Rightarrow> int"
  cc_loop_count :: int
  cc_owner :: int
  cc_node_brk :: nat
  cc_conn_brk :: nat
  cc_lim :: nat

definition idle_node :: addr where "idle_node = 1"
definition cache_list :: addr where "cache_list = 2"
definition recycle_list :: addr where "recycle_list = 3"

definition cc_new :: "int \<Rightarrow> nat \<Rightarrow> ConnectionCache" where
  "cc_new owner lim = \<lparr>cc_links = ll_init idle_node (ll_init cache_list (ll_init recycle_list \<lparr>ln_next = \<lambda>_. 0, ln_prev = \<lambda>_. 0\<rparr>)),
     cc_conn = \<lambda>_. 0, cc_which_loop = \<lambda>_. 0, cc_loop_count = 0, cc_owner = owner,
     cc_node_brk = 4, cc_conn_brk = 1, cc_lim = lim\<rparr>"

text \<open>\<open>new (std::nothrow) ConnNode\<close>: null once the memory is exhausted.\<close>

definition new_ConnNode :: "ConnectionCache \<Rightarrow> addr \<times> ConnectionCache" where
  "new_ConnNode c = (if cc_node_brk c < cc_lim c
     then (cc_node_brk c, c\<lparr>cc_node_brk := Suc (cc_node_brk c)\<rparr>) else (0, c))"

primrec cc_open_n :: "nat \<Rightarrow> ConnectionCache \<Rightarrow> ConnectionCache res" where
  "cc_open_n 0 c = Inr c"
| "cc_open_n (Suc k) c = (case new_ConnNode c of (node, c) \<Rightarrow>
     if node = 0 then Inl Abort
     else cc_open_n k (c\<lparr>cc_links := ll_add idle_node node (cc_links c)\<rparr>))"

definition cc_open :: "ConnectionCache \<Rightarrow> ConnectionCache res" where
  "cc_open = cc_open_n 1024"

definition cc_recycle :: "addr \<Rightarrow> ConnectionCache \<Rightarrow> ConnectionCache res" where
  "cc_recycle conn c0 = bindr
     (let node = ll_first idle_node (cc_links c0) in
      if node \<noteq> 0 then Inr (node, c0\<lparr>cc_links := ll_remove node (cc_links c0)\<rparr>)
      else case new_ConnNode c0 of (node, c) \<Rightarrow> if node = 0 then Inl Abort else Inr (node, c))
     (\<lambda>(node, c). Inr (c\<lparr>cc_conn := (cc_conn c)(node := conn),
                       cc_which_loop := (cc_which_loop c)(node := cc_loop_count c),
                       cc_links := ll_addLast recycle_list node (cc_links c)\<rparr>))"

text \<open>Taking the connection of the first cached node; the node goes back to the spare ones.\<close>

definition cc_take :: "addr \<Rightarrow> ConnectionCache \<Rightarrow> addr \<times> ConnectionCache" where
  "cc_take node c = (cc_conn c node,
     c\<lparr>cc_conn := (cc_conn c)(node := 0), cc_links := ll_add idle_node node (ll_remove node (cc_links c))\<rparr>)"

text \<open>The loop that moves what was recycled in an earlier loop to the cache; the fuel is the number of nodes.\<close>

primrec cc_move :: "nat \<Rightarrow> bool \<Rightarrow> ConnectionCache \<Rightarrow> (bool \<times> ConnectionCache) res" where
  "cc_move 0 flag c = Inl Diverge"
| "cc_move (Suc k) flag c = (let node = ll_first recycle_list (cc_links c) in
     if node = 0 \<or> cc_loop_count c \<le> cc_which_loop c node then Inr (flag, c)
     else cc_move k True (c\<lparr>cc_links := ll_addLast cache_list node (ll_remove node (cc_links c))\<rparr>))"

definition cc_get :: "ConnectionCache \<Rightarrow> (addr \<times> ConnectionCache) res" where
  "cc_get c = (let node = ll_first cache_list (cc_links c) in
     if node \<noteq> 0 then Inr (cc_take node c)
     else bindr (cc_move (cc_node_brk c) False c) (\<lambda>(flag, c).
       if flag then Inr (cc_take (ll_first cache_list (cc_links c)) c)
       else if cc_conn_brk c < cc_lim c then Inr (cc_conn_brk c, c\<lparr>cc_conn_brk := Suc (cc_conn_brk c)\<rparr>)
       else Inl Abort))"

section \<open>ConnectionRegister\<close>

type_synonym 'c ConnectionRegister = "64 word \<rightharpoonup> 'c"

definition cr_get :: "64 word \<Rightarrow> 'c ConnectionRegister \<Rightarrow> 'c option" where
  "cr_get key m = m key"

definition cr_set :: "64 word \<Rightarrow> 'c \<Rightarrow> 'c ConnectionRegister \<Rightarrow> 'c ConnectionRegister" where
  "cr_set key conn m = m(key \<mapsto> conn)"

definition cr_unset :: "64 word \<Rightarrow> 'c ConnectionRegister \<Rightarrow> 'c ConnectionRegister" where
  "cr_unset key m = m(key := None)"

section \<open>Invariant of the pool\<close>

definition cc_rings :: "ConnectionCache \<Rightarrow> addr list \<Rightarrow> addr list \<Rightarrow> addr list \<Rightarrow> bool" where
  "cc_rings c is cs rs \<longleftrightarrow> ring (cc_links c) idle_node is \<and> ring (cc_links c) cache_list cs \<and>
     ring (cc_links c) recycle_list rs \<and> distinct ([1, 2, 3] @ is @ cs @ rs) \<and>
     (\<forall>n \<in> set (is @ cs @ rs). n < cc_node_brk c) \<and> 4 \<le> cc_node_brk c"

text \<open>The pooled connections are distinct and allocated; the cached ones were recycled before the current
  loop, the recycled ones in the order of their loops.\<close>

definition cc_inv :: "ConnectionCache \<Rightarrow> addr list \<Rightarrow> addr list \<Rightarrow> addr list \<Rightarrow> bool" where
  "cc_inv c is cs rs \<longleftrightarrow> cc_rings c is cs rs \<and>
     distinct (map (cc_conn c) (cs @ rs)) \<and> (\<forall>n \<in> set (cs @ rs). cc_conn c n < cc_conn_brk c \<and> cc_conn c n \<noteq> 0) \<and>
     (\<forall>n \<in> set cs. cc_which_loop c n < cc_loop_count c) \<and> (\<forall>n \<in> set rs. cc_which_loop c n \<le> cc_loop_count c) \<and>
     sorted (map (cc_which_loop c) rs) \<and> 0 < cc_conn_brk c"

declare cc_inv_def [inv_defs] cc_rings_def [inv_defs]

abbreviation pooled :: "ConnectionCache \<Rightarrow> addr list \<Rightarrow> addr set" where
  "pooled c ns \<equiv> cc_conn c ` set ns"

lemmas heads = idle_node_def cache_list_def recycle_list_def

lemma cc_new_inv: "cc_inv (cc_new owner lim) [] [] []"
  by (simp add: cc_inv_def cc_rings_def cc_new_def heads ring_def ll_init_def)

text \<open>The three ways in which a node changes its list.\<close>

lemma rings_to_idle:
  assumes "cc_rings c is (n # cs) rs"
  shows "cc_rings (c\<lparr>cc_links := ll_add idle_node n (ll_remove n (cc_links c))\<rparr>) (n # is) cs rs"
proof -
  define L where "L = cc_links c"
  have r: "ring L 1 is" "ring L 2 (n # cs)" "ring L 3 rs" and d: "distinct ([1, 2, 3] @ is @ (n # cs) @ rs)"
    using assms by (auto simp: cc_rings_def heads L_def)
  have "ring (ll_remove n L) 3 rs" using util_list.del_other[of L 2 "[]" n cs 3 rs] r d by auto
  moreover have "ring (ll_remove n L) 1 is" using util_list.del_other[of L 2 "[]" n cs 1 "is"] r d by auto
  ultimately have "ring (ll_add 1 n (ll_remove n L)) 3 rs"
    using util_list.push_other[of "ll_remove n L" 1 "is" n 3 rs] d by auto
  moreover have "ring (ll_add 1 n (ll_remove n L)) 2 cs" "ring (ll_add 1 n (ll_remove n L)) 1 (n # is)"
    using util_list.move_front[OF r(2,1)] d by auto
  ultimately show ?thesis using assms d by (auto simp: cc_rings_def heads L_def)
qed

lemma rings_to_cache:
  assumes "cc_rings c is cs (n # rs)"
  shows "cc_rings (c\<lparr>cc_links := ll_addLast cache_list n (ll_remove n (cc_links c))\<rparr>) is (cs @ [n]) rs"
proof -
  define L where "L = cc_links c"
  have r: "ring L 1 is" "ring L 2 cs" "ring L 3 (n # rs)" and d: "distinct ([1, 2, 3] @ is @ cs @ n # rs)"
    using assms by (auto simp: cc_rings_def heads L_def)
  have "ring (ll_remove n L) 1 is" using util_list.del_other[of L 3 "[]" n rs 1 "is"] r d by auto
  moreover have "ring (ll_remove n L) 2 cs" using util_list.del_other[of L 3 "[]" n rs 2 cs] r d by auto
  ultimately have "ring (ll_addLast 2 n (ll_remove n L)) 1 is"
    using util_list.snoc_other[of "ll_remove n L" 2 cs n 1 "is"] d by auto
  moreover have "ring (ll_addLast 2 n (ll_remove n L)) 3 rs" "ring (ll_addLast 2 n (ll_remove n L)) 2 (cs @ [n])"
    using util_list.move_back[OF r(3,2)] d by auto
  ultimately show ?thesis using assms d by (auto simp: cc_rings_def heads L_def)
qed

lemma rings_to_recycle:
  assumes "cc_rings c (n # is) cs rs"
  shows "cc_rings (c\<lparr>cc_links := ll_addLast recycle_list n (ll_remove n (cc_links c))\<rparr>) is cs (rs @ [n])"
proof -
  define L where "L = cc_links c"
  have r: "ring L 1 (n # is)" "ring L 2 cs" "ring L 3 rs" and d: "distinct ([1, 2, 3] @ (n # is) @ cs @ rs)"
    using assms by (auto simp: cc_rings_def heads L_def)
  have "ring (ll_remove n L) 2 cs" using util_list.del_other[of L 1 "[]" n "is" 2 cs] r d by auto
  moreover have "ring (ll_remove n L) 3 rs" using util_list.del_other[of L 1 "[]" n "is" 3 rs] r d by auto
  ultimately have "ring (ll_addLast 3 n (ll_remove n L)) 2 cs"
    using util_list.snoc_other[of "ll_remove n L" 3 rs n 2 cs] d by auto
  moreover have "ring (ll_addLast 3 n (ll_remove n L)) 1 is" "ring (ll_addLast 3 n (ll_remove n L)) 3 (rs @ [n])"
    using util_list.move_back[OF r(1,3)] d by auto
  ultimately show ?thesis using assms d by (auto simp: cc_rings_def heads L_def)
qed

lemma rings_new_recycle:
  assumes "cc_rings c [] cs rs" "n = cc_node_brk c"
  shows "cc_rings (c\<lparr>cc_links := ll_addLast recycle_list n (cc_links c), cc_node_brk := Suc (cc_node_brk c)\<rparr>) [] cs (rs @ [n])"
proof -
  define L where "L = cc_links c"
  have r: "ring L 1 []" "ring L 2 cs" "ring L 3 rs" and d: "distinct ([1, 2, 3] @ cs @ rs)"
    and n: "n \<notin> set ([1, 2, 3] @ cs @ rs)" "n \<noteq> 0"
    using assms by (auto simp: cc_rings_def heads L_def)
  have "ring (ll_addLast 3 n L) 3 (rs @ [n])" using util_list.snoc_law[OF r(3), of n] n d by auto
  moreover have "ring (ll_addLast 3 n L) 2 cs" using util_list.snoc_other[OF r(3) _ r(2), of n] n d by auto
  moreover have "ring (ll_addLast 3 n L) 1 []" using util_list.snoc_other[OF r(3) _ r(1), of n] n d by auto
  ultimately show ?thesis using assms d n by (auto simp: cc_rings_def heads L_def less_Suc_eq)
qed

lemma cc_first: "cc_rings c is cs rs \<Longrightarrow> ll_first idle_node (cc_links c) = (if is = [] then 0 else hd is) \<and>
    ll_first cache_list (cc_links c) = (if cs = [] then 0 else hd cs) \<and>
    ll_first recycle_list (cc_links c) = (if rs = [] then 0 else hd rs)"
  by (simp add: cc_rings_def ll_first_ring)

lemma ring_nonnull: "ring L h xs \<Longrightarrow> x \<in> set xs \<Longrightarrow> x \<noteq> 0"
  by (cases x) (auto simp: ring_def)

text \<open>\<open>recycle\<close> links a node at the end of the recently recycled ones, whichever way it gets the node.\<close>

lemma cc_recycle_rings:
  assumes r: "cc_rings c is cs rs" and room: "is \<noteq> [] \<or> cc_node_brk c < cc_lim c"
  obtains n c1 is' where "n \<notin> set (cs @ rs)" "n \<noteq> 0"
    "cc_recycle conn c = Inr (c1\<lparr>cc_conn := (cc_conn c)(n := conn), cc_which_loop := (cc_which_loop c)(n := cc_loop_count c)\<rparr>)"
    "cc_rings c1 is' cs (rs @ [n])" "cc_loop_count c1 = cc_loop_count c" "cc_conn_brk c1 = cc_conn_brk c"
    "cc_conn c1 = cc_conn c" "cc_which_loop c1 = cc_which_loop c" "cc_node_brk c1 \<le> Suc (cc_node_brk c)" "cc_lim c1 = cc_lim c"
proof (cases "is")
  case (Cons n is')
  then have nz: "n \<noteq> 0" using r ring_nonnull[of _ _ "is" n] by (auto simp: cc_rings_def)
  have "cc_recycle conn c = Inr (c\<lparr>cc_links := ll_addLast recycle_list n (ll_remove n (cc_links c)), cc_conn := (cc_conn c)(n := conn),
      cc_which_loop := (cc_which_loop c)(n := cc_loop_count c)\<rparr>)"
    using cc_first[OF r] Cons nz by (simp add: cc_recycle_def Let_def)
  then show thesis using that[of n "c\<lparr>cc_links := ll_addLast recycle_list n (ll_remove n (cc_links c))\<rparr>" is']
      rings_to_recycle[of c n is' cs rs] r Cons nz by (auto simp: cc_rings_def)
next
  case Nil
  define n where "n = cc_node_brk c"
  have nz: "n \<noteq> 0" "n \<notin> set (cs @ rs)" using r by (auto simp: cc_rings_def n_def)
  have "cc_recycle conn c = Inr (c\<lparr>cc_links := ll_addLast recycle_list n (cc_links c), cc_node_brk := Suc (cc_node_brk c),
      cc_conn := (cc_conn c)(n := conn), cc_which_loop := (cc_which_loop c)(n := cc_loop_count c)\<rparr>)"
    using cc_first[OF r] Nil nz room by (simp add: cc_recycle_def Let_def new_ConnNode_def n_def)
  then show ?thesis using that[of n "c\<lparr>cc_links := ll_addLast recycle_list n (cc_links c), cc_node_brk := Suc (cc_node_brk c)\<rparr>" "[]"]
      rings_new_recycle[of c cs rs n] r Nil nz by (auto simp: n_def)
qed

lemma cc_recycle_ok:
  assumes inv: "cc_inv c is cs rs" and conn: "conn \<notin> pooled c (cs @ rs)" "conn < cc_conn_brk c" "conn \<noteq> 0"
    and room: "is \<noteq> [] \<or> cc_node_brk c < cc_lim c"
  shows "\<exists>c' n is'. cc_recycle conn c = Inr c' \<and> cc_inv c' is' cs (rs @ [n]) \<and> n \<notin> set (cs @ rs) \<and> cc_conn c' n = conn \<and>
    cc_which_loop c' n = cc_loop_count c \<and> cc_loop_count c' = cc_loop_count c \<and> cc_conn_brk c' = cc_conn_brk c \<and>
    (\<forall>m \<in> set (cs @ rs). cc_conn c' m = cc_conn c m \<and> cc_which_loop c' m = cc_which_loop c m)"
proof -
  have r: "cc_rings c is cs rs" using inv by (simp add: cc_inv_def)
  from cc_recycle_rings[OF r room, of conn] obtain n c1 is' where n: "n \<notin> set (cs @ rs)" "n \<noteq> 0"
    and rec: "cc_recycle conn c = Inr (c1\<lparr>cc_conn := (cc_conn c)(n := conn),
        cc_which_loop := (cc_which_loop c)(n := cc_loop_count c)\<rparr>)"
    and c1: "cc_rings c1 is' cs (rs @ [n])" "cc_loop_count c1 = cc_loop_count c" "cc_conn_brk c1 = cc_conn_brk c"
      "cc_conn c1 = cc_conn c" "cc_which_loop c1 = cc_which_loop c" by blast
  have k: "cc_rings (c1\<lparr>cc_conn := f, cc_which_loop := g\<rparr>) is' cs (rs @ [n])" for f g using c1(1) by (simp add: cc_rings_def)
  have m: "map ((cc_conn c)(n := conn)) (cs @ rs @ [n]) = map (cc_conn c) (cs @ rs) @ [conn]"
    "map ((cc_which_loop c)(n := cc_loop_count c)) (rs @ [n]) = map (cc_which_loop c) rs @ [cc_loop_count c]" using n by auto
  have "distinct (map (cc_conn c) (cs @ rs) @ [conn])" using inv conn(1) by (auto simp: cc_inv_def)
  then have "distinct (map ((cc_conn c)(n := conn)) (cs @ rs @ [n]))" unfolding m .
  moreover have "sorted (map ((cc_which_loop c)(n := cc_loop_count c)) (rs @ [n]))"
    unfolding m using inv by (auto simp: cc_inv_def sorted_append)
  ultimately have "cc_inv (c1\<lparr>cc_conn := (cc_conn c)(n := conn), cc_which_loop := (cc_which_loop c)(n := cc_loop_count c)\<rparr>) is' cs (rs @ [n])"
    using inv k conn c1 n by (auto simp: cc_inv_def)
  then show ?thesis using rec n c1
    by (intro exI conjI) (assumption | simp)+
qed

lemma cc_take_ok:
  assumes inv: "cc_inv c is (n # cs) rs"
  shows "\<exists>c'. cc_take n c = (cc_conn c n, c') \<and> cc_inv c' (n # is) cs rs \<and> cc_conn c n \<notin> pooled c' (cs @ rs) \<and>
    pooled c' (cs @ rs) = pooled c ((n # cs) @ rs) - {cc_conn c n}"
proof -
  define f where "f = (cc_conn c)(n := 0)"
  define c' where "c' = c\<lparr>cc_conn := f, cc_links := ll_add idle_node n (ll_remove n (cc_links c))\<rparr>"
  have r: "cc_rings c is (n # cs) rs" and d: "distinct (map (cc_conn c) ((n # cs) @ rs))" using inv by (auto simp: cc_inv_def)
  have n: "n \<notin> set (cs @ rs)" using r by (auto simp: cc_rings_def)
  have m: "map f (cs @ rs) = map (cc_conn c) (cs @ rs)" using n by (auto simp: f_def)
  have im: "f ` set (cs @ rs) = cc_conn c ` set (cs @ rs)" using arg_cong[OF m, of set] by (simp add: image_Un)
  have "cc_rings c' (n # is) cs rs" using rings_to_idle[OF r] by (simp add: cc_rings_def c'_def)
  moreover have "distinct (map f (cs @ rs))" unfolding m using d by simp
  moreover have "cc_conn c n \<notin> cc_conn c ` set (cs @ rs)" using d by auto
  moreover from this have "cc_conn c ` set (cs @ rs) = cc_conn c ` set ((n # cs) @ rs) - {cc_conn c n}" by auto
  moreover have "\<forall>k \<in> set (cs @ rs). f k = cc_conn c k" using n by (auto simp: f_def)
  ultimately show ?thesis using inv im
    by (intro exI[of _ c']) (simp add: cc_take_def cc_inv_def c'_def f_def[symmetric])
qed

lemma cc_move_rings:
  assumes "cc_rings c is cs rs" "length rs < k"
  shows "\<exists>L. cc_move k flag c = Inr (flag \<or> takeWhile (\<lambda>n. cc_which_loop c n < cc_loop_count c) rs \<noteq> [], c\<lparr>cc_links := L\<rparr>) \<and>
    cc_rings (c\<lparr>cc_links := L\<rparr>) is (cs @ takeWhile (\<lambda>n. cc_which_loop c n < cc_loop_count c) rs)
      (dropWhile (\<lambda>n. cc_which_loop c n < cc_loop_count c) rs)"
  using assms
proof (induction rs arbitrary: c cs k flag)
  case Nil
  then obtain k' where "k = Suc k'" by (cases k) auto
  with Nil cc_first[of c "is" cs "[]"] show ?case by (intro exI[of _ "cc_links c"]) auto
next
  case (Cons n rs)
  then obtain k' where k: "k = Suc k'" by (cases k) auto
  have r: "cc_rings c is cs (n # rs)" using Cons.prems by simp
  have nz: "n \<noteq> 0" using r ring_nonnull[of _ _ "n # rs" n] by (auto simp: cc_rings_def)
  show ?case
  proof (cases "cc_which_loop c n < cc_loop_count c")
    case False
    then show ?thesis using Cons.prems(1) k nz cc_first[OF r] by (intro exI[of _ "cc_links c"]) auto
  next
    case True
    define c1 where "c1 = c\<lparr>cc_links := ll_addLast cache_list n (ll_remove n (cc_links c))\<rparr>"
    have "cc_rings c1 is (cs @ [n]) rs"
      using rings_to_cache[OF r] by (simp add: c1_def)
    from Cons.IH[OF this, of k' True] Cons.prems(2) k obtain M where
      "cc_move k' True c1 = Inr (True, c\<lparr>cc_links := M\<rparr>)"
      "cc_rings (c\<lparr>cc_links := M\<rparr>) is ((cs @ [n]) @ takeWhile (\<lambda>n. cc_which_loop c n < cc_loop_count c) rs) (dropWhile (\<lambda>n. cc_which_loop c n < cc_loop_count c) rs)"
      by (auto simp: c1_def)
    then show ?thesis using True k nz cc_first[OF r] by (intro exI[of _ M]) (auto simp: c1_def Let_def)
  qed
qed

lemma cc_move_ok:
  assumes i: "cc_inv c is cs rs" and "length rs < k"
  shows "\<exists>L. cc_move k flag c = Inr (flag \<or> takeWhile (\<lambda>n. cc_which_loop c n < cc_loop_count c) rs \<noteq> [], c\<lparr>cc_links := L\<rparr>) \<and>
    cc_inv (c\<lparr>cc_links := L\<rparr>) is (cs @ takeWhile (\<lambda>n. cc_which_loop c n < cc_loop_count c) rs)
      (dropWhile (\<lambda>n. cc_which_loop c n < cc_loop_count c) rs)"
proof -
  let ?E = "takeWhile (\<lambda>n. cc_which_loop c n < cc_loop_count c) rs" and ?R = "dropWhile (\<lambda>n. cc_which_loop c n < cc_loop_count c) rs"
  have "cc_rings c is cs rs" using i by (simp add: cc_inv_def)
  from cc_move_rings[OF this assms(2), of flag] obtain L where L: "cc_move k flag c = Inr (flag \<or> ?E \<noteq> [], c\<lparr>cc_links := L\<rparr>)"
    "cc_rings (c\<lparr>cc_links := L\<rparr>) is (cs @ ?E) ?R" by blast
  have e: "(cs @ ?E) @ ?R = cs @ rs" by simp
  have "sorted (map (cc_which_loop c) ?R)" using i sorted_wrt_drop[of "(\<le>)" "map (cc_which_loop c) rs" "length ?E"]
    by (simp add: cc_inv_def dropWhile_eq_drop drop_map)
  moreover have "\<forall>n \<in> set ?E. cc_which_loop c n < cc_loop_count c" by (auto dest: set_takeWhileD)
  moreover have "\<forall>n \<in> set ?R. n \<in> set rs" by (auto dest: set_dropWhileD)
  ultimately have "cc_inv (c\<lparr>cc_links := L\<rparr>) is (cs @ ?E) ?R" using L(2) i unfolding cc_inv_def e by auto
  with L(1) show ?thesis by blast
qed

lemma rings_length: "cc_rings c is cs rs \<Longrightarrow> length rs < cc_node_brk c"
proof -
  assume r: "cc_rings c is cs rs"
  then have "set rs \<subseteq> {0<..<cc_node_brk c}" using ring_nonnull[of "cc_links c" recycle_list rs]
    by (auto simp: cc_rings_def)
  then have "card (set rs) \<le> card {0<..<cc_node_brk c}" by (intro card_mono) simp_all
  moreover have "card (set rs) = length rs" using r by (intro distinct_card) (simp add: cc_rings_def)
  moreover have "4 \<le> cc_node_brk c" using r by (simp add: cc_rings_def)
  ultimately show ?thesis by simp
qed

lemma cc_take_fields: "cc_take n c = (conn, c') \<Longrightarrow> cc_conn_brk c' = cc_conn_brk c"
    "cc_take n c = (conn, c') \<Longrightarrow> cc_loop_count c' = cc_loop_count c" "cc_take n c = (conn, c') \<Longrightarrow> cc_lim c' = cc_lim c"
  by (auto simp: cc_take_def)

lemma cc_get_ok:
  assumes inv: "cc_inv c is cs rs" and room: "cc_conn_brk c < cc_lim c"
  shows "\<exists>conn c' is' cs' rs'. cc_get c = Inr (conn, c') \<and> cc_inv c' is' cs' rs' \<and> conn \<notin> pooled c' (cs' @ rs') \<and>
    pooled c' (cs' @ rs') = pooled c (cs @ rs) - {conn} \<and>
    (conn = cc_conn_brk c \<and> cc_conn_brk c' = Suc conn \<or>
     (\<exists>n \<in> set (cs @ rs). cc_conn c n = conn \<and> cc_which_loop c n < cc_loop_count c) \<and> cc_conn_brk c' = cc_conn_brk c) \<and>
    cc_loop_count c' = cc_loop_count c \<and> cc_lim c' = cc_lim c"
proof (cases cs)
  case (Cons n cs')
  have r: "cc_rings c is (n # cs') rs" using inv Cons by (simp add: cc_inv_def)
  have nz: "n \<noteq> 0" using r ring_nonnull[of _ _ "n # cs'" n] by (auto simp: cc_rings_def)
  obtain c' where t: "cc_take n c = (cc_conn c n, c')" "cc_inv c' (n # is) cs' rs" "cc_conn c n \<notin> pooled c' (cs' @ rs)"
    "pooled c' (cs' @ rs) = pooled c (cs @ rs) - {cc_conn c n}"
    using cc_take_ok[of c "is" n cs' rs] inv unfolding Cons by blast
  have g: "cc_get c = Inr (cc_conn c n, c')" using cc_first[OF r] nz t(1) by (simp add: cc_get_def)
  have n: "n \<in> set (cs @ rs)" "cc_which_loop c n < cc_loop_count c" using inv Cons by (auto simp: cc_inv_def)
  show ?thesis
    by (rule exI[of _ "cc_conn c n"], rule exI[of _ c'], rule exI[of _ "n # is"], rule exI[of _ cs'], rule exI[of _ rs])
      (intro conjI g t disjI2 bexI[OF _ n(1)] refl n(2) cc_take_fields[OF t(1)])
next
  case Nil
  define E where "E = takeWhile (\<lambda>n. cc_which_loop c n < cc_loop_count c) rs"
  define R where "R = dropWhile (\<lambda>n. cc_which_loop c n < cc_loop_count c) rs"
  have r: "cc_rings c is [] rs" using inv Nil by (simp add: cc_inv_def)
  from cc_move_ok[of c "is" "[]" rs "cc_node_brk c" False] inv Nil rings_length[OF r] obtain M where
    m0: "cc_move (cc_node_brk c) False c = Inr (E \<noteq> [], c\<lparr>cc_links := M\<rparr>)" "cc_inv (c\<lparr>cc_links := M\<rparr>) is E R"
    by (auto simp: E_def R_def)
  define c1 where "c1 = c\<lparr>cc_links := M\<rparr>"
  note m = m0[folded c1_def]
  have c1: "cc_conn c1 = cc_conn c" "cc_conn_brk c1 = cc_conn_brk c" "cc_lim c1 = cc_lim c" by (simp_all add: c1_def)
  have er: "E @ R = rs" by (simp add: E_def R_def)
  show ?thesis
  proof (cases E)
    case Nil2: Nil
    define c2 where "c2 = c1\<lparr>cc_conn_brk := Suc (cc_conn_brk c)\<rparr>"
    have g: "cc_get c = Inr (cc_conn_brk c, c2)"
      using m(1) Nil2 cc_first[OF r] room c1 by (simp add: cc_get_def c2_def)
    have i2: "cc_inv c2 is E R"
      using m(2) c1(2) unfolding c2_def cc_inv_def cc_rings_def by (auto simp: less_Suc_eq)
    have fresh: "cc_conn_brk c \<notin> pooled c rs" using inv Nil by (auto simp: cc_inv_def)
    have p: "pooled c2 (E @ R) = pooled c (cs @ rs) - {cc_conn_brk c}" "cc_conn_brk c \<notin> pooled c2 (E @ R)"
      using fresh by (simp_all add: er c2_def c1 Nil)
    show ?thesis
      by (rule exI[of _ "cc_conn_brk c"], rule exI[of _ c2], rule exI[of _ "is"], rule exI[of _ E], rule exI[of _ R])
        (intro conjI g i2 p disjI1, simp_all add: c2_def c1_def)
  next
    case (Cons n E')
    have r1: "cc_rings c1 is (n # E') R" using m(2) Cons by (simp add: cc_inv_def)
    obtain c' where t: "cc_take n c1 = (cc_conn c n, c')" "cc_inv c' (n # is) E' R" "cc_conn c n \<notin> pooled c' (E' @ R)"
      "pooled c' (E' @ R) = pooled c (E @ R) - {cc_conn c n}"
      using cc_take_ok[of c1 "is" n E' R] m(2) unfolding Cons c1 by blast
    have g: "cc_get c = Inr (cc_conn c n, c')" using m(1) Cons cc_first[OF r] cc_first[OF r1] t(1) by (simp add: cc_get_def)
    have n: "n \<in> set (cs @ rs)" "cc_which_loop c n < cc_loop_count c"
      using er Cons set_takeWhileD[of n "\<lambda>n. cc_which_loop c n < cc_loop_count c" rs] by (auto simp: E_def[symmetric])
    have p: "pooled c' (E' @ R) = pooled c (cs @ rs) - {cc_conn c n}" using t(4) by (simp only: er Nil append_Nil)
    show ?thesis
      by (rule exI[of _ "cc_conn c n"], rule exI[of _ c'], rule exI[of _ "n # is"], rule exI[of _ E'], rule exI[of _ R])
        (intro conjI g t p disjI2 bexI[OF _ n(1)] refl n(2), use cc_take_fields[OF t(1)] in \<open>simp_all add: c1_def\<close>)
  qed
qed

section \<open>Properties\<close>

text \<open>C26: Getting a connection from the pool. The call returns; the pool stays well formed; the connection handed out is no longer
  pooled; and it is either brand new or one that was recycled in an earlier event loop iteration, so that a
  connection closed by an event of the current iteration is not reused while other events of that iteration
  may still refer to it.\<close>

theorem pool_get_safe:
  assumes inv: "cc_inv c is cs rs" and room: "cc_conn_brk c < cc_lim c"
  shows "\<exists>conn c' is' cs' rs'. cc_get c = Inr (conn, c') \<and> cc_inv c' is' cs' rs' \<and> conn \<notin> pooled c' (cs' @ rs') \<and>
    pooled c' (cs' @ rs') = pooled c (cs @ rs) - {conn} \<and>
    (conn = cc_conn_brk c \<and> cc_conn_brk c' = Suc conn \<or>
     (\<exists>n \<in> set (cs @ rs). cc_conn c n = conn \<and> cc_which_loop c n < cc_loop_count c))"
proof -
  from cc_get_ok[OF assms] obtain conn c' is' cs' rs' where g: "cc_get c = Inr (conn, c')" "cc_inv c' is' cs' rs'"
    "conn \<notin> pooled c' (cs' @ rs')" "pooled c' (cs' @ rs') = pooled c (cs @ rs) - {conn}"
    "conn = cc_conn_brk c \<and> cc_conn_brk c' = Suc conn \<or>
     (\<exists>n \<in> set (cs @ rs). cc_conn c n = conn \<and> cc_which_loop c n < cc_loop_count c) \<and> cc_conn_brk c' = cc_conn_brk c" by metis
  from g(5) have "conn = cc_conn_brk c \<and> cc_conn_brk c' = Suc conn \<or>
     (\<exists>n \<in> set (cs @ rs). cc_conn c n = conn \<and> cc_which_loop c n < cc_loop_count c)" by blast
  then show ?thesis
    by (intro exI[of _ conn] exI[of _ c'] exI[of _ is'] exI[of _ cs'] exI[of _ rs'] conjI g(1-4))
qed

theorem pool_get_safe_witness:
  "\<exists>conn c' is' cs' rs'. cc_get (cc_new 0 9) = Inr (conn, c') \<and> cc_inv c' is' cs' rs' \<and> conn = 1"
  using pool_get_safe[OF cc_new_inv, of 0 9] by (auto simp: cc_new_def)

text \<open>A connection that is recycled comes back: after \<open>recycle\<close>, the pool holds it, and in any later loop iteration a pool
  whose other connections are gone hands exactly that connection out; in the same iteration it hands out a new one.\<close>

lemma pool_recycles:
  assumes "cc_inv c is [] []" "conn < cc_conn_brk c" "conn \<noteq> 0" "is \<noteq> [] \<or> cc_node_brk c < cc_lim c" "cc_conn_brk c < cc_lim c"
  shows "\<exists>c1 c2 c3 fresh. cc_recycle conn c = Inr c1 \<and>
    cc_get (c1\<lparr>cc_loop_count := cc_loop_count c + 1\<rparr>) = Inr (conn, c2) \<and>
    cc_get c1 = Inr (fresh, c3) \<and> fresh \<noteq> conn"
proof -
  from cc_recycle_ok[OF assms(1) _ assms(2,3,4)] obtain c1 n is' where c1: "cc_recycle conn c = Inr c1" "cc_inv c1 is' [] [n]"
    "cc_conn c1 n = conn" "cc_which_loop c1 n = cc_loop_count c" "cc_loop_count c1 = cc_loop_count c" "cc_conn_brk c1 = cc_conn_brk c"
    by auto
  have r: "cc_rings c1 is' [] [n]" using c1(2) by (simp add: cc_inv_def)
  have nz: "n \<noteq> 0" using r ring_nonnull[of _ _ "[n]" n] by (auto simp: cc_rings_def)
  have lim: "cc_lim c1 = cc_lim c" using c1(1) by (auto simp: cc_recycle_def Let_def new_ConnNode_def split: if_splits)
  define d where "d = c1\<lparr>cc_loop_count := cc_loop_count c + 1\<rparr>"
  have dinv: "cc_inv d is' [] [n]" using c1(2,4) by (auto simp: cc_inv_def cc_rings_def d_def)
  have dr: "cc_rings d is' [] [n]" using dinv by (simp add: cc_inv_def)
  have k: "length [n] < cc_node_brk d" using dr by (simp add: cc_rings_def)
  from cc_move_ok[OF dinv, of "cc_node_brk d" False] k c1(4) obtain M where
    d0: "cc_move (cc_node_brk d) False d = Inr (True, d\<lparr>cc_links := M\<rparr>)" "cc_inv (d\<lparr>cc_links := M\<rparr>) is' [n] []"
    by (auto simp: d_def)
  define d1 where "d1 = d\<lparr>cc_links := M\<rparr>"
  note d1 = d0[folded d1_def]
  have d1r: "cc_rings d1 is' [n] []" using d1(2) by (simp add: cc_inv_def)
  have dc: "cc_conn d1 n = conn" using c1(3) by (simp add: d1_def d_def)
  have "cc_get d = Inr (conn, snd (cc_take n d1))"
    using d1(1) cc_first[OF dr] cc_first[OF d1r] dc by (simp add: cc_get_def cc_take_def)
  moreover have "cc_move (cc_node_brk c1) False c1 = Inr (False, c1)"
    using cc_first[OF r] c1(4,5) r by (cases "cc_node_brk c1") (auto simp: cc_rings_def)
  then have "cc_get c1 = Inr (cc_conn_brk c, c1\<lparr>cc_conn_brk := Suc (cc_conn_brk c)\<rparr>)"
    using cc_first[OF r] c1(6) assms(5) lim by (simp add: cc_get_def)
  ultimately show ?thesis using c1(1) assms(2) unfolding d_def by blast
qed

end
