(* ===== verification/LibQueues.thy ===== *)
theory LibQueues
  imports QueueContracts
begin

text \<open>
  The queues of plain pointers in \<open>framework/lib\<close>: \<open>SimpleQueue\<close>, \<open>BlockQueue\<close>, \<open>PriorityQueue\<close> and \<open>Queue\<close>.

  \<open>SimpleQueue\<close> and \<open>BlockQueue\<close> keep their values in nodes of their own and reuse the nodes through an idle list;
  the two classes have the same fields, so they share the record. A \<open>void*\<close> is an address. A thread
  that waits on a condition variable is given the states it finds each time it wakes up and holds the mutex
  again; when there are no more, it is still waiting (\<open>Blocked\<close>).
\<close>

section \<open>SimpleQueue\<close>

record InternalNode =
  in_next :: addr
  in_v :: addr

record SimpleQueue =
  sq_idle_list :: addr
  sq_list :: addr
  sq_tail :: addr
  sq_list_size :: int

type_synonym nheap = "InternalNode heap"

definition set_inext :: "addr \<Rightarrow> InternalNode \<Rightarrow> InternalNode" where
  "set_inext p n = n\<lparr>in_next := p\<rparr>"

interpretation inl: linked_cells in_next set_inext
  by unfold_locales (simp_all add: set_inext_def)

definition sq_new :: SimpleQueue where
  "sq_new = \<lparr>sq_idle_list = 0, sq_list = 0, sq_tail = 0, sq_list_size = 0\<rparr>"

text \<open>\<open>open\<close>: the loop that allocates the idle nodes; \<open>junk\<close> is what a fresh node holds.\<close>

primrec sq_open_n :: "nat \<Rightarrow> InternalNode \<Rightarrow> SimpleQueue \<times> nheap \<Rightarrow> (SimpleQueue \<times> nheap) res" where
  "sq_open_n 0 junk s = Inr s"
| "sq_open_n (Suc k) junk s = (case s of (q, h) \<Rightarrow> case halloc junk h of (node, h) \<Rightarrow>
     if node = 0 then Inl Abort
     else bindr (hmod h node (set_inext (sq_idle_list q))) (\<lambda>h.
       sq_open_n k junk (q\<lparr>sq_idle_list := node\<rparr>, h)))"

definition sq_open :: "InternalNode \<Rightarrow> SimpleQueue \<times> nheap \<Rightarrow> (SimpleQueue \<times> nheap) res" where
  "sq_open = sq_open_n 1024"

definition sq_get_raw :: "SimpleQueue \<times> nheap \<Rightarrow> (addr \<times> SimpleQueue \<times> nheap) res" where
  "sq_get_raw = (\<lambda>(q, h). let node = sq_list q in bindr (hget h node) (\<lambda>n.
     Inr (in_v n, q\<lparr>sq_list := in_next n, sq_tail := (if in_next n = 0 then 0 else sq_tail q),
                    sq_idle_list := node, sq_list_size := sq_list_size q - 1\<rparr>,
          hset h node (set_inext (sq_idle_list q) n))))"

definition sq_get :: "SimpleQueue \<times> nheap \<Rightarrow> (addr \<times> SimpleQueue \<times> nheap) res" where
  "sq_get = (\<lambda>(q, h). if 0 < sq_list_size q then sq_get_raw (q, h) else Inr (0, q, h))"

text \<open>The loop of \<open>getM\<close>: the values written to \<open>v[0..c-1]\<close>, the node it stops at, the idle list and the heap.\<close>

primrec getM_loop :: "nat \<Rightarrow> addr \<Rightarrow> addr \<Rightarrow> nheap \<Rightarrow> (addr list \<times> addr \<times> addr \<times> nheap) res" where
  "getM_loop 0 node idle h = Inr ([], node, idle, h)"
| "getM_loop (Suc c) node idle h = bindr (hget h node) (\<lambda>n.
     bindr (getM_loop c (in_next n) node (hset h node (set_inext idle n))) (\<lambda>(vs, r).
     Inr (in_v n # vs, r)))"

text \<open>The part of \<open>getM\<close> after the emptiness test; the count \<open>c\<close> is the smaller of \<open>want\<close> and the size.\<close>

definition sq_getM_raw :: "int \<Rightarrow> SimpleQueue \<times> nheap \<Rightarrow> (int \<times> addr list \<times> SimpleQueue \<times> nheap) res" where
  "sq_getM_raw want = (\<lambda>(q, h). let c = (if sq_list_size q < want then sq_list_size q else want) in
     bindr (getM_loop (nat c) (sq_list q) (sq_idle_list q) h) (\<lambda>(vs, node, idle, h).
     Inr (c, vs, q\<lparr>sq_idle_list := idle, sq_list := node, sq_tail := (if node = 0 then 0 else sq_tail q),
                   sq_list_size := sq_list_size q - c\<rparr>, h)))"

definition sq_getM :: "int \<Rightarrow> SimpleQueue \<times> nheap \<Rightarrow> (int \<times> addr list \<times> SimpleQueue \<times> nheap) res" where
  "sq_getM want = (\<lambda>(q, h). if sq_list_size q \<le> 0 then Inr (0, [], q, h) else sq_getM_raw want (q, h))"

definition sq_put :: "InternalNode \<Rightarrow> addr \<Rightarrow> SimpleQueue \<times> nheap \<Rightarrow> (SimpleQueue \<times> nheap) res" where
  "sq_put junk v = (\<lambda>(q, h). bindr
     (if sq_idle_list q \<noteq> 0 then bindr (hget h (sq_idle_list q)) (\<lambda>n.
         Inr (sq_idle_list q, q\<lparr>sq_idle_list := in_next n\<rparr>, h))
      else case halloc junk h of (node, h) \<Rightarrow> if node = 0 then Inl Abort else Inr (node, q, h))
     (\<lambda>(node, q, h). bindr (hmod h node (\<lambda>n. n\<lparr>in_v := v, in_next := 0\<rparr>)) (\<lambda>h.
       bindr (append_at set_inext (sq_list q) (sq_tail q) node h) (\<lambda>(lst, h).
       Inr (q\<lparr>sq_list := lst, sq_tail := node, sq_list_size := sq_list_size q + 1\<rparr>, h)))))"

section \<open>BlockQueue\<close>

text \<open>\<open>BlockQueue::_get\<close>, \<open>_put\<close> and \<open>open\<close> have the statements of \<open>SimpleQueue\<close>; the public operations take the mutex and
  wait while the queue is empty.\<close>

fun kq_get :: "(SimpleQueue \<times> nheap) list \<Rightarrow> SimpleQueue \<times> nheap \<Rightarrow> (addr \<times> SimpleQueue \<times> nheap) res" where
  "kq_get [] s = (if sq_list_size (fst s) = 0 then Inl Blocked else sq_get_raw s)"
| "kq_get (w # wakes) s = (if sq_list_size (fst s) = 0 then kq_get wakes w else sq_get_raw s)"

fun kq_getM :: "int \<Rightarrow> (SimpleQueue \<times> nheap) list \<Rightarrow> SimpleQueue \<times> nheap \<Rightarrow> (int \<times> addr list \<times> SimpleQueue \<times> nheap) res" where
  "kq_getM want [] s = (if sq_list_size (fst s) = 0 then Inl Blocked else sq_getM_raw want s)"
| "kq_getM want (w # wakes) s = (if sq_list_size (fst s) = 0 then kq_getM want wakes w else sq_getM_raw want s)"

definition kq_put :: "InternalNode \<Rightarrow> addr \<Rightarrow> SimpleQueue \<times> nheap \<Rightarrow> (SimpleQueue \<times> nheap) res" where
  "kq_put junk v s = sq_put junk v s"

section \<open>PriorityQueue\<close>

text \<open>\<open>_pri_queue\<close> is the null pointer until \<open>init\<close> is called.\<close>

record PriorityQueue =
  prq_priority_num :: int
  prq_pri_queue :: "SimpleQueue list option"

definition prq_new :: "int \<Rightarrow> PriorityQueue" where
  "prq_new n = \<lparr>prq_priority_num = (if n \<le> 0 then 1 else n), prq_pri_queue = None\<rparr>"

primrec open_levels :: "nat \<Rightarrow> InternalNode \<Rightarrow> nheap \<Rightarrow> (SimpleQueue list \<times> nheap) res" where
  "open_levels 0 junk h = Inr ([], h)"
| "open_levels (Suc k) junk h = bindr (sq_open junk (sq_new, h)) (\<lambda>(q, h).
     bindr (open_levels k junk h) (\<lambda>(qs, h). Inr (q # qs, h)))"

definition prq_init :: "InternalNode \<Rightarrow> PriorityQueue \<times> nheap \<Rightarrow> (PriorityQueue \<times> nheap) res" where
  "prq_init junk = (\<lambda>(p, h). if prq_priority_num p \<le> 0 then Inl Assert_failed
     else bindr (open_levels (nat (prq_priority_num p)) junk h) (\<lambda>(qs, h). Inr (p\<lparr>prq_pri_queue := Some qs\<rparr>, h)))"

definition prq_levels :: "PriorityQueue \<Rightarrow> SimpleQueue list res" where
  "prq_levels p = (case prq_pri_queue p of None \<Rightarrow> Inl Null_deref | Some qs \<Rightarrow> Inr qs)"

definition prq_total_size :: "PriorityQueue \<Rightarrow> int res" where
  "prq_total_size p = bindr (guardr Assert_failed (0 < prq_priority_num p)) (\<lambda>_.
     bindr (prq_levels p) (\<lambda>qs. Inr (sum_list (map sq_list_size qs))))"

fun prq_get_levels :: "SimpleQueue list \<Rightarrow> nheap \<Rightarrow> (addr \<times> SimpleQueue list \<times> nheap) res" where
  "prq_get_levels [] h = Inr (0, [], h)"
| "prq_get_levels (q # qs) h = (if 0 < sq_list_size q
     then bindr (sq_get (q, h)) (\<lambda>(v, q', h'). Inr (v, q' # qs, h'))
     else bindr (prq_get_levels qs h) (\<lambda>(v, qs', h'). Inr (v, q # qs', h')))"

definition prq_get_raw :: "PriorityQueue \<times> nheap \<Rightarrow> (addr \<times> PriorityQueue \<times> nheap) res" where
  "prq_get_raw = (\<lambda>(p, h). bindr (prq_levels p) (\<lambda>qs. bindr (prq_get_levels qs h) (\<lambda>(v, qs, h). Inr (v, p\<lparr>prq_pri_queue := Some qs\<rparr>, h))))"

fun prq_get :: "(PriorityQueue \<times> nheap) list \<Rightarrow> PriorityQueue \<times> nheap \<Rightarrow> (addr \<times> PriorityQueue \<times> nheap) res" where
  "prq_get [] s = bindr (prq_total_size (fst s)) (\<lambda>n. if n = 0 then Inl Blocked else prq_get_raw s)"
| "prq_get (w # wakes) s = bindr (prq_total_size (fst s)) (\<lambda>n. if n = 0 then prq_get wakes w else prq_get_raw s)"

text \<open>The loop of \<open>getM\<close> over the levels; \<open>cur\<close> of the \<open>c\<close> wanted values are already written.\<close>

fun prq_getM_levels :: "int \<Rightarrow> int \<Rightarrow> SimpleQueue list \<Rightarrow> nheap \<Rightarrow> (addr list \<times> SimpleQueue list \<times> nheap) res" where
  "prq_getM_levels c cur [] h = Inr ([], [], h)"
| "prq_getM_levels c cur (q # qs) h = bindr (sq_getM (c - cur) (q, h)) (\<lambda>(ret, vs, q', h').
     if ret = c - cur then Inr (vs, q' # qs, h')
     else bindr (prq_getM_levels c (cur + ret) qs h') (\<lambda>(ws, qs', h''). Inr (vs @ ws, q' # qs', h'')))"

text \<open>\<open>size\<close> is computed once, before the waiting loop tests it.\<close>

definition prq_getM_raw :: "int \<Rightarrow> int \<Rightarrow> PriorityQueue \<times> nheap \<Rightarrow> (int \<times> addr list \<times> PriorityQueue \<times> nheap) res" where
  "prq_getM_raw sz want = (\<lambda>(p, h). let c = (if sz < want then sz else want) in
     bindr (prq_levels p) (\<lambda>qs. bindr (prq_getM_levels c 0 qs h) (\<lambda>(vs, qs, h). Inr (c, vs, p\<lparr>prq_pri_queue := Some qs\<rparr>, h))))"

fun prq_getM_wait :: "int \<Rightarrow> int \<Rightarrow> (PriorityQueue \<times> nheap) list \<Rightarrow> PriorityQueue \<times> nheap \<Rightarrow>
    (int \<times> addr list \<times> PriorityQueue \<times> nheap) res" where
  "prq_getM_wait sz want [] s = (if sz = 0 then Inl Blocked else prq_getM_raw sz want s)"
| "prq_getM_wait sz want (w # wakes) s = (if sz = 0 then prq_getM_wait sz want wakes w else prq_getM_raw sz want s)"

definition prq_getM :: "int \<Rightarrow> (PriorityQueue \<times> nheap) list \<Rightarrow> PriorityQueue \<times> nheap \<Rightarrow>
    (int \<times> addr list \<times> PriorityQueue \<times> nheap) res" where
  "prq_getM want wakes s = bindr (prq_total_size (fst s)) (\<lambda>sz. prq_getM_wait sz want wakes s)"

definition prq_put :: "InternalNode \<Rightarrow> addr \<Rightarrow> int \<Rightarrow> PriorityQueue \<times> nheap \<Rightarrow> (PriorityQueue \<times> nheap) res" where
  "prq_put junk v priority = (\<lambda>(p, h). if prq_priority_num p \<le> priority then Inr (p, h)
     else bindr (prq_levels p) (\<lambda>qs. if priority < 0 \<or> length qs \<le> nat priority then Inl Out_of_bounds
       else bindr (sq_put junk v (qs ! nat priority, h)) (\<lambda>(q, h). Inr (p\<lparr>prq_pri_queue := Some (qs[nat priority := q])\<rparr>, h))))"

section \<open>Queue\<close>

record QueueElement =
  qe_next :: addr
  qe_id :: "64 word"
  qe_value :: int

record Queue =
  qu_head :: addr
  qu_tail :: addr

type_synonym qheap = "QueueElement heap"

definition set_qnext :: "addr \<Rightarrow> QueueElement \<Rightarrow> QueueElement" where
  "set_qnext p n = n\<lparr>qe_next := p\<rparr>"

interpretation qel: linked_cells qe_next set_qnext
  by unfold_locales (simp_all add: set_qnext_def)

definition qu_new :: Queue where
  "qu_new = \<lparr>qu_head = 0, qu_tail = 0\<rparr>"

definition qu_put :: "int \<Rightarrow> 64 word \<Rightarrow> Queue \<times> qheap \<Rightarrow> (Queue \<times> qheap) res" where
  "qu_put v eid = (\<lambda>(q, h). case halloc \<lparr>qe_next = 0, qe_id = eid, qe_value = v\<rparr> h of (e, h) \<Rightarrow>
     if e = 0 then Inl Abort
     else bindr (append_at set_qnext (qu_head q) (qu_tail q) e h) (\<lambda>(hd, h).
       Inr (q\<lparr>qu_head := hd, qu_tail := e\<rparr>, h)))"

definition qu_get :: "Queue \<times> qheap \<Rightarrow> addr \<times> Queue \<times> qheap" where
  "qu_get = (\<lambda>(q, h). (qu_head q, q\<lparr>qu_head := 0, qu_tail := 0\<rparr>, h))"

definition freeQueueElement :: "addr \<Rightarrow> qheap \<Rightarrow> qheap res" where
  "freeQueueElement v h = hfree v h"

section \<open>What a node queue holds\<close>

definition val_at :: "nheap \<Rightarrow> addr \<Rightarrow> addr" where
  "val_at h a = (case h_cells h a of None \<Rightarrow> 0 | Some n \<Rightarrow> in_v n)"

text \<open>The queue's nodes are \<open>ns\<close>, its idle nodes \<open>is\<close>.\<close>

definition sq_inv :: "SimpleQueue \<times> nheap \<Rightarrow> addr list \<Rightarrow> addr list \<Rightarrow> bool" where
  "sq_inv = (\<lambda>(q, h) ns is. heap_ok h \<and> seg in_next h (sq_list q) (sq_tail q) ns \<and> path in_next h (sq_idle_list q) is 0 \<and>
     set ns \<inter> set is = {} \<and> sq_list_size q = int (length ns))"

definition sq_holds :: "SimpleQueue \<times> nheap \<Rightarrow> addr list \<Rightarrow> bool" where
  "sq_holds s vs \<longleftrightarrow> (\<exists>ns is. sq_inv s ns is \<and> map (val_at (snd s)) ns = vs)"

definition sq_room :: "nat \<Rightarrow> SimpleQueue \<times> nheap \<Rightarrow> bool" where
  "sq_room n s \<longleftrightarrow> h_brk (snd s) + n \<le> h_lim (snd s)"

declare sq_inv_def [inv_defs] sq_holds_def [inv_defs]

lemma sq_put_ok:
  assumes inv: "sq_inv (q, h) ns is" and room: "h_brk h < h_lim h"
  shows "\<exists>q' h' node is'. sq_put junk v (q, h) = Inr (q', h') \<and> sq_inv (q', h') (ns @ [node]) is' \<and>
    val_at h' node = v \<and> (\<forall>n \<in> set ns. val_at h' n = val_at h n) \<and> node \<notin> set ns \<and>
    (\<forall>a. a \<notin> set (ns @ is) \<longrightarrow> a \<noteq> h_brk h \<longrightarrow> h_cells h' a = h_cells h a) \<and>
    set (node # is') \<subseteq> insert (h_brk h) (set is) \<and> (live h node \<longrightarrow> node \<in> set is) \<and>
    h_brk h' \<le> Suc (h_brk h) \<and> h_brk h \<le> h_brk h' \<and> h_lim h' = h_lim h"
proof -
  have ok: "heap_ok h" and s: "seg in_next h (sq_list q) (sq_tail q) ns" and p: "path in_next h (sq_idle_list q) is 0"
    and dj: "set ns \<inter> set is = {}" and sz: "sq_list_size q = int (length ns)" using inv by (auto simp: sq_inv_def)
  obtain node is' q1 h1 where
    pick: "(if sq_idle_list q \<noteq> 0 then bindr (hget h (sq_idle_list q)) (\<lambda>n. Inr (sq_idle_list q, q\<lparr>sq_idle_list := in_next n\<rparr>, h))
      else case halloc junk h of (node, h) \<Rightarrow> if node = 0 then Inl Abort else Inr (node, q, h)) = Inr (node, q1, h1)"
    and k: "heap_ok h1" "seg in_next h1 (sq_list q1) (sq_tail q1) ns" "path in_next h1 (sq_idle_list q1) is' 0"
      "live h1 node" "node \<notin> set ns" "node \<notin> set is'" "set ns \<inter> set is' = {}" "sq_list_size q1 = int (length ns)"
      "\<forall>a. a \<noteq> h_brk h \<longrightarrow> h_cells h1 a = h_cells h a" "h_brk h1 \<le> Suc (h_brk h)" "h_brk h \<le> h_brk h1" "h_lim h1 = h_lim h"
      "set (node # is') \<subseteq> insert (h_brk h) (set is)" "live h node \<longrightarrow> node \<in> set is"
  proof (cases "is")
    case (Cons node is')
    then obtain n where n: "hget h node = Inr n" "sq_idle_list q = node" "path in_next h (in_next n) is' 0" "node \<noteq> 0"
      using p by (auto simp: hget_def split: option.splits)
    have "node \<notin> set is'" using path_distinct[OF p] Cons by simp
    then show ?thesis using that[of node "q\<lparr>sq_idle_list := in_next n\<rparr>" h is'] n s ok dj sz Cons
      by (auto simp: live_iff_hget)
  next
    case Nil
    define node where "node = h_brk h"
    have nd: "node \<noteq> 0" "\<not> live h node" using ok brk_fresh by (auto simp: node_def heap_ok_def)
    have "node \<notin> set ns" using nd seg_live[OF s] by blast
    moreover have "seg in_next (hnew junk h) (sq_list q) (sq_tail q) ns"
      by (rule seg_frame[OF s]) (use \<open>node \<notin> set ns\<close> in \<open>auto simp: node_def\<close>)
    moreover have "live (hnew junk h) node" using nd by (simp add: live_def node_def)
    moreover have "sq_idle_list q = 0" using p Nil by simp
    ultimately show ?thesis using that[of node q "hnew junk h" "[]"] nd room sz ok
      by (auto simp: halloc_room node_def)
  qed
  obtain n where n: "hget h1 node = Inr n" using k(4) by (auto simp: live_iff_hget)
  define h2 where "h2 = hset h1 node (n\<lparr>in_v := v, in_next := 0\<rparr>)"
  have h2: "heap_ok h2" "seg in_next h2 (sq_list q1) (sq_tail q1) ns" "path in_next h2 (sq_idle_list q1) is' 0"
    "hget h2 node = Inr (n\<lparr>in_v := v, in_next := 0\<rparr>)"
    using k n by (simp_all add: h2_def heap_simps hget_Inr)
  from inl.append_one[OF h2(2,4) _ k(5)] obtain lst h3 where h3:
    "append_at set_inext (sq_list q1) (sq_tail q1) node h2 = Inr (lst, h3)" "seg in_next h3 lst node (ns @ [node])"
    "relinked set_inext h2 h3" "\<forall>a. a \<notin> set ns \<longrightarrow> h_cells h3 a = h_cells h2 a" by auto
  have v2: "val_at h3 a = val_at h2 a" for a
  proof -
    have "map_option (set_inext 0) (h_cells h3 a) = map_option (set_inext 0) (h_cells h2 a)" using h3(3) by (simp add: relinked_def)
    then show ?thesis by (cases "h_cells h3 a"; cases "h_cells h2 a") (auto simp: val_at_def set_inext_def dest: arg_cong[of _ _ in_v])
  qed
  have "path in_next h3 (sq_idle_list q1) is' 0" by (rule path_frame[OF h2(3)]) (use h3(4) k(7) in auto)
  moreover have "heap_ok h3" using h2(1) h3(3) relinked_ok by blast
  moreover have "sq_put junk v (q, h) = Inr (q1\<lparr>sq_list := lst, sq_tail := node, sq_list_size := sq_list_size q1 + 1\<rparr>, h3)"
    using pick n h3(1) by (simp add: sq_put_def heap_simps h2_def)
  moreover have "h_brk h3 = h_brk h1" "h_lim h3 = h_lim h1" using h3(3) by (simp_all add: relinked_def h2_def)
  moreover have "val_at h3 node = v" unfolding v2 using h2(4) by (simp add: val_at_def hget_Inr)
  moreover have "val_at h3 a = val_at h a" if "a \<in> set ns" for a
  proof -
    have "live h a" using seg_live[OF s that] .
    then have "a \<noteq> h_brk h" using brk_fresh[OF ok] by blast
    then show ?thesis unfolding v2 using k(5,9) that by (auto simp: val_at_def h2_def)
  qed
  moreover have "h_cells h3 a = h_cells h a" if "a \<notin> set (ns @ is)" "a \<noteq> h_brk h" for a
    using that h3(4) k(9,13) by (auto simp: h2_def)
  ultimately show ?thesis using h3(2) k
    by (intro exI[of _ "q1\<lparr>sq_list := lst, sq_tail := node, sq_list_size := sq_list_size q1 + 1\<rparr>"] exI[of _ h3] exI[of _ node] exI[of _ is'])
      (auto simp: sq_inv_def)
qed

lemma val_at_relink: "hget h a = Inr n \<Longrightarrow> val_at (hset h a (set_inext p n)) = val_at h"
  by (auto simp: val_at_def fun_eq_iff hget_Inr set_inext_def)

text \<open>The loop of \<open>getM\<close> takes the first \<open>c\<close> values and moves their nodes to the idle list.\<close>

lemma getM_loop_ok:
  assumes "path in_next h node ns 0" "path in_next h idle is 0" "set ns \<inter> set is = {}" "c \<le> length ns"
  shows "\<exists>node' idle' h'. getM_loop c node idle h = Inr (map (val_at h) (take c ns), node', idle', h') \<and>
    path in_next h' node' (drop c ns) 0 \<and> path in_next h' idle' (rev (take c ns) @ is) 0 \<and> val_at h' = val_at h \<and>
    relinked set_inext h h' \<and> (\<forall>a. a \<notin> set ns \<longrightarrow> h_cells h' a = h_cells h a)"
  using assms
proof (induction c arbitrary: node ns idle "is" h)
  case (Suc c)
  then obtain n ns' where ns: "ns = n # ns'" by (cases ns) auto
  then obtain d where d: "hget h n = Inr d" "node = n" "path in_next h (in_next d) ns' 0" "n \<noteq> 0"
    using Suc.prems(1) by (auto simp: hget_def split: option.splits)
  define h1 where "h1 = hset h n (set_inext idle d)"
  have dn: "n \<notin> set ns'" "n \<notin> set is" using path_distinct[OF Suc.prems(1)] Suc.prems(3) ns by auto
  have p1: "path in_next h1 (in_next d) ns' 0" "path in_next h1 n (n # is) 0"
    using d(3,4) Suc.prems(2) dn by (simp_all add: h1_def)
  have v1: "val_at h1 = val_at h" unfolding h1_def by (rule val_at_relink[OF d(1)])
  have dj: "set ns' \<inter> set (n # is) = {}" using Suc.prems(3) dn ns by auto
  have c: "c \<le> length ns'" using Suc.prems(4) ns by simp
  from Suc.IH[OF p1 dj c] obtain node' idle' h' where
    "getM_loop c (in_next d) n h1 = Inr (map (val_at h) (take c ns'), node', idle', h')"
    "path in_next h' node' (drop c ns') 0" "path in_next h' idle' (rev (take c ns') @ n # is) 0" "val_at h' = val_at h"
    "relinked set_inext h1 h'" "\<forall>a. a \<notin> set ns' \<longrightarrow> h_cells h' a = h_cells h1 a" unfolding v1 by blast
  moreover have "relinked set_inext h h1" unfolding h1_def by (rule inl.relinked_hset[OF d(1)])
  moreover have "val_at h n = in_v d" using d(1) by (simp add: val_at_def hget_Inr)
  ultimately show ?case using d ns
    by (intro exI[of _ node'] exI[of _ idle'] exI[of _ h']) (auto simp: h1_def intro: relinked_trans)
qed auto

lemma sq_getM_raw_ok:
  assumes inv: "sq_inv (q, h) ns is" and want: "0 \<le> want"
  shows "\<exists>q' h' c. sq_getM_raw want (q, h) = Inr (int c, map (val_at h) (take c ns), q', h') \<and> c = min (nat want) (length ns) \<and>
    sq_inv (q', h') (drop c ns) (rev (take c ns) @ is) \<and> val_at h' = val_at h \<and> relinked set_inext h h' \<and>
    (\<forall>a. a \<notin> set ns \<longrightarrow> h_cells h' a = h_cells h a)"
proof -
  define c where "c = min (nat want) (length ns)"
  have ok: "heap_ok h" and s: "seg in_next h (sq_list q) (sq_tail q) ns" and p: "path in_next h (sq_idle_list q) is 0"
    and dj: "set ns \<inter> set is = {}" and sz: "sq_list_size q = int (length ns)" using inv by (auto simp: sq_inv_def)
  have c: "(if sq_list_size q < want then sq_list_size q else want) = int c" using want sz by (auto simp: c_def)
  have "path in_next h (sq_list q) ns 0" using s by (simp add: seg_def)
  from getM_loop_ok[OF this p dj, of c] obtain node' idle' h' where
    g: "getM_loop c (sq_list q) (sq_idle_list q) h = Inr (map (val_at h) (take c ns), node', idle', h')"
    "path in_next h' node' (drop c ns) 0" "path in_next h' idle' (rev (take c ns) @ is) 0" "val_at h' = val_at h"
    "relinked set_inext h h'" "\<forall>a. a \<notin> set ns \<longrightarrow> h_cells h' a = h_cells h a" by (auto simp: c_def)
  define q' where "q' = q\<lparr>sq_idle_list := idle', sq_list := node', sq_tail := (if node' = 0 then 0 else sq_tail q),
      sq_list_size := sq_list_size q - int c\<rparr>"
  have "node' = 0 \<longleftrightarrow> drop c ns = []" using path_head[OF g(2)] path_live[OF g(2)] by (cases "drop c ns") (auto simp: live_def)
  then have "(if node' = 0 then 0 else sq_tail q) = tail_of (drop c ns)" using s by (auto simp: seg_def tail_of_def)
  moreover have "distinct ns" using seg_distinct[OF s] .
  then have "set (take c ns) \<inter> set (drop c ns) = {}" using set_take_disj_set_drop_if_distinct by blast
  then have "set (drop c ns) \<inter> set (rev (take c ns) @ is) = {}" using dj set_drop_subset[of c ns] by auto
  moreover have "heap_ok h'" using ok g(5) relinked_ok by blast
  moreover have "int (length (drop c ns)) = sq_list_size q - int c" using sz by (simp add: c_def of_nat_diff)
  ultimately have "sq_inv (q', h') (drop c ns) (rev (take c ns) @ is)"
    using g(2,3) by (simp add: sq_inv_def q'_def seg_def)
  moreover have "sq_getM_raw want (q, h) = Inr (int c, map (val_at h) (take c ns), q', h')"
    using g(1) unfolding sq_getM_raw_def prod.case Let_def c by (simp add: q'_def)
  ultimately show ?thesis using g c_def by blast
qed

lemma sq_get_raw_ok:
  assumes inv: "sq_inv (q, h) (n # ns) is"
  shows "\<exists>q' h'. sq_get_raw (q, h) = Inr (val_at h n, q', h') \<and> sq_inv (q', h') ns (n # is) \<and> val_at h' = val_at h \<and>
    relinked set_inext h h' \<and> (\<forall>a. a \<noteq> n \<longrightarrow> h_cells h' a = h_cells h a)"
proof -
  have ok: "heap_ok h" and s: "seg in_next h (sq_list q) (sq_tail q) (n # ns)" and p: "path in_next h (sq_idle_list q) is 0"
    and dj: "set (n # ns) \<inter> set is = {}" and sz: "sq_list_size q = int (length ns) + 1" using inv by (auto simp: sq_inv_def)
  from seg_Cons[OF s] obtain d where d: "hget h n = Inr d" "sq_list q = n" "seg in_next h (in_next d) (tail_of ns) ns" by auto
  have dn: "n \<notin> set ns" "n \<notin> set is" "n \<noteq> 0" using seg_distinct[OF s] dj d(1) by (auto simp: hget_Inr)
  define h' where "h' = hset h n (set_inext (sq_idle_list q) d)"
  have t: "(if in_next d = 0 then 0 else sq_tail q) = tail_of ns" using seg_head_null[OF d(3)] s by (auto simp: seg_def tail_of_def)
  have v: "val_at h n = in_v d" using d(1) by (simp add: val_at_def hget_Inr)
  define q' where "q' = q\<lparr>sq_list := in_next d, sq_tail := tail_of ns, sq_idle_list := n, sq_list_size := sq_list_size q - 1\<rparr>"
  have "sq_get_raw (q, h) = Inr (val_at h n, q', h')"
    using d(1,2) t v by (simp add: sq_get_raw_def Let_def h'_def q'_def)
  moreover have "live h n" using d(1) by (auto simp: live_iff_hget)
  then have "sq_inv (q', h') ns (n # is)" using ok d(3) p dj dn sz by (simp add: sq_inv_def q'_def h'_def)
  moreover have "val_at h' = val_at h" unfolding h'_def by (rule val_at_relink[OF d(1)])
  moreover have "relinked set_inext h h'" unfolding h'_def by (rule inl.relinked_hset[OF d(1)])
  moreover have "\<forall>a. a \<noteq> n \<longrightarrow> h_cells h' a = h_cells h a" by (simp add: h'_def)
  ultimately show ?thesis by blast
qed

text \<open>\<open>SimpleQueue\<close> and \<open>BlockQueue\<close> are first-in first-out queues of values.\<close>

lemma sq_put_holds:
  assumes "sq_holds s vs" "sq_room (Suc n) s"
  shows "\<exists>s'. sq_put junk v s = Inr s' \<and> sq_holds s' (vs @ [v]) \<and> sq_room n s'"
proof -
  obtain q h ns "is" where s: "s = (q, h)" "sq_inv (q, h) ns is" "map (val_at h) ns = vs"
    using assms(1) by (cases s) (auto simp: sq_holds_def)
  have room: "h_brk h < h_lim h" using assms(2) s(1) by (simp add: sq_room_def)
  from sq_put_ok[OF s(2) room, of junk v] obtain q' h' node is' where
    p: "sq_put junk v (q, h) = Inr (q', h')" "sq_inv (q', h') (ns @ [node]) is'" "val_at h' node = v"
    "\<forall>n \<in> set ns. val_at h' n = val_at h n" "h_brk h' \<le> Suc (h_brk h)" "h_lim h' = h_lim h" by blast
  have "map (val_at h') (ns @ [node]) = vs @ [v]" using p(3,4) s(3) by auto
  then have "sq_holds (q', h') (vs @ [v])" unfolding sq_holds_def using p(2) by (metis snd_conv)
  then show ?thesis using p s(1) assms(2) by (auto simp: sq_room_def)
qed

lemma sq_get_holds:
  assumes "sq_holds s (v # vs)"
  shows "\<exists>s'. sq_get s = Inr (v, s') \<and> kq_get [] s = Inr (v, s') \<and> sq_holds s' vs \<and> (\<forall>n. sq_room n s \<longrightarrow> sq_room n s')"
proof -
  obtain q h n ns "is" where s: "s = (q, h)" "sq_inv (q, h) (n # ns) is" "val_at h n = v" "map (val_at h) ns = vs"
    using assms by (cases s) (auto simp: sq_holds_def)
  from sq_get_raw_ok[OF s(2)] s(3) obtain q' h' where p: "sq_get_raw (q, h) = Inr (v, q', h')" "sq_inv (q', h') ns (n # is)"
    "val_at h' = val_at h" "relinked set_inext h h'" by blast
  have "sq_list_size q = int (length ns) + 1" using s(2) by (simp add: sq_inv_def)
  moreover have "sq_holds (q', h') vs" unfolding sq_holds_def using p(2,3) s(4) by auto
  ultimately show ?thesis using p s(1) by (auto simp: sq_get_def sq_room_def relinked_def)
qed

interpretation sq_fifo: fifo_queue sq_holds "\<lambda>s v. True" "\<lambda>e d. True" sq_room "sq_put junk" sq_get for junk
  by unfold_locales (use sq_put_holds sq_get_holds in blast)+

interpretation kq_fifo: fifo_queue sq_holds "\<lambda>s v. True" "\<lambda>e d. True" sq_room "kq_put junk" "kq_get []" for junk
  unfolding kq_put_def by unfold_locales (use sq_put_holds sq_get_holds in blast)+

section \<open>The levels of the priority queue\<close>

type_synonym level = "addr list \<times> addr list"

definition nodes_in :: "level list \<Rightarrow> addr list" where
  "nodes_in ls = concat (map (\<lambda>(ns, is). ns @ is) ls)"

definition vals_in :: "nheap \<Rightarrow> level list \<Rightarrow> addr list" where
  "vals_in h ls = concat (map (\<lambda>(ns, is). map (val_at h) ns) ls)"

definition levels_ok :: "nheap \<Rightarrow> SimpleQueue list \<Rightarrow> level list \<Rightarrow> bool" where
  "levels_ok h qs ls \<longleftrightarrow> heap_ok h \<and> list_all2 (\<lambda>q (ns, is). sq_inv (q, h) ns is) qs ls \<and> distinct (nodes_in ls)"

definition prq_holds :: "PriorityQueue \<times> nheap \<Rightarrow> level list \<Rightarrow> bool" where
  "prq_holds = (\<lambda>(p, h) ls. prq_priority_num p = int (length ls) \<and> ls \<noteq> [] \<and>
     (\<exists>qs. prq_pri_queue p = Some qs \<and> levels_ok h qs ls))"

lemma levels_simps [simp]:
  "nodes_in [] = []" "nodes_in ((ns, is) # ls) = ns @ is @ nodes_in ls"
  "vals_in h [] = []" "vals_in h ((ns, is) # ls) = map (val_at h) ns @ vals_in h ls"
  by (simp_all add: nodes_in_def vals_in_def)

lemma levels_ok_Cons:
  "levels_ok h (q # qs) ((ns, is) # ls) \<longleftrightarrow> sq_inv (q, h) ns is \<and> levels_ok h qs ls \<and> distinct (ns @ is) \<and>
     set (ns @ is) \<inter> set (nodes_in ls) = {}"
  by (auto simp: levels_ok_def sq_inv_def)

lemma sq_inv_frame:
  "sq_inv (q, h) ns is \<Longrightarrow> heap_ok h' \<Longrightarrow> (\<And>a. a \<in> set (ns @ is) \<Longrightarrow> h_cells h' a = h_cells h a) \<Longrightarrow> sq_inv (q, h') ns is"
  unfolding sq_inv_def by (auto intro: seg_frame path_frame)

lemma levels_ok_frame:
  "levels_ok h qs ls \<Longrightarrow> heap_ok h' \<Longrightarrow> (\<And>a. a \<in> set (nodes_in ls) \<Longrightarrow> h_cells h' a = h_cells h a) \<Longrightarrow> levels_ok h' qs ls"
proof (induction qs arbitrary: ls)
  case Nil then show ?case by (auto simp: levels_ok_def)
next
  case (Cons q qs)
  then obtain ns "is" ls' where ls: "ls = (ns, is) # ls'" by (auto simp: levels_ok_def list_all2_Cons1)
  show ?case using Cons.prems Cons.IH[of ls'] unfolding ls levels_ok_Cons
    using sq_inv_frame[of q h ns "is" h'] by auto
qed

lemma vals_in_cong: "(\<And>a. a \<in> set (nodes_in ls) \<Longrightarrow> val_at h' a = val_at h a) \<Longrightarrow> vals_in h' ls = vals_in h ls"
  by (induction ls) auto

lemma sizes_sum: "levels_ok h qs ls \<Longrightarrow> sum_list (map sq_list_size qs) = int (length (vals_in h ls)) \<and>
    (\<forall>q \<in> set qs. 0 \<le> sq_list_size q)"
proof (induction qs arbitrary: ls)
  case Nil then show ?case by (auto simp: levels_ok_def)
next
  case (Cons q qs)
  then obtain ns "is" ls' where ls: "ls = (ns, is) # ls'" by (auto simp: levels_ok_def list_all2_Cons1)
  show ?case using Cons.prems Cons.IH[of ls'] unfolding ls levels_ok_Cons by (auto simp: sq_inv_def)
qed

text \<open>Taking \<open>k\<close> values off the levels, highest priority first.\<close>

lemma prq_getM_levels_ok:
  assumes "levels_ok h qs ls" "cur \<le> c"
  shows "\<exists>qs' h' ls'. prq_getM_levels c cur qs h = Inr (take (nat (c - cur)) (vals_in h ls), qs', h') \<and> levels_ok h' qs' ls' \<and>
    vals_in h' ls' = drop (nat (c - cur)) (vals_in h ls) \<and> length ls' = length ls \<and> set (nodes_in ls') = set (nodes_in ls) \<and>
    val_at h' = val_at h \<and> relinked set_inext h h' \<and> (\<forall>a. a \<notin> set (nodes_in ls) \<longrightarrow> h_cells h' a = h_cells h a)"
  using assms
proof (induction qs arbitrary: ls cur h)
  case Nil
  then have "ls = []" by (simp add: levels_ok_def)
  with Nil show ?case by auto
next
  case (Cons q qs)
  then obtain ns "is" ls1 where ls: "ls = (ns, is) # ls1" by (auto simp: levels_ok_def list_all2_Cons1)
  have l: "sq_inv (q, h) ns is" "levels_ok h qs ls1" "distinct (ns @ is)" "set (ns @ is) \<inter> set (nodes_in ls1) = {}"
    using Cons.prems(1) unfolding ls levels_ok_Cons by auto
  define w where "w = c - cur"
  have w: "0 \<le> w" using Cons.prems(2) by (simp add: w_def)
  define k where "k = min (nat w) (length ns)"
  obtain q1 h1 where g: "sq_getM w (q, h) = Inr (int k, map (val_at h) (take k ns), q1, h1)"
    "sq_inv (q1, h1) (drop k ns) (rev (take k ns) @ is)" "val_at h1 = val_at h" "relinked set_inext h h1"
    "\<forall>a. a \<notin> set ns \<longrightarrow> h_cells h1 a = h_cells h a"
  proof (cases "ns = []")
    case True
    then have "sq_getM w (q, h) = Inr (0, [], q, h)" using l(1) by (simp add: sq_getM_def sq_inv_def)
    then show ?thesis using that[of q h] True l(1) by (simp add: k_def)
  next
    case False
    then have "0 < sq_list_size q" using l(1) by (simp add: sq_inv_def)
    then show ?thesis using sq_getM_raw_ok[OF l(1) w] that by (auto simp: sq_getM_def k_def)
  qed
  have ok1: "heap_ok h1" using g(2) by (simp add: sq_inv_def)
  have l1: "levels_ok h1 qs ls1" using levels_ok_frame[OF l(2) ok1] g(5) l(4) by auto
  have v1: "vals_in h1 ls1 = vals_in h ls1" using g(3) by (simp add: vals_in_def)
  have nodes: "set (drop k ns @ rev (take k ns) @ is) = set (ns @ is)" 
    using set_append[of "take k ns" "drop k ns"] unfolding append_take_drop_id by auto
  have dist: "distinct (drop k ns @ rev (take k ns) @ is)"
    using l(3) distinct_append[of "take k ns" "drop k ns"] set_take_subset[of k ns] set_drop_subset[of k ns] by auto
  show ?case
  proof (cases "int k = w")
    case True
    define ls' where "ls' = (drop k ns, rev (take k ns) @ is) # ls1"
    have "prq_getM_levels c cur (q # qs) h = Inr (map (val_at h) (take k ns), q1 # qs, h1)"
      using g(1) True by (simp add: w_def[symmetric])
    moreover have "levels_ok h1 (q1 # qs) ls'"
      using g(2) l1 l(4) dist nodes unfolding ls'_def levels_ok_Cons by auto
    moreover have "nat w = k" "k \<le> length ns" using True w by (auto simp: k_def)
    moreover have "set (nodes_in ls') = set (nodes_in ls)" using nodes by (auto simp: ls'_def ls)
    moreover have "vals_in h1 ls' = drop k (vals_in h ls)" using \<open>k \<le> length ns\<close> v1 g(3) by (simp add: ls'_def ls drop_map)
    ultimately show ?thesis using g(3,4,5) unfolding w_def[symmetric]
      by (intro exI[of _ "q1 # qs"] exI[of _ h1] exI[of _ ls']) (auto simp: ls take_map ls'_def)
  next
    case False
    then have k: "k = length ns" "length ns < nat w" using w by (auto simp: k_def)
    have "cur + int k \<le> c" using k w by (simp add: w_def)
    from Cons.IH[OF l1 this] obtain qs' h' ls' where r:
      "prq_getM_levels c (cur + int k) qs h1 = Inr (take (nat (w - int k)) (vals_in h ls1), qs', h')" "levels_ok h' qs' ls'"
      "vals_in h' ls' = drop (nat (w - int k)) (vals_in h ls1)" "length ls' = length ls1" "set (nodes_in ls') = set (nodes_in ls1)"
      "val_at h' = val_at h" "relinked set_inext h1 h'" "\<forall>a. a \<notin> set (nodes_in ls1) \<longrightarrow> h_cells h' a = h_cells h1 a"
      unfolding v1 g(3) w_def by (auto simp: algebra_simps)
    define ls2 where "ls2 = ([], rev ns @ is) # ls'"
    have q1: "sq_inv (q1, h') [] (rev ns @ is)"
    proof (rule sq_inv_frame[of _ h1])
      show "sq_inv (q1, h1) [] (rev ns @ is)" using g(2) k(1) by simp
      show "heap_ok h'" using r(2) by (simp add: levels_ok_def)
      show "\<And>a. a \<in> set ([] @ rev ns @ is) \<Longrightarrow> h_cells h' a = h_cells h1 a" using r(8) l(4) by auto
    qed
    have e: "nat (w - int (length ns)) = nat w - length ns" using k by simp
    note r = r[unfolded k(1) e]
    have "prq_getM_levels c cur (q # qs) h = Inr (map (val_at h) ns @ take (nat w - length ns) (vals_in h ls1), q1 # qs', h')"
      using g(1) r(1) False k(1) by (simp add: w_def[symmetric] e)
    moreover have "levels_ok h' (q1 # qs') ls2" using q1 r(2,5) l(3,4) unfolding ls2_def levels_ok_Cons by auto
    moreover have "relinked set_inext h h'" using g(4) r(7) relinked_trans by blast
    moreover have "\<forall>a. a \<notin> set (nodes_in ls) \<longrightarrow> h_cells h' a = h_cells h a" using g(5) r(8) by (simp add: ls)
    moreover have "set (nodes_in ls2) = set (nodes_in ls)" using r(5) by (simp add: ls2_def ls)
    ultimately show ?thesis using r(3,4,6) k unfolding w_def[symmetric]
      by (intro exI[of _ "q1 # qs'"] exI[of _ h'] exI[of _ ls2]) (auto simp: ls ls2_def e)
  qed
qed

section \<open>Properties\<close>

text \<open>C27: \<open>BlockQueue\<close> is a first-in first-out queue of values: any interleaving of \<open>put\<close> and \<open>get\<close> the abstract queue can make, on
  a queue with memory for the puts, returns what the abstract queue returns; the same value may be queued
  several times, and nodes are reused through the idle list.\<close>

theorem lib_block_queue_is_fifo:
  assumes "sq_holds s vs" "spec_run ops vs = Some (outs, ws)" "sq_room (length (puts_of ops)) s"
  shows "\<exists>s'. impl_run (kq_put junk) (kq_get []) ops s = Inr (outs, s') \<and> sq_holds s' ws"
  using kq_fifo.run_refines[OF assms(1,2) _ _ assms(3)] by (simp add: sorted_wrt_true)

theorem lib_block_queue_is_fifo_witness:
  "\<exists>s'. impl_run (kq_put \<lparr>in_next = 5, in_v = 6\<rparr>) (kq_get []) [Put 7, Put 7, Get, Put 8, Get] (sq_new, heap_empty 9) = Inr ([7, 7], s') \<and>
     sq_holds s' [8]"
  by (rule lib_block_queue_is_fifo[of _ "[]"])
    (auto simp: sq_holds_def sq_inv_def sq_new_def sq_room_def heap_empty_def heap_ok_def)

text \<open>C28: \<open>PriorityQueue::getM\<close> on a non-empty queue returns \<open>min(want, size)\<close> values in sequence, from high priority to low and within a
  priority in order of arrival, and leaves exactly the other values queued.\<close>

theorem priority_getM_in_sequence:
  assumes "prq_holds (p, h) ls" "vals_in h ls \<noteq> []" "0 \<le> want"
  shows "\<exists>n p' h' ls'. prq_getM want wakes (p, h) = Inr (int n, take n (vals_in h ls), p', h') \<and> n = min (nat want) (length (vals_in h ls)) \<and>
    prq_holds (p', h') ls' \<and> vals_in h' ls' = drop n (vals_in h ls)"
proof -
  obtain qs where l: "levels_ok h qs ls" "prq_priority_num p = int (length ls)" "ls \<noteq> []" "prq_pri_queue p = Some qs"
    using assms(1) by (auto simp: prq_holds_def)
  define n where "n = min (nat want) (length (vals_in h ls))"
  define sz where "sz = int (length (vals_in h ls))"
  have sz: "prq_total_size p = Inr sz" "sz \<noteq> 0" using sizes_sum[OF l(1)] l assms(2) by (auto simp: prq_total_size_def prq_levels_def sz_def)
  have c: "(if sz < want then sz else want) = int n" using assms(3) by (auto simp: n_def sz_def)
  from prq_getM_levels_ok[OF l(1), of 0 "int n"] obtain qs' h' ls' where
    r: "prq_getM_levels (int n) 0 qs h = Inr (take n (vals_in h ls), qs', h')" "levels_ok h' qs' ls'"
    "vals_in h' ls' = drop n (vals_in h ls)" "length ls' = length ls" by auto
  have "prq_getM_raw sz want (p, h) = Inr (int n, take n (vals_in h ls), p\<lparr>prq_pri_queue := Some qs'\<rparr>, h')"
    using r(1) l(4) unfolding prq_getM_raw_def prod.case Let_def c by (simp add: prq_levels_def)
  then have "prq_getM want wakes (p, h) = Inr (int n, take n (vals_in h ls), p\<lparr>prq_pri_queue := Some qs'\<rparr>, h')"
    using sz by (cases wakes) (simp_all add: prq_getM_def)
  moreover have "ls' \<noteq> []" using r(4) l(3) by (cases ls') auto
  ultimately show ?thesis using r l(2) n_def
    by (intro exI[of _ n] exI[of _ "p\<lparr>prq_pri_queue := Some qs'\<rparr>"] exI[of _ h'] exI[of _ ls']) (simp add: prq_holds_def)
qed

text \<open>\<open>PriorityQueue::getM\<close> on an empty queue waits for ever: it reads the total size once and tests that copy, so no sequence
  of states produced by other threads wakes it up, while \<open>get\<close> on the same queue returns as soon as a
  value has arrived.\<close>

lemma priority_getM_hangs_when_empty:
  assumes "prq_total_size (fst s) = Inr 0" "prq_total_size (fst w) = Inr n" "n \<noteq> 0"
  shows "prq_getM want wakes s = Inl Blocked \<and> prq_get [w] s = prq_get_raw w"
proof -
  have "prq_getM_wait 0 want wakes s = Inl Blocked" for s
    by (induction wakes arbitrary: s) simp_all
  then show ?thesis using assms by (simp add: prq_getM_def)
qed

text \<open>A queue of two levels with the values 5 and 6 at the high and 7 at the low priority, for the examples.\<close>

definition prq_demo :: "PriorityQueue \<times> nheap" where
  "prq_demo = (\<lparr>prq_priority_num = 2, prq_pri_queue = Some [\<lparr>sq_idle_list = 0, sq_list = 1, sq_tail = 2, sq_list_size = 2\<rparr>,
       \<lparr>sq_idle_list = 0, sq_list = 3, sq_tail = 3, sq_list_size = 1\<rparr>]\<rparr>,
     \<lparr>h_cells = [1 \<mapsto> \<lparr>in_next = 2, in_v = 5\<rparr>, 2 \<mapsto> \<lparr>in_next = 0, in_v = 6\<rparr>, 3 \<mapsto> \<lparr>in_next = 0, in_v = 7\<rparr>],
      h_brk = 4, h_lim = 9\<rparr>)"

lemma prq_demo_holds: "prq_holds prq_demo [([1, 2], []), ([3], [])]" "vals_in (snd prq_demo) [([1, 2], []), ([3], [])] = [5, 6, 7]"
  by (simp_all add: prq_holds_def prq_demo_def levels_ok_def sq_inv_def seg_def tail_of_def heap_ok_def val_at_def)

theorem priority_getM_in_sequence_witness:
  "\<exists>p' h'. prq_getM 2 [] prq_demo = Inr (2, [5, 6], p', h')"
  using priority_getM_in_sequence[of "fst prq_demo" "snd prq_demo" "[([1, 2], []), ([3], [])]" 2 "[]"] prq_demo_holds
  by (auto simp: numeral_2_eq_2)

end
