(* ===== verification/Routing.thy ===== *)
theory Routing
  imports MsgQueues "HOL-Library.AList" "HOL-Library.Multiset"
begin

text \<open>
  Where a message goes: the threads that group a batch of messages (\<open>framework/ms/ms_message_collector.cpp\<close>,
  \<open>ms_message_router_local.cpp\<close>, \<open>ms_message_router_remote.cpp\<close>), the table of users and the router over it
  (\<open>message/im_user_channel_register_table_local.h\<close>, \<open>im_user_message_router.cpp\<close>) and the collector of
  undelivered messages (\<open>im_pending_message_collector_core.cpp\<close>).

  One turn of the endless loop of a thread is one definition. What a thread hands to the io cluster is its
  output, a list of the calls of \<open>dispatchPushList\<close>. The order in which a \<open>boost::unordered_map\<close> is walked is
  a parameter, a rearrangement of its entries.
\<close>

section \<open>Grouping a batch of messages\<close>

record InternalMessageQueue =
  iq_head :: addr
  iq_tail :: addr
  iq_count :: int

definition zero_slot :: InternalMessageQueue where
  "zero_slot = \<lparr>iq_head = 0, iq_tail = 0, iq_count = 0\<rparr>"

text \<open>The loop \<open>while (list)\<close> of the three threads: the message is cut off the list and put into the slot of
  its key.\<close>

primrec group_loop :: "('k \<Rightarrow> addr \<Rightarrow> 's \<times> mheap \<Rightarrow> ('s \<times> mheap) res) \<Rightarrow> (IMessage \<Rightarrow> 'k) \<Rightarrow>
    nat \<Rightarrow> addr \<Rightarrow> 's \<times> mheap \<Rightarrow> ('s \<times> mheap) res" where
  "group_loop put key 0 list st = (if list = 0 then Inr st else Inl Diverge)"
| "group_loop put key (Suc k) list st = (if list = 0 then Inr st else case st of (s, h) \<Rightarrow>
     bindr (hget h list) (\<lambda>m.
     bindr (put (key m) list (s, hset h list (set_next 0 m))) (group_loop put key k (m_next m))))"

text \<open>The slots of an \<open>unordered_map\<close>.\<close>

definition map_slot :: "('k \<times> InternalMessageQueue) list \<Rightarrow> 'k \<Rightarrow> InternalMessageQueue" where
  "map_slot gs k = (case map_of gs k of None \<Rightarrow> zero_slot | Some t \<Rightarrow> t)"

definition map_put :: "'k \<Rightarrow> addr \<Rightarrow> ('k \<times> InternalMessageQueue) list \<times> mheap \<Rightarrow>
    (('k \<times> InternalMessageQueue) list \<times> mheap) res" where
  "map_put k msg = (\<lambda>(gs, h). case map_of gs k of
       Some target \<Rightarrow> bindr (hmod h (iq_tail target) (set_next msg)) (\<lambda>h.
         Inr (AList.update k (target\<lparr>iq_tail := msg, iq_count := iq_count target + 1\<rparr>) gs, h))
     | None \<Rightarrow> Inr (AList.update k \<lparr>iq_head = msg, iq_tail = msg, iq_count = 1\<rparr> gs, h))"

text \<open>The slots of the array \<open>sort\<close>, of which the first \<open>io_count\<close> are used; the index is the field \<open>_io\<close> read
  as an unsigned integer.\<close>

definition sort_put :: "nat \<Rightarrow> addr \<Rightarrow> InternalMessageQueue list \<times> mheap \<Rightarrow> (InternalMessageQueue list \<times> mheap) res" where
  "sort_put io msg = (\<lambda>(sort, h). if length sort \<le> io then Inl Assert_failed
     else let slot = sort ! io in
       bindr (append_at set_next (iq_head slot) (iq_tail slot) msg h) (\<lambda>(hd, h).
       Inr (sort[io := \<lparr>iq_head = hd, iq_tail = msg, iq_count = iq_count slot + 1\<rparr>], h)))"

definition io_index :: "IMessage \<Rightarrow> nat" where
  "io_index m = nat (m_io m mod 4294967296)"

section \<open>The threads\<close>

definition router_route :: "addr \<Rightarrow> MsMessageBlockQueue \<times> mheap \<Rightarrow> (MsMessageBlockQueue \<times> mheap) res" where
  "router_route = bq_putList"

text \<open>\<open>MsMessageRouterLocal::Impl::run\<close>\<close>

definition local_start :: "nat \<Rightarrow> unit res" where
  "local_start io_count = guardr Assert_failed (io_count < 1024)"

definition local_run :: "nat \<Rightarrow> MsMessageBlockQueue \<times> mheap \<Rightarrow>
    ((nat \<times> addr) list \<times> MsMessageBlockQueue \<times> mheap) res" where
  "local_run io_count st = bindr (bq_get st) (\<lambda>(list, q, h).
     bindr (group_loop sort_put io_index (h_brk h) list (replicate io_count zero_slot, h)) (\<lambda>(sort, h).
     Inr (map (\<lambda>i. (i, iq_head (sort ! i))) (filter (\<lambda>i. 0 < iq_count (sort ! i)) [0..<io_count]), q, h)))"

text \<open>\<open>MsMessageRouterRemote::Impl::run\<close>: the connection is the key, as a signed integer.\<close>

definition remote_run :: "((int \<times> InternalMessageQueue) list \<Rightarrow> (int \<times> InternalMessageQueue) list) \<Rightarrow>
    MsMessageBlockQueue \<times> mheap \<Rightarrow> ((nat \<times> addr) list \<times> MsMessageBlockQueue \<times> mheap) res" where
  "remote_run ord st = bindr (bq_get st) (\<lambda>(list, q, h).
     bindr (group_loop map_put (\<lambda>m. sint (m_conn m)) (h_brk h) list ([], h)) (\<lambda>(gs, h).
     Inr (map (\<lambda>(k, t). (0, iq_head t)) (ord gs), q, h)))"

text \<open>\<open>MsMessageCollector::Impl\<close>: \<open>collect\<close>, \<open>collectList\<close> and one turn of \<open>run\<close>, which calls the core (null
  aborts) on every group.\<close>

definition collector_collect :: "addr \<Rightarrow> MsMessageBlockQueue \<times> mheap \<Rightarrow> (MsMessageBlockQueue \<times> mheap) res" where
  "collector_collect = bq_put"

definition collector_collectList :: "addr \<Rightarrow> MsMessageBlockQueue \<times> mheap \<Rightarrow> (MsMessageBlockQueue \<times> mheap) res" where
  "collector_collectList = bq_putList"

primrec each_group :: "(addr \<Rightarrow> 'w \<times> mheap \<Rightarrow> ('w \<times> mheap) res) \<Rightarrow> ('k \<times> InternalMessageQueue) list \<Rightarrow>
    'w \<times> mheap \<Rightarrow> ('w \<times> mheap) res" where
  "each_group core [] w = Inr w"
| "each_group core (g # gs) w = bindr (core (iq_head (snd g)) w) (each_group core gs)"

definition collector_run :: "(addr \<Rightarrow> 'w \<times> mheap \<Rightarrow> ('w \<times> mheap) res) option \<Rightarrow>
    ((int \<times> InternalMessageQueue) list \<Rightarrow> (int \<times> InternalMessageQueue) list) \<Rightarrow>
    'w \<Rightarrow> MsMessageBlockQueue \<times> mheap \<Rightarrow> ('w \<times> MsMessageBlockQueue \<times> mheap) res" where
  "collector_run core ord w st = (case core of None \<Rightarrow> Inl Abort | Some collect \<Rightarrow>
     bindr (bq_get st) (\<lambda>(list, q, h).
     bindr (group_loop map_put m_uid (h_brk h) list ([], h)) (\<lambda>(gs, h).
     bindr (each_group collect (ord gs) (w, h)) (\<lambda>(w, h). Inr (w, q, h)))))"

section \<open>The users of this instance\<close>

record IoChannel =
  ch_uid :: int
  ch_io :: int
  ch_conn :: "64 word"
  ch_host :: "64 word"

type_synonym register_table = "int \<rightharpoonup> IoChannel"

definition reg_get :: "int \<Rightarrow> IoChannel \<Rightarrow> register_table \<Rightarrow> IoChannel" where
  "reg_get key channel t = (case t key of None \<Rightarrow> channel\<lparr>ch_uid := -1\<rparr> | Some c \<Rightarrow> c)"

definition reg_set :: "int \<Rightarrow> IoChannel \<Rightarrow> register_table \<Rightarrow> register_table" where
  "reg_set key channel t = t(key \<mapsto> channel)"

definition reg_unset :: "int \<Rightarrow> register_table \<Rightarrow> register_table" where
  "reg_unset key t = t(key := None)"

definition reg_getOrUnset :: "int \<Rightarrow> 64 word \<Rightarrow> IoChannel \<Rightarrow> register_table \<Rightarrow> IoChannel \<times> register_table" where
  "reg_getOrUnset key conn channel t = (case t key of None \<Rightarrow> (channel\<lparr>ch_uid := -1\<rparr>, t)
     | Some c \<Rightarrow> if ch_conn c \<le> conn then (channel\<lparr>ch_uid := -1\<rparr>, t(key := None)) else (c, t))"

section \<open>ImUserMessageRouter\<close>

text \<open>The router has the table and the queue of the local router thread; messages live in the heap. A local
  \<open>IoChannel\<close> starts with whatever is on the stack, the argument \<open>stk\<close>.\<close>

type_synonym um_state = "register_table \<times> MsMessageBlockQueue"

definition set_channel :: "int \<Rightarrow> 64 word \<Rightarrow> IMessage \<Rightarrow> IMessage" where
  "set_channel io conn m = m\<lparr>m_io := io, m_conn := conn\<rparr>"

definition um_route :: "IoChannel \<Rightarrow> addr \<Rightarrow> um_state \<times> mheap \<Rightarrow> (addr \<times> um_state \<times> mheap) res" where
  "um_route stk msg = (\<lambda>((t, q), h). bindr (hget h msg) (\<lambda>m.
     let channel = reg_get (m_uid m) stk t in
     if ch_uid channel \<noteq> -1 then
       bindr (router_route msg (q, hset h msg (set_channel (ch_io channel) (ch_conn channel) m))) (\<lambda>(q, h).
       Inr (0, (t, q), h))
     else Inr (msg, (t, q), h)))"

definition um_routeBack :: "addr \<Rightarrow> um_state \<times> mheap \<Rightarrow> (um_state \<times> mheap) res" where
  "um_routeBack msg = (\<lambda>((t, q), h). bindr (router_route msg (q, h)) (\<lambda>(q, h). Inr ((t, q), h)))"

text \<open>The two lists \<open>routeList\<close> builds through the pointers \<open>local_trans\<close> and \<open>pending_trans\<close> to the last link:
  the pair of the head and the node that owns that link, 0 while it is the head itself.\<close>

definition trans_put :: "addr \<Rightarrow> addr \<times> addr \<Rightarrow> mheap \<Rightarrow> (addr \<times> (addr \<times> addr) \<times> mheap) res" where
  "trans_put msg = (\<lambda>(list, trans) h. bindr (append_at set_next list trans msg h) (\<lambda>(list, h).
     bindr (hget h msg) (\<lambda>m. Inr (m_next m, (list, msg), hset h msg (set_next 0 m)))))"

primrec routeList_loop :: "nat \<Rightarrow> register_table \<Rightarrow> IoChannel \<Rightarrow> addr \<Rightarrow> addr \<times> addr \<Rightarrow> addr \<times> addr \<Rightarrow> mheap \<Rightarrow>
    (addr \<times> addr \<times> mheap) res" where
  "routeList_loop 0 t channel msg loc pend h = (if msg = 0 then Inr (fst loc, fst pend, h) else Inl Diverge)"
| "routeList_loop (Suc k) t channel msg loc pend h = (if msg = 0 then Inr (fst loc, fst pend, h)
     else bindr (hget h msg) (\<lambda>m.
       let channel = reg_get (m_uid m) channel t in
       if ch_uid channel \<noteq> -1 then
         bindr (trans_put msg loc (hset h msg (set_channel (ch_io channel) (ch_conn channel) m)))
           (\<lambda>(next, loc, h). routeList_loop k t channel next loc pend h)
       else bindr (trans_put msg pend h) (\<lambda>(next, pend, h). routeList_loop k t channel next loc pend h)))"

definition um_routeList :: "IoChannel \<Rightarrow> addr \<Rightarrow> um_state \<times> mheap \<Rightarrow> (addr \<times> um_state \<times> mheap) res" where
  "um_routeList stk msg = (\<lambda>((t, q), h).
     bindr (routeList_loop (h_brk h) t stk msg (0, 0) (0, 0) h) (\<lambda>(local_list, pending_list, h).
     if local_list \<noteq> 0 then bindr (router_route local_list (q, h)) (\<lambda>(q, h). Inr (pending_list, (t, q), h))
     else Inr (pending_list, (t, q), h)))"

text \<open>\<open>int new_conn = channel._conn;\<close> keeps the low 32 bits, and storing it back into the field extends the sign.\<close>

definition int_conn :: "64 word \<Rightarrow> 64 word" where
  "int_conn c = word_of_int (s32 (uint c))"

primrec retarget_loop :: "nat \<Rightarrow> int \<Rightarrow> 64 word \<Rightarrow> addr \<Rightarrow> mheap \<Rightarrow> mheap res" where
  "retarget_loop 0 io conn item h = (if item = 0 then Inr h else Inl Diverge)"
| "retarget_loop (Suc k) io conn item h = (if item = 0 then Inr h
     else bindr (hget h item) (\<lambda>m. retarget_loop k io conn (m_next m) (hset h item (set_channel io conn m))))"

definition um_failureRoute :: "IoChannel \<Rightarrow> int \<Rightarrow> 64 word \<Rightarrow> addr \<Rightarrow> um_state \<times> mheap \<Rightarrow> (int \<times> um_state \<times> mheap) res" where
  "um_failureRoute stk uid maxConn msg = (\<lambda>((t, q), h).
     case reg_getOrUnset uid maxConn stk t of (channel, t) \<Rightarrow>
     if ch_uid channel \<noteq> -1 then
       bindr (retarget_loop (h_brk h) (ch_io channel) (int_conn (ch_conn channel)) msg h) (\<lambda>h.
       bindr (router_route msg (q, h)) (\<lambda>(q, h). Inr (-1, (t, q), h)))
     else Inr (-1, (t, q), h))"

definition um_update :: "64 word \<Rightarrow> addr \<Rightarrow> um_state \<times> mheap \<Rightarrow> (int \<times> um_state \<times> mheap) res" where
  "um_update g_im_instance msg = (\<lambda>((t, q), h). bindr (hget h msg) (\<lambda>m.
     Inr (0, (reg_set (m_uid m) \<lparr>ch_uid = m_uid m, ch_io = m_io m, ch_conn = m_conn m, ch_host = g_im_instance\<rparr> t, q), h)))"

section \<open>ImPendingMessageCollectorCore\<close>

text \<open>The loop for the message with the highest connection; its connection is what is used afterwards.\<close>

primrec max_conn_loop :: "nat \<Rightarrow> addr \<Rightarrow> 64 word \<Rightarrow> mheap \<Rightarrow> (64 word) res" where
  "max_conn_loop 0 item best h = (if item = 0 then Inr best else Inl Diverge)"
| "max_conn_loop (Suc k) item best h = (if item = 0 then Inr best
     else bindr (hget h item) (\<lambda>m. max_conn_loop k (m_next m) (if best < m_conn m then m_conn m else best) h))"

definition pending_collect :: "IoChannel \<Rightarrow> addr \<Rightarrow> um_state \<times> mheap \<Rightarrow> (um_state \<times> mheap) res" where
  "pending_collect stk msg = (\<lambda>(u, h). bindr (hget h msg) (\<lambda>m.
     bindr (max_conn_loop (h_brk h) (m_next m) (m_conn m) h) (\<lambda>best.
     bindr (um_failureRoute stk (m_uid m) best msg (u, h)) (\<lambda>(ret, u, h).
     if ret = -1 then bindr (nodes_of m_next h (h_brk h) msg) (\<lambda>ms.
       bindr (release_all ms h) (\<lambda>h. Inr (u, h)))
     else Inr (u, h)))))"

section \<open>Lemmas on grouping\<close>

text \<open>One message is cut off the front of a chain, changed (its link cleared) and appended to another chain.\<close>

lemma move_one:
  assumes p: "mpath h p (x # xs) 0" "hget h x = Inr m" and s: "mseg h l t ys" "set ys \<inter> set (x # xs) = {}" and c: "m_next c = 0"
  shows "\<exists>l' h'. append_at set_next l t x (hset h x c) = Inr (l', h') \<and> mseg h' l' x (ys @ [x]) \<and>
    mpath h' (m_next m) xs 0 \<and> relinked set_next (hset h x c) h' \<and>
    (\<forall>a. a \<noteq> x \<longrightarrow> a \<notin> set ys \<longrightarrow> h_cells h' a = h_cells h a)"
proof -
  have x: "x \<notin> set xs" "x \<notin> set ys" "x \<noteq> 0" using path_distinct[OF p(1)] s(2) p(2) by (auto simp: hget_Inr)
  have q: "mpath h (m_next m) xs 0" using p by (auto simp: hget_Inr)
  have s1: "mseg (hset h x c) l t ys" "hget (hset h x c) x = Inr c" using s x by (auto simp: heap_simps)
  from ml.append_one[OF this c x(2)] obtain l' h' where h':
    "append_at set_next l t x (hset h x c) = Inr (l', h')" "mseg h' l' x (ys @ [x])"
    "relinked set_next (hset h x c) h'" "\<forall>a. a \<notin> set ys \<longrightarrow> h_cells h' a = h_cells (hset h x c) a" by auto
  have "mpath h' (m_next m) xs 0"
    by (rule path_frame[OF q]) (use h'(4) x s(2) in auto)
  then show ?thesis using h' by auto
qed

text \<open>A table of slots whose \<open>put\<close> appends the message to the slot of its key.\<close>

locale slot_table =
  fixes slot :: "'s \<Rightarrow> 'k \<Rightarrow> InternalMessageQueue" and admits :: "'s \<Rightarrow> 'k \<Rightarrow> bool"
    and put :: "'k \<Rightarrow> addr \<Rightarrow> 's \<times> mheap \<Rightarrow> ('s \<times> mheap) res"
  assumes put_law: "admits s k \<Longrightarrow> msg \<noteq> 0 \<Longrightarrow>
      append_at set_next (iq_head (slot s k)) (iq_tail (slot s k)) msg h = Inr (l, h') \<Longrightarrow>
      \<exists>s'. put k msg (s, h) = Inr (s', h') \<and> (\<forall>j. admits s j \<longrightarrow> admits s' j) \<and>
        slot s' = (slot s)(k := \<lparr>iq_head = l, iq_tail = msg, iq_count = iq_count (slot s k) + 1\<rparr>)"
begin

definition grouped :: "mheap \<Rightarrow> 's \<Rightarrow> ('k \<Rightarrow> addr list) \<Rightarrow> bool" where
  "grouped h s g \<longleftrightarrow> (\<forall>k. mseg h (iq_head (slot s k)) (iq_tail (slot s k)) (g k) \<and>
     iq_count (slot s k) = int (length (g k)))"

lemma put_grouped:
  assumes g: "grouped h s g" "\<And>j k. j \<noteq> k \<Longrightarrow> set (g j) \<inter> set (g k) = {}" "\<And>k. set (g k) \<inter> set (x # xs) = {}"
    and p: "mpath h p (x # xs) 0" "hget h x = Inr m" and a: "admits s k"
  shows "\<exists>s' h'. put k x (s, hset h x (set_next 0 m)) = Inr (s', h') \<and> grouped h' s' (g(k := g k @ [x])) \<and>
    mpath h' (m_next m) xs 0 \<and> relinked set_next h h' \<and> (\<forall>j. admits s j \<longrightarrow> admits s' j) \<and>
    (\<forall>a. a \<noteq> x \<longrightarrow> a \<notin> set (g k) \<longrightarrow> h_cells h' a = h_cells h a)"
proof -
  have sg: "mseg h (iq_head (slot s j)) (iq_tail (slot s j)) (g j)" "iq_count (slot s j) = int (length (g j))" for j
    using g(1) by (auto simp: grouped_def)
  from move_one[OF p sg(1) g(3), of "set_next 0 m" k] obtain l h' where h':
    "append_at set_next (iq_head (slot s k)) (iq_tail (slot s k)) x (hset h x (set_next 0 m)) = Inr (l, h')"
    "mseg h' l x (g k @ [x])" "mpath h' (m_next m) xs 0" "relinked set_next (hset h x (set_next 0 m)) h'"
    "\<forall>a. a \<noteq> x \<longrightarrow> a \<notin> set (g k) \<longrightarrow> h_cells h' a = h_cells h a" by auto
  have x: "x \<noteq> 0" using p(2) by (simp add: hget_Inr)
  from put_law[OF a x h'(1)] obtain s' where s': "put k x (s, hset h x (set_next 0 m)) = Inr (s', h')"
    "\<forall>j. admits s j \<longrightarrow> admits s' j"
    "slot s' = (slot s)(k := \<lparr>iq_head = l, iq_tail = x, iq_count = iq_count (slot s k) + 1\<rparr>)" by blast
  have "mseg h' (iq_head (slot s j)) (iq_tail (slot s j)) (g j)" if "j \<noteq> k" for j
    by (rule seg_frame[OF sg(1)]) (use h'(5) g(2)[OF that] g(3)[of j] in auto)
  then have "grouped h' s' (g(k := g k @ [x]))" using h'(2) sg(2) by (simp add: grouped_def s'(3))
  moreover have "relinked set_next h h'"
    by (rule relinked_trans[OF ml.relinked_hset[OF p(2)] h'(4)])
  ultimately show ?thesis using s'(1,2) h'(3,5) by blast
qed

lemma group_loop_ok:
  assumes "mpath h p xs 0" "length xs \<le> n" "grouped h s g" "\<And>j k. j \<noteq> k \<Longrightarrow> set (g j) \<inter> set (g k) = {}"
    "\<And>k. set (g k) \<inter> set xs = {}" "\<And>x. x \<in> set xs \<Longrightarrow> admits s (kf x)"
    "\<And>x m. x \<in> set xs \<Longrightarrow> h_cells h x = Some m \<Longrightarrow> key m = kf x" "\<And>m v. key (set_next v m) = key m"
  shows "\<exists>s' h'. group_loop put key n p (s, h) = Inr (s', h') \<and> relinked set_next h h' \<and>
    grouped h' s' (\<lambda>k. g k @ filter (\<lambda>x. kf x = k) xs) \<and>
    (\<forall>a. a \<notin> set xs \<longrightarrow> (\<forall>k. a \<notin> set (g k)) \<longrightarrow> h_cells h' a = h_cells h a)"
  using assms
proof (induction xs arbitrary: p n s h g)
  case Nil then show ?case by (cases n) auto
next
  case (Cons x xs)
  obtain n' where n: "n = Suc n'" using Cons.prems(2) by (cases n) auto
  obtain m where m: "hget h x = Inr m" and px: "p = x" "x \<noteq> 0" "h_cells h x = Some m"
    using Cons.prems(1) by (auto simp: hget_Inr split: option.splits)
  have k: "key m = kf x" using Cons.prems(7)[OF _ px(3)] by simp
  have ad: "admits s (kf x)" using Cons.prems(6)[of x] by simp
  from put_grouped[OF Cons.prems(3,4,5,1) m ad] obtain s1 h1 where h1:
    "put (kf x) x (s, hset h x (set_next 0 m)) = Inr (s1, h1)" "grouped h1 s1 (g(kf x := g (kf x) @ [x]))"
    "mpath h1 (m_next m) xs 0" "relinked set_next h h1" "\<forall>j. admits s j \<longrightarrow> admits s1 j"
    "\<forall>a. a \<noteq> x \<longrightarrow> a \<notin> set (g (kf x)) \<longrightarrow> h_cells h1 a = h_cells h a" by blast
  have key1: "key c = kf y" if y: "y \<in> set xs" "h_cells h1 y = Some c" for y c
  proof -
    have "map_option (set_next 0) (h_cells h1 y) = map_option (set_next 0) (h_cells h y)"
      using h1(4) by (simp add: relinked_def)
    then obtain d where "h_cells h y = Some d" "set_next 0 d = set_next 0 c" using y(2) by (cases "h_cells h y") auto
    then show ?thesis using Cons.prems(7)[of y d] Cons.prems(8)[of 0 c] Cons.prems(8)[of 0 d] y(1) by simp
  qed
  have "\<exists>s' h'. group_loop put key n' (m_next m) (s1, h1) = Inr (s', h') \<and> relinked set_next h1 h' \<and>
    grouped h' s' (\<lambda>k. (g(kf x := g (kf x) @ [x])) k @ filter (\<lambda>x. kf x = k) xs) \<and>
    (\<forall>a. a \<notin> set xs \<longrightarrow> (\<forall>k. a \<notin> set ((g(kf x := g (kf x) @ [x])) k)) \<longrightarrow> h_cells h' a = h_cells h1 a)"
  proof (rule Cons.IH[OF h1(3) _ h1(2)])
    show "length xs \<le> n'" using Cons.prems(2) n by simp
    show "set ((g(kf x := g (kf x) @ [x])) j) \<inter> set ((g(kf x := g (kf x) @ [x])) k) = {}" if "j \<noteq> k" for j k
      using Cons.prems(4)[OF that] Cons.prems(5)[of j] Cons.prems(5)[of k] that by auto
    show "set ((g(kf x := g (kf x) @ [x])) k) \<inter> set xs = {}" for k
      using Cons.prems(5)[of k] path_distinct[OF Cons.prems(1)] by auto
  qed (use h1(5) Cons.prems(6,8) key1 in auto)
  then obtain s2 h2 where h2: "group_loop put key n' (m_next m) (s1, h1) = Inr (s2, h2)" "relinked set_next h1 h2"
    "grouped h2 s2 (\<lambda>k. (g(kf x := g (kf x) @ [x])) k @ filter (\<lambda>x. kf x = k) xs)"
    "\<forall>a. a \<notin> set xs \<longrightarrow> (\<forall>k. a \<notin> set ((g(kf x := g (kf x) @ [x])) k)) \<longrightarrow> h_cells h2 a = h_cells h1 a" by blast
  have fr: "\<forall>a. a \<notin> set (x # xs) \<longrightarrow> (\<forall>k. a \<notin> set (g k)) \<longrightarrow> h_cells h2 a = h_cells h a"
    using h1(6) h2(4) by auto
  have "(\<lambda>k. (g(kf x := g (kf x) @ [x])) k @ filter (\<lambda>x. kf x = k) xs) = (\<lambda>k. g k @ filter (\<lambda>x. kf x = k) (x # xs))"
    by auto
  then show ?case using h2(1-3) h1(1) relinked_trans[OF h1(4) h2(2)] m px fr by (simp add: n k)
qed

lemma group_all:
  assumes "heap_ok h" "mpath h p xs 0" "\<And>k. slot s k = zero_slot"
    "\<And>x. x \<in> set xs \<Longrightarrow> admits s (key (the (h_cells h x)))" "\<And>m v. key (set_next v m) = key m"
  shows "\<exists>s' h'. group_loop put key (h_brk h) p (s, h) = Inr (s', h') \<and> relinked set_next h h' \<and>
    grouped h' s' (\<lambda>k. filter (\<lambda>x. key (the (h_cells h x)) = k) xs) \<and> (\<forall>a. a \<notin> set xs \<longrightarrow> h_cells h' a = h_cells h a)"
proof -
  have "\<exists>s' h'. group_loop put key (h_brk h) p (s, h) = Inr (s', h') \<and> relinked set_next h h' \<and>
    grouped h' s' (\<lambda>k. [] @ filter (\<lambda>x. key (the (h_cells h x)) = k) xs) \<and>
    (\<forall>a. a \<notin> set xs \<longrightarrow> (\<forall>k :: 'k. a \<notin> set []) \<longrightarrow> h_cells h' a = h_cells h a)"
    by (rule group_loop_ok)
      (use assms path_length[OF assms(1,2)] in \<open>auto simp: grouped_def zero_slot_def less_imp_le\<close>)
  then show ?thesis by simp
qed

end

interpretation map_table: slot_table map_slot "\<lambda>gs k. \<forall>t. map_of gs k = Some t \<longrightarrow> iq_tail t \<noteq> 0" map_put
  by unfold_locales (auto simp: map_put_def map_slot_def append_at_def zero_slot_def update_conv fun_eq_iff bindr_eq_Inr
      split: option.splits if_splits)

definition sort_slot :: "InternalMessageQueue list \<Rightarrow> nat \<Rightarrow> InternalMessageQueue" where
  "sort_slot slots i = (if i < length slots then slots ! i else zero_slot)"

interpretation sort_table: slot_table sort_slot "\<lambda>slots i. i < length slots" sort_put
  by unfold_locales (auto simp: sort_put_def sort_slot_def fun_eq_iff nth_list_update)

lemma group_loop_length:
  "group_loop sort_put key n p (slots, h) = Inr (slots', h') \<Longrightarrow> length slots' = length slots"
proof (induction n arbitrary: p slots h)
  case (Suc n)
  then show ?case
    by (auto simp: bindr_eq_Inr sort_put_def Let_def split: if_splits dest!: Suc.IH)
qed (auto split: if_splits)

lemma group_loop_keys:
  "group_loop map_put key n p (gs, h) = Inr (gs', h') \<Longrightarrow> distinct (map fst gs) \<Longrightarrow>
   (\<forall>k t. map_of gs k = Some t \<longrightarrow> 0 < iq_count t) \<Longrightarrow>
   distinct (map fst gs') \<and> (\<forall>k t. map_of gs' k = Some t \<longrightarrow> 0 < iq_count t)"
proof (induction n arbitrary: p gs h)
  case (Suc n)
  show ?case
  proof (cases "p = 0")
    case False
    then obtain m gs1 h1 where 1: "map_put (key m) p (gs, hset h p (set_next 0 m)) = Inr (gs1, h1)"
      "group_loop map_put key n (m_next m) (gs1, h1) = Inr (gs', h')"
      using Suc.prems(1) by (auto simp: bindr_eq_Inr)
    have "distinct (map fst gs1)" "\<forall>k t. map_of gs1 k = Some t \<longrightarrow> 0 < iq_count t"
      using 1(1) Suc.prems(2,3)
      by (fastforce simp: map_put_def bindr_eq_Inr update_conv distinct_update split: option.splits if_splits)+
    with Suc.IH[OF 1(2)] show ?thesis by blast
  qed (use Suc.prems in auto)
qed (auto split: if_splits)

abbreviation imsg_at :: "mheap \<Rightarrow> addr \<Rightarrow> IMessage" where
  "imsg_at h a \<equiv> the (h_cells h a)"

lemma local_run_ok:
  assumes "bq_holds (q, h) xs" "xs \<noteq> []" "\<And>x. x \<in> set xs \<Longrightarrow> io_index (imsg_at h x) < n"
  shows "\<exists>outs q' h'. local_run n (q, h) = Inr (outs, q', h') \<and> bq_holds (q', h') [] \<and> relinked set_next h h' \<and>
    map fst outs = filter (\<lambda>i. \<exists>x \<in> set xs. io_index (imsg_at h x) = i) [0..<n] \<and>
    (\<forall>(i, p) \<in> set outs. mpath h' p (filter (\<lambda>x. io_index (imsg_at h x) = i) xs) 0) \<and>
    (\<forall>a. a \<notin> set xs \<longrightarrow> h_cells h' a = h_cells h a)"
proof -
  obtain p q' where g: "bq_get (q, h) = Inr (p, q', h)" "mpath h p xs 0" "bq_holds (q', h) []"
    using bq_get_ok[OF assms(1,2)] by blast
  have ok: "heap_ok h" using g(3) by (simp add: bq_holds_def)
  have z: "sort_slot (replicate n zero_slot) k = zero_slot" for k by (simp add: sort_slot_def)
  have "io_index (set_next v m) = io_index m" for v m by (simp add: io_index_def set_next_def)
  from sort_table.group_all[where key = io_index, OF ok g(2) z _ this] assms(3) obtain s h' where
    s: "group_loop sort_put io_index (h_brk h) p (replicate n zero_slot, h) = Inr (s, h')" "relinked set_next h h'"
    "sort_table.grouped h' s (\<lambda>k. filter (\<lambda>x. io_index (imsg_at h x) = k) xs)"
    "\<forall>a. a \<notin> set xs \<longrightarrow> h_cells h' a = h_cells h a" by auto
  have l: "length s = n" using group_loop_length[OF s(1)] by simp
  have sl: "mpath h' (iq_head (s ! i)) (filter (\<lambda>x. io_index (imsg_at h x) = i) xs) 0"
    "iq_count (s ! i) = int (length (filter (\<lambda>x. io_index (imsg_at h x) = i) xs))" if "i < n" for i
    using s(3) that l by (auto simp: sort_table.grouped_def seg_def sort_slot_def split: if_splits)
  have "filter (\<lambda>i. 0 < iq_count (s ! i)) [0..<n] = filter (\<lambda>i. \<exists>x \<in> set xs. io_index (imsg_at h x) = i) [0..<n]"
    by (rule filter_cong[OF refl]) (auto simp: sl(2) filter_empty_conv)
  moreover have "bq_holds (q', h') []" using g(3) s(2) relinked_ok by (auto simp: bq_holds_def)
  ultimately show ?thesis using g(1) s(1,2,4) sl(1) by (auto simp: local_run_def comp_def)
qed

lemma map_groups_ok:
  assumes "heap_ok h" "mpath h p xs 0" "\<And>m v. key (set_next v m) = key m"
  shows "\<exists>gs h'. group_loop map_put key (h_brk h) p ([], h) = Inr (gs, h') \<and> relinked set_next h h' \<and>
    distinct (map fst gs) \<and> fst ` set gs = (\<lambda>x. key (imsg_at h x)) ` set xs \<and>
    (\<forall>(k, t) \<in> set gs. mpath h' (iq_head t) (filter (\<lambda>x. key (imsg_at h x) = k) xs) 0)"
proof -
  have z: "map_slot [] k = zero_slot" for k :: 'a by (simp add: map_slot_def)
  from map_table.group_all[where key = key, OF assms(1,2) z _ assms(3)] obtain gs h' where
    s: "group_loop map_put key (h_brk h) p ([], h) = Inr (gs, h')" "relinked set_next h h'"
    "map_table.grouped h' gs (\<lambda>k. filter (\<lambda>x. key (imsg_at h x) = k) xs)" by auto
  have d: "distinct (map fst gs)" "\<forall>k t. map_of gs k = Some t \<longrightarrow> 0 < iq_count t"
    using group_loop_keys[OF s(1)] by auto
  have gr: "mpath h' (iq_head (map_slot gs k)) (filter (\<lambda>x. key (imsg_at h x) = k) xs) 0"
    "iq_count (map_slot gs k) = int (length (filter (\<lambda>x. key (imsg_at h x) = k) xs))" for k
    using s(3) by (auto simp: map_table.grouped_def seg_def)
  have sl: "map_slot gs k = t" if "(k, t) \<in> set gs" for k t using that d(1) by (simp add: map_slot_def)
  have "k \<in> fst ` set gs \<longleftrightarrow> filter (\<lambda>x. key (imsg_at h x) = k) xs \<noteq> []" for k
    using gr(2)[of k] d(2) map_of_eq_None_iff[of gs k]
    by (cases "map_of gs k") (fastforce simp: map_slot_def zero_slot_def)+
  then have "fst ` set gs = (\<lambda>x. key (imsg_at h x)) ` set xs"
    by (auto simp: filter_empty_conv set_eq_iff image_iff)
  moreover have "\<forall>(k, t) \<in> set gs. mpath h' (iq_head t) (filter (\<lambda>x. key (imsg_at h x) = k) xs) 0"
    using gr(1) sl by auto
  ultimately show ?thesis using s(1,2) d(1) by blast
qed

section \<open>Lemmas on the user router\<close>

text \<open>The channel a message gets: that of its user, when the table has one.\<close>

definition registered :: "register_table \<Rightarrow> IMessage \<Rightarrow> bool" where
  "registered t m \<longleftrightarrow> (case t (m_uid m) of None \<Rightarrow> False | Some c \<Rightarrow> ch_uid c \<noteq> -1)"

definition routed :: "register_table \<Rightarrow> IMessage \<Rightarrow> IMessage" where
  "routed t m = (case t (m_uid m) of None \<Rightarrow> m
     | Some c \<Rightarrow> if ch_uid c \<noteq> -1 then set_channel (ch_io c) (ch_conn c) m else m)"

lemma routed_next [simp]: "m_next (routed t m) = m_next m" "set_next v (routed t m) = routed t (set_next v m)"
  "registered t (set_next v m) = registered t m"
  by (auto simp: routed_def registered_def set_channel_def set_next_def split: option.splits)

lemma reg_get_routed:
  "ch_uid (reg_get (m_uid m) c t) \<noteq> -1 \<longleftrightarrow> registered t m"
  "registered t m \<Longrightarrow> set_channel (ch_io (reg_get (m_uid m) c t)) (ch_conn (reg_get (m_uid m) c t)) m = routed t m"
  "\<not> registered t m \<Longrightarrow> routed t m = m"
  by (auto simp: reg_get_def registered_def routed_def split: option.splits)

lemma hset_commute: "a \<noteq> b \<Longrightarrow> hset (hset h a c) b d = hset (hset h b d) a c"
  by (simp add: hset_def fun_upd_twist)

lemma trans_put_ok:
  assumes p: "mpath h p (x # xs) 0" "hget h x = Inr m" and s: "mseg h l t ys" "set ys \<inter> set (x # xs) = {}" and n: "m_next c = m_next m"
  shows "\<exists>l' h'. trans_put x (l, t) (hset h x c) = Inr (m_next m, (l', x), h') \<and> mseg h' l' x (ys @ [x]) \<and>
    mpath h' (m_next m) xs 0 \<and> relinked set_next (hset h x c) h' \<and>
    (\<forall>a. a \<noteq> x \<longrightarrow> a \<notin> set ys \<longrightarrow> h_cells h' a = h_cells h a)"
proof -
  have "\<exists>l' h'. append_at set_next l t x (hset h x (set_next 0 c)) = Inr (l', h') \<and> mseg h' l' x (ys @ [x]) \<and>
    mpath h' (m_next m) xs 0 \<and> relinked set_next (hset h x (set_next 0 c)) h' \<and>
    (\<forall>a. a \<noteq> x \<longrightarrow> a \<notin> set ys \<longrightarrow> h_cells h' a = h_cells h a)"
    by (rule move_one[OF p s]) simp
  then obtain l' h' where h': "append_at set_next l t x (hset h x (set_next 0 c)) = Inr (l', h')" "mseg h' l' x (ys @ [x])"
    "mpath h' (m_next m) xs 0" "relinked set_next (hset h x (set_next 0 c)) h'"
    "\<forall>a. a \<noteq> x \<longrightarrow> a \<notin> set ys \<longrightarrow> h_cells h' a = h_cells h a" by blast
  have x: "x \<noteq> 0" using p(2) by (simp add: hget_Inr)
  have "trans_put x (l, t) (hset h x c) = Inr (m_next m, (l', x), h')"
  proof (cases "ys = []")
    case True
    then have t: "t = 0" using s(1) by simp
    show ?thesis using h'(1) x n by (auto simp: trans_put_def t append_at_def heap_simps)
  next
    case False
    then have t: "t \<noteq> 0" "t \<noteq> x" "live h t" using s seg_tail_null[OF s(1)] seg_live[OF s(1), of t] by (auto simp: seg_def)
    then obtain d where d: "hget h t = Inr d" by (auto simp: live_iff_hget)
    have "hget (hset h x e) t = Inr d" for e using d t by (simp add: heap_simps)
    then show ?thesis using h'(1) x n t
      by (auto simp: trans_put_def append_at_def heap_simps hset_commute[of x t])
  qed
  moreover have "relinked set_next (hset h x c) h'"
    using h'(4) relinked_trans[OF ml.relinked_hset[of "hset h x c" x c 0]] x by (simp add: heap_simps)
  ultimately show ?thesis using h'(2,3,5) by blast
qed

definition rerouted :: "register_table \<Rightarrow> addr set \<Rightarrow> mheap \<Rightarrow> mheap \<Rightarrow> bool" where
  "rerouted t A h h' \<longleftrightarrow> h_brk h' = h_brk h \<and> h_lim h' = h_lim h \<and>
     (\<forall>a. map_option (set_next 0) (h_cells h' a) =
       map_option (\<lambda>m. set_next 0 (if a \<in> A then routed t m else m)) (h_cells h a))"

lemma rerouted_ok: "rerouted t A h h' \<Longrightarrow> heap_ok h \<Longrightarrow> heap_ok h'"
  unfolding rerouted_def heap_ok_def by (metis map_option_is_None)

lemma rerouted_step:
  assumes "hget h x = Inr m" "relinked set_next (hset h x (routed t m)) h1" "rerouted t (set xs) h1 h2" "x \<notin> set xs"
  shows "rerouted t (set (x # xs)) h h2"
proof -
  have "map_option (set_next 0) (h_cells h2 a) =
      map_option (\<lambda>m. set_next 0 (if a \<in> set (x # xs) then routed t m else m)) (h_cells h a)" for a
  proof -
    have 1: "map_option (set_next 0) (h_cells h1 a) = map_option (set_next 0) (h_cells (hset h x (routed t m)) a)"
      using assms(2) by (simp add: relinked_def)
    have 2: "map_option (set_next 0) (h_cells h2 a) = map_option (\<lambda>m. if a \<in> set xs then routed t m else m) (map_option (set_next 0) (h_cells h1 a))"
      using assms(3) by (simp add: rerouted_def option.map_comp comp_def if_distrib[of "set_next 0"] cong: if_cong)
    show ?thesis unfolding 2 1 using assms(1,4)
      by (cases "a = x"; cases "h_cells h a") (auto simp: hget_Inr)
  qed
  then show ?thesis using assms(2,3) by (simp add: rerouted_def relinked_def)
qed

lemma routeList_loop_ok:
  assumes "mpath h p xs 0" "length xs \<le> n" "mseg h l lt ls" "mseg h pd pt ps"
    "set ls \<inter> set ps = {}" "set ls \<inter> set xs = {}" "set ps \<inter> set xs = {}"
  shows "\<exists>l' pd' h'. routeList_loop n t c p (l, lt) (pd, pt) h = Inr (l', pd', h') \<and>
    mpath h' l' (ls @ filter (\<lambda>x. registered t (imsg_at h x)) xs) 0 \<and>
    mpath h' pd' (ps @ filter (\<lambda>x. \<not> registered t (imsg_at h x)) xs) 0 \<and> rerouted t (set xs) h h' \<and>
    (\<forall>a. a \<notin> set (ls @ ps @ xs) \<longrightarrow> h_cells h' a = h_cells h a)"
  using assms
proof (induction xs arbitrary: p n c h l lt ls pd pt ps)
  case Nil then show ?case by (cases n) (auto simp: seg_def rerouted_def)
next
  case (Cons x xs)
  obtain n' where n: "n = Suc n'" using Cons.prems(2) by (cases n) auto
  obtain m where m: "hget h x = Inr m" and px: "p = x" "x \<noteq> 0" "h_cells h x = Some m"
    using Cons.prems(1) by (auto simp: hget_Inr split: option.splits)
  have x: "x \<notin> set xs" using path_distinct[OF Cons.prems(1)] by simp
  let ?c = "reg_get (m_uid m) c t"
  have mh: "hset h x m = h" using px(3) by (cases h) (auto simp: hset_def)
  show ?case
  proof (cases "registered t m")
    case True
    from trans_put_ok[OF Cons.prems(1) m Cons.prems(3,6), of "routed t m"] obtain l1 h1 where h1:
      "trans_put x (l, lt) (hset h x (routed t m)) = Inr (m_next m, (l1, x), h1)" "mseg h1 l1 x (ls @ [x])"
      "mpath h1 (m_next m) xs 0" "relinked set_next (hset h x (routed t m)) h1"
      "\<forall>a. a \<noteq> x \<longrightarrow> a \<notin> set ls \<longrightarrow> h_cells h1 a = h_cells h a" by auto
    have ps: "mseg h1 pd pt ps" by (rule seg_frame[OF Cons.prems(4)]) (use h1(5) Cons.prems(5,7) in auto)
    from Cons.IH[OF h1(3) _ h1(2) ps, of n' ?c] Cons.prems(2,5,6,7) x n obtain l2 p2 h2 where h2:
      "routeList_loop n' t ?c (m_next m) (l1, x) (pd, pt) h1 = Inr (l2, p2, h2)"
      "mpath h2 l2 ((ls @ [x]) @ filter (\<lambda>x. registered t (imsg_at h1 x)) xs) 0"
      "mpath h2 p2 (ps @ filter (\<lambda>x. \<not> registered t (imsg_at h1 x)) xs) 0" "rerouted t (set xs) h1 h2"
      "\<forall>a. a \<notin> set ((ls @ [x]) @ ps @ xs) \<longrightarrow> h_cells h2 a = h_cells h1 a" by auto
    have f: "filter (\<lambda>x. registered t (imsg_at h1 x)) xs = filter (\<lambda>x. registered t (imsg_at h x)) xs"
      "filter (\<lambda>x. \<not> registered t (imsg_at h1 x)) xs = filter (\<lambda>x. \<not> registered t (imsg_at h x)) xs"
      by (rule filter_cong; use h1(5) Cons.prems(6) x in auto)+
    show ?thesis using h2 h1(1,5) m px True rerouted_step[OF m h1(4) h2(4) x]
      by (auto simp: n Let_def reg_get_routed f)
  next
    case False
    from trans_put_ok[OF Cons.prems(1) m Cons.prems(4,7), of m] obtain l1 h1 where h1:
      "trans_put x (pd, pt) h = Inr (m_next m, (l1, x), h1)" "mseg h1 l1 x (ps @ [x])"
      "mpath h1 (m_next m) xs 0" "relinked set_next h h1"
      "\<forall>a. a \<noteq> x \<longrightarrow> a \<notin> set ps \<longrightarrow> h_cells h1 a = h_cells h a" by (auto simp: mh)
    have ls: "mseg h1 l lt ls" by (rule seg_frame[OF Cons.prems(3)]) (use h1(5) Cons.prems(5,6) in auto)
    from Cons.IH[OF h1(3) _ ls h1(2), of n' ?c] Cons.prems(2,5,6,7) x n obtain l2 p2 h2 where h2:
      "routeList_loop n' t ?c (m_next m) (l, lt) (l1, x) h1 = Inr (l2, p2, h2)"
      "mpath h2 l2 (ls @ filter (\<lambda>x. registered t (imsg_at h1 x)) xs) 0"
      "mpath h2 p2 ((ps @ [x]) @ filter (\<lambda>x. \<not> registered t (imsg_at h1 x)) xs) 0" "rerouted t (set xs) h1 h2"
      "\<forall>a. a \<notin> set (ls @ (ps @ [x]) @ xs) \<longrightarrow> h_cells h2 a = h_cells h1 a" by auto
    have f: "filter (\<lambda>x. registered t (imsg_at h1 x)) xs = filter (\<lambda>x. registered t (imsg_at h x)) xs"
      "filter (\<lambda>x. \<not> registered t (imsg_at h1 x)) xs = filter (\<lambda>x. \<not> registered t (imsg_at h x)) xs"
      by (rule filter_cong; use h1(5) Cons.prems(7) x in auto)+
    have "relinked set_next (hset h x (routed t m)) h1" using h1(4) False by (simp add: reg_get_routed mh)
    from rerouted_step[OF m this h2(4) x] show ?thesis using h2 h1(1,5) m px False
      by (auto simp: n Let_def reg_get_routed f)
  qed
qed

lemma um_routeList_ok:
  assumes "bq_holds (q, h) ys" "mpath h p xs 0" "set ys \<inter> set xs = {}"
  shows "\<exists>pd q' h'. um_routeList stk p ((t, q), h) = Inr (pd, (t, q'), h') \<and>
    bq_holds (q', h') (ys @ filter (\<lambda>x. registered t (imsg_at h x)) xs) \<and>
    mpath h' pd (filter (\<lambda>x. \<not> registered t (imsg_at h x)) xs) 0 \<and> rerouted t (set xs) h h' \<and>
    (\<forall>a. a \<notin> set ys \<union> set xs \<longrightarrow> h_cells h' a = h_cells h a)"
proof -
  let ?R = "filter (\<lambda>x. registered t (imsg_at h x)) xs" and ?N = "filter (\<lambda>x. \<not> registered t (imsg_at h x)) xs"
  have ok: "heap_ok h" using assms(1) by (simp add: bq_holds_def)
  have "length xs \<le> h_brk h" using path_length[OF ok assms(2)] by simp
  from routeList_loop_ok[OF assms(2) this, of 0 0 "[]" 0 0 "[]" t stk] obtain l pd h1 where h1:
    "routeList_loop (h_brk h) t stk p (0, 0) (0, 0) h = Inr (l, pd, h1)" "mpath h1 l ?R 0" "mpath h1 pd ?N 0"
    "rerouted t (set xs) h h1" "\<forall>a. a \<notin> set xs \<longrightarrow> h_cells h1 a = h_cells h a" by auto
  have ok1: "heap_ok h1" using rerouted_ok[OF h1(4) ok] .
  have q1: "bq_holds (q, h1) ys"
    using assms(1,3) ok1 h1(5) by (auto simp: bq_holds_def intro!: seg_frame[of m_next h])
  show ?thesis
  proof (cases "?R = []")
    case True then show ?thesis using h1 q1 by (auto simp: um_routeList_def)
  next
    case False
    from bq_putList_ok[OF q1 h1(2) False] assms(3) obtain q' h' where h':
      "bq_putList l (q, h1) = Inr (q', h')" "bq_holds (q', h') (ys @ ?R)" "relinked set_next h1 h'"
      "\<forall>a. a \<notin> set ys \<longrightarrow> h_cells h' a = h_cells h1 a" by auto
    have "mpath h' pd ?N 0" by (rule path_frame[OF h1(3)]) (use h'(4) assms(3) in auto)
    moreover have "rerouted t (set xs) h h'" using h1(4) h'(3) by (simp add: rerouted_def relinked_def)
    moreover have "l \<noteq> 0" using h1(2) False path_null[of m_next h1] by metis
    moreover have "\<forall>a. a \<notin> set ys \<union> set xs \<longrightarrow> h_cells h' a = h_cells h a" using h1(5) h'(4) by simp
    ultimately show ?thesis using h1(1) h'(1,2) by (auto simp: um_routeList_def router_route_def)
  qed
qed

section \<open>Lemmas on undelivered messages\<close>

lemma max_conn_loop_ok:
  "mpath h p xs 0 \<Longrightarrow> length xs \<le> n \<Longrightarrow>
   max_conn_loop n p b h = Inr (Max (insert b ((\<lambda>x. m_conn (imsg_at h x)) ` set xs)))"
proof (induction xs arbitrary: p n b)
  case Nil then show ?case by (cases n) auto
next
  case (Cons x xs)
  then obtain n' m where n: "n = Suc n'" and m: "h_cells h x = Some m" "mpath h (m_next m) xs 0" "p = x" "x \<noteq> 0"
    by (cases n) (auto split: option.splits)
  let ?C = "(\<lambda>x. m_conn (imsg_at h x)) ` set xs" and ?b = "if b < m_conn m then m_conn m else b"
  have "max_conn_loop n' (m_next m) ?b h = Inr (Max (insert ?b ?C))"
    by (rule Cons.IH[OF m(2)]) (use Cons.prems(2) n in simp)
  moreover have "Max (insert ?b ?C) = Max (insert b (insert (m_conn m) ?C))"
    by (cases "?C = {}") (auto simp: max_def)
  ultimately show ?case using m n by (simp add: hget_def)
qed

lemma retarget_loop_ok:
  "mpath h p xs 0 \<Longrightarrow> length xs \<le> n \<Longrightarrow>
   \<exists>h'. retarget_loop n io conn p h = Inr h' \<and> h_brk h' = h_brk h \<and> h_lim h' = h_lim h \<and>
     (\<forall>a. h_cells h' a = (if a \<in> set xs then map_option (set_channel io conn) (h_cells h a) else h_cells h a))"
proof (induction xs arbitrary: p n h)
  case Nil then show ?case by (cases n) auto
next
  case (Cons x xs)
  then obtain n' m where n: "n = Suc n'" and m: "h_cells h x = Some m" "mpath h (m_next m) xs 0" "p = x" "x \<noteq> 0"
    by (cases n) (auto split: option.splits)
  have x: "x \<notin> set xs" using path_distinct[OF Cons.prems(1)] by simp
  let ?h = "hset h x (set_channel io conn m)"
  have "mpath ?h (m_next m) xs 0" using m(2) x by simp
  from Cons.IH[OF this, of n'] Cons.prems(2) n obtain h' where
    "retarget_loop n' io conn (m_next m) ?h = Inr h'" "h_brk h' = h_brk h" "h_lim h' = h_lim h"
    "\<forall>a. h_cells h' a = (if a \<in> set xs then map_option (set_channel io conn) (h_cells ?h a) else h_cells ?h a)" by auto
  then show ?case using m n x by (auto simp: hget_def)
qed

text \<open>A registration newer than every connection of the messages: \<open>failureRoute\<close> queues the messages for the
  local router and still reports a failure.\<close>

lemma um_failureRoute_routes:
  assumes q: "bq_holds (q, h) ys" and p: "mpath h p xs 0" "xs \<noteq> []" "set ys \<inter> set xs = {}"
    and c: "t uid = Some c" "ch_uid c \<noteq> -1" "best < ch_conn c"
  shows "\<exists>q' h'. um_failureRoute stk uid best p ((t, q), h) = Inr (-1, (t, q'), h') \<and> bq_holds (q', h') (ys @ xs) \<and>
    mpath h' p xs 0 \<and>
    (\<forall>x \<in> set xs. m_io (imsg_at h' x) = ch_io c \<and> m_conn (imsg_at h' x) = int_conn (ch_conn c))"
proof -
  have ok: "heap_ok h" using q by (simp add: bq_holds_def)
  have "length xs \<le> h_brk h" using path_length[OF ok p(1)] by simp
  from retarget_loop_ok[OF p(1) this] obtain h1 where h1:
    "retarget_loop (h_brk h) (ch_io c) (int_conn (ch_conn c)) p h = Inr h1" "h_brk h1 = h_brk h" "h_lim h1 = h_lim h"
    "\<And>a. h_cells h1 a = (if a \<in> set xs then map_option (set_channel (ch_io c) (int_conn (ch_conn c))) (h_cells h a)
       else h_cells h a)" by metis
  have p1: "mpath h1 p xs 0"
    using path_cong[of xs m_next h1 h p 0] p(1) by (simp add: h1(4) option.map_comp comp_def set_channel_def)
  have ok1: "heap_ok h1" using ok by (auto simp: heap_ok_def h1(2,4))
  have "bq_holds (q, h1) ys" using q p(3) ok1 by (auto simp: bq_holds_def h1(4) intro!: seg_frame[of m_next h])
  from bq_putList_ok[OF this p1 p(2,3)] obtain q' h' where h': "bq_putList p (q, h1) = Inr (q', h')"
    "bq_holds (q', h') (ys @ xs)" "\<forall>a. a \<notin> set ys \<longrightarrow> h_cells h' a = h_cells h1 a" by blast
  have "mpath h' p xs 0" by (rule path_frame[OF p1]) (use h'(3) p(3) in auto)
  moreover have "m_io (imsg_at h' x) = ch_io c \<and> m_conn (imsg_at h' x) = int_conn (ch_conn c)" if "x \<in> set xs" for x
    using that h'(3) p(3) path_live[OF p(1) that] by (auto simp: h1(4) live_def set_channel_def)
  ultimately show ?thesis using c h1(1) h'(1,2)
    by (auto simp: um_failureRoute_def reg_getOrUnset_def router_route_def not_le)
qed

abbreviation max_conn :: "mheap \<Rightarrow> addr list \<Rightarrow> 64 word" where
  "max_conn h xs \<equiv> Max ((\<lambda>x. m_conn (imsg_at h x)) ` set xs)"

lemma pending_collect_start:
  assumes "heap_ok h" "mpath h p xs 0" "xs \<noteq> []"
  shows "pending_collect stk p (u, h) =
    bindr (um_failureRoute stk (m_uid (imsg_at h (hd xs))) (max_conn h xs) p (u, h)) (\<lambda>(ret, u, h).
     if ret = -1 then bindr (nodes_of m_next h (h_brk h) p) (\<lambda>ms.
       bindr (release_all ms h) (\<lambda>h. Inr (u, h)))
     else Inr (u, h))"
proof -
  obtain x ys where xs: "xs = x # ys" using assms(3) by (cases xs) auto
  then obtain m where m: "hget h p = Inr m" "mpath h (m_next m) ys 0" "p = x" "h_cells h x = Some m"
    using assms(2) by (auto simp: hget_def split: option.splits)
  have "length ys \<le> h_brk h" using path_length[OF assms(1,2)] xs by simp
  from max_conn_loop_ok[OF m(2) this] show ?thesis using m(1,4) unfolding m(3) by (simp add: pending_collect_def xs)
qed

lemma pending_collect_release:
  assumes "heap_ok h" "mpath h p xs 0"
  obtains h' where "nodes_of m_next h (h_brk h) p = Inr xs" "release_all xs h = Inr h'"
    "\<And>a. h_cells h' a = (if a \<in> set xs then None else h_cells h a)" "heap_ok h'"
proof -
  obtain h' where h': "release_all xs h = Inr h'" "\<forall>a. h_cells h' a = (if a \<in> set xs then None else h_cells h a)"
    "h_brk h' = h_brk h" using release_all_ok[of xs h] path_distinct[OF assms(2)] path_live[OF assms(2)] by auto
  show thesis
    by (rule that[OF nodes_of_ok[OF assms] h'(1)]) (use h'(2,3) assms(1) in \<open>auto simp: heap_ok_def\<close>)
qed

text \<open>No newer registration: the user is unregistered and the messages are released.\<close>

lemma pending_collect_drops:
  assumes "heap_ok h" "mpath h p xs 0" "xs \<noteq> []" "m_uid (imsg_at h (hd xs)) = uid"
    and c: "\<And>c. t uid = Some c \<Longrightarrow> ch_conn c \<le> max_conn h xs"
  shows "\<exists>h'. pending_collect stk p ((t, q), h) = Inr ((t(uid := None), q), h') \<and> heap_ok h' \<and>
    (\<forall>a. h_cells h' a = (if a \<in> set xs then None else h_cells h a))"
proof -
  obtain h' where h': "nodes_of m_next h (h_brk h) p = Inr xs" "release_all xs h = Inr h'"
    "\<And>a. h_cells h' a = (if a \<in> set xs then None else h_cells h a)" "heap_ok h'"
    using pending_collect_release[OF assms(1,2)] by metis
  have "um_failureRoute stk uid (max_conn h xs) p ((t, q), h) = Inr (-1, (t(uid := None), q), h)"
    using c by (auto simp: um_failureRoute_def reg_getOrUnset_def fun_upd_idem split: option.splits)
  then show ?thesis using h' by (simp add: pending_collect_start[OF assms(1-3)] assms(4))
qed

lemma each_group_drops:
  assumes "heap_ok h" "distinct (map fst gs)" "\<And>j k. j \<noteq> k \<Longrightarrow> set (f j) \<inter> set (f k) = {}"
    "\<And>k g x. (k, g) \<in> set gs \<Longrightarrow> mpath h (iq_head g) (f k) 0 \<and> f k \<noteq> []"
    "\<And>k x. k \<in> fst ` set gs \<Longrightarrow> x \<in> set (f k) \<Longrightarrow> m_uid (imsg_at h x) = k"
    "\<And>k c. k \<in> fst ` set gs \<Longrightarrow> t k = Some c \<Longrightarrow> ch_conn c \<le> max_conn h (f k)"
  shows "\<exists>h'. each_group (pending_collect stk) gs ((t, q), h) = Inr ((t |` (- fst ` set gs), q), h') \<and> heap_ok h' \<and>
    (\<forall>a. h_cells h' a = (if \<exists>k \<in> fst ` set gs. a \<in> set (f k) then None else h_cells h a))"
  using assms
proof (induction gs arbitrary: h t)
  case Nil then show ?case by simp
next
  case (Cons kg gs)
  obtain k g where kg: "kg = (k, g)" by (cases kg)
  have p: "mpath h (iq_head g) (f k) 0" "f k \<noteq> []" using Cons.prems(4)[of k g] kg by auto
  have u: "m_uid (imsg_at h (hd (f k))) = k" using Cons.prems(5)[of k "hd (f k)"] p(2) kg by simp
  have "\<exists>h'. pending_collect stk (iq_head g) ((t, q), h) = Inr ((t(k := None), q), h') \<and> heap_ok h' \<and>
    (\<forall>a. h_cells h' a = (if a \<in> set (f k) then None else h_cells h a))"
    by (rule pending_collect_drops[OF Cons.prems(1) p u]) (use Cons.prems(6)[of k] kg in auto)
  then obtain h1 where h1:
    "pending_collect stk (iq_head g) ((t, q), h) = Inr ((t(k := None), q), h1)" "heap_ok h1"
    "\<And>a. h_cells h1 a = (if a \<in> set (f k) then None else h_cells h a)" by metis
  have ne: "j \<noteq> k" if "j \<in> fst ` set gs" for j using Cons.prems(2) that kg by auto
  have c1: "h_cells h1 x = h_cells h x" if "j \<in> fst ` set gs" "x \<in> set (f j)" for j x
    using h1(3) Cons.prems(3)[OF ne[OF that(1)]] that(2) by auto
  have "\<exists>h'. each_group (pending_collect stk) gs ((t(k := None), q), h1) = Inr (((t(k := None)) |` (- fst ` set gs), q), h') \<and>
    heap_ok h' \<and> (\<forall>a. h_cells h' a = (if \<exists>k \<in> fst ` set gs. a \<in> set (f k) then None else h_cells h1 a))"
  proof (rule Cons.IH[OF h1(2) _ Cons.prems(3)])
    show "distinct (map fst gs)" using Cons.prems(2) by simp
    fix j g' assume j: "(j, g') \<in> set gs"
    then have j': "j \<in> fst ` set gs" by force
    have "mpath h (iq_head g') (f j) 0" "f j \<noteq> []" using Cons.prems(4)[of j g'] j by auto
    then show "mpath h1 (iq_head g') (f j) 0 \<and> f j \<noteq> []" using path_frame[of m_next h] c1[OF j'] by auto
  next
    fix j x assume "j \<in> fst ` set gs" "x \<in> set (f j)"
    then show "m_uid (imsg_at h1 x) = j" using Cons.prems(5)[of j x] c1[of j x] by simp
  next
    fix j c assume j: "j \<in> fst ` set gs" "(t(k := None)) j = Some c"
    have "(\<lambda>x. m_conn (imsg_at h1 x)) ` set (f j) = (\<lambda>x. m_conn (imsg_at h x)) ` set (f j)" using c1[OF j(1)] by auto
    then show "ch_conn c \<le> max_conn h1 (f j)" using Cons.prems(6)[of j c] j ne[OF j(1)] by simp
  qed
  then obtain h2 where h2: "each_group (pending_collect stk) gs ((t(k := None), q), h1) =
      Inr (((t(k := None)) |` (- fst ` set gs), q), h2)" "heap_ok h2"
    "\<And>a. h_cells h2 a = (if \<exists>k \<in> fst ` set gs. a \<in> set (f k) then None else h_cells h1 a)" by metis
  moreover have "(t(k := None)) |` (- fst ` set gs) = t |` (- fst ` set (kg # gs))"
    by (auto simp: kg restrict_map_def)
  ultimately show ?case using h1(1) by (auto simp: kg h1(3))
qed

section \<open>Properties\<close>

text \<open>Three messages for the io threads 1, 0, 1, users 7, 8, 7 and connections 5, 6, 5, chained in a queue.\<close>

definition demo_msg :: "int \<Rightarrow> int \<Rightarrow> 64 word \<Rightarrow> addr \<Rightarrow> IMessage" where
  "demo_msg uid io conn nxt = (new_IMessage (malloc_bytes 8) 8 0 8)\<lparr>m_uid := uid, m_io := io, m_conn := conn, m_next := nxt\<rparr>"

definition demo_batch :: mheap where
  "demo_batch = \<lparr>h_cells = [1 \<mapsto> demo_msg 7 1 5 2, 2 \<mapsto> demo_msg 8 0 6 3, 3 \<mapsto> demo_msg 7 1 5 0], h_brk = 4, h_lim = 100\<rparr>"

definition demo_bq :: MsMessageBlockQueue where
  "demo_bq = \<lparr>bq_list = 1, bq_tail = 3, bq_list_size = 3\<rparr>"

lemmas demo_batch_simps = demo_batch_def demo_msg_def demo_bq_def bq_holds_def heap_ok_def seg_def tail_of_def new_IMessage_def

text \<open>C34: One turn of the local router: the batch in its queue is split by io thread. Every io thread that has messages
  gets exactly one list, in the order of the threads; the list holds all its messages of the batch in the order in
  which they were queued; the queue is empty afterwards and nothing but links has changed.\<close>

theorem local_router_sorts:
  assumes "bq_holds (q, h) xs" "xs \<noteq> []" "\<And>x. x \<in> set xs \<Longrightarrow> io_index (imsg_at h x) < n"
  shows "\<exists>outs q' h'. local_run n (q, h) = Inr (outs, q', h') \<and> bq_holds (q', h') [] \<and> relinked set_next h h' \<and>
    map fst outs = filter (\<lambda>i. \<exists>x \<in> set xs. io_index (imsg_at h x) = i) [0..<n] \<and>
    (\<forall>(i, p) \<in> set outs. mpath h' p (filter (\<lambda>x. io_index (imsg_at h x) = i) xs) 0)"
  using local_run_ok[OF assms] by blast

theorem local_router_sorts_witness:
  "\<exists>outs q' h'. local_run 2 (demo_bq, demo_batch) = Inr (outs, q', h') \<and> bq_holds (q', h') [] \<and>
    relinked set_next demo_batch h' \<and>
    map fst outs = filter (\<lambda>i. \<exists>x \<in> set [1, 2, 3]. io_index (imsg_at demo_batch x) = i) [0..<2] \<and>
    (\<forall>(i, p) \<in> set outs. mpath h' p (filter (\<lambda>x. io_index (imsg_at demo_batch x) = i) [1, 2, 3]) 0)"
  by (rule local_router_sorts) (auto simp: demo_batch_simps io_index_def)

text \<open>C35: One turn of the remote router, for any order in which the hash map is walked: every connection of the batch
  gets exactly one list, which holds its messages in the order in which they were queued.\<close>

theorem remote_router_groups:
  assumes "bq_holds (q, h) xs" "xs \<noteq> []" and ord: "\<And>gs. mset (ord gs) = mset gs"
  shows "\<exists>outs q' h' ks. remote_run ord (q, h) = Inr (outs, q', h') \<and> bq_holds (q', h') [] \<and> relinked set_next h h' \<and>
    distinct ks \<and> set ks = (\<lambda>x. sint (m_conn (imsg_at h x))) ` set xs \<and>
    list_all2 (\<lambda>k (i, p). i = 0 \<and> mpath h' p (filter (\<lambda>x. sint (m_conn (imsg_at h x)) = k) xs) 0) ks outs"
proof -
  obtain p q' where g: "bq_get (q, h) = Inr (p, q', h)" "mpath h p xs 0" "bq_holds (q', h) []"
    using bq_get_ok[OF assms(1,2)] by blast
  have ok: "heap_ok h" using g(3) by (simp add: bq_holds_def)
  obtain gs h' where s: "group_loop map_put (\<lambda>m. sint (m_conn m)) (h_brk h) p ([], h) = Inr (gs, h')" "relinked set_next h h'"
    "distinct (map fst gs)" "fst ` set gs = (\<lambda>x. sint (m_conn (imsg_at h x))) ` set xs"
    "\<forall>(k, t) \<in> set gs. mpath h' (iq_head t) (filter (\<lambda>x. sint (m_conn (imsg_at h x)) = k) xs) 0"
    using map_groups_ok[where key = "\<lambda>m. sint (m_conn m)", OF ok g(2)] by (auto simp: set_next_def)
  have o: "set (ord gs) = set gs" using mset_eq_setD[OF ord] .
  have "distinct (map fst (ord gs))" using s(3) mset_map[of fst "ord gs"] mset_map[of fst gs] ord[of gs]
    by (metis mset_eq_imp_distinct_iff)
  moreover have "bq_holds (q', h') []" using g(3) s(2) relinked_ok by (auto simp: bq_holds_def)
  moreover have "set (map fst (ord gs)) = (\<lambda>x. sint (m_conn (imsg_at h x))) ` set xs" using s(4) o by simp
  moreover have "list_all2 (\<lambda>k (i, p). i = (0 :: nat) \<and> mpath h' p (filter (\<lambda>x. sint (m_conn (imsg_at h x)) = k) xs) 0)
      (map fst (ord gs)) (map (\<lambda>(k, t). (0, iq_head t)) (ord gs))"
    using s(5) o by (auto simp: list_all2_conv_all_nth split_beta dest: nth_mem)
  ultimately show ?thesis using g(1) s(1,2) unfolding remote_run_def by fastforce
qed

theorem remote_router_groups_witness:
  "\<exists>outs q' h' ks. remote_run rev (demo_bq, demo_batch) = Inr (outs, q', h') \<and> bq_holds (q', h') [] \<and>
    relinked set_next demo_batch h' \<and> distinct ks \<and> set ks = (\<lambda>x. sint (m_conn (imsg_at demo_batch x))) ` set [1, 2, 3] \<and>
    list_all2 (\<lambda>k (i, p). i = 0 \<and> mpath h' p (filter (\<lambda>x. sint (m_conn (imsg_at demo_batch x)) = k) [1, 2, 3]) 0) ks outs"
  by (rule remote_router_groups) (auto simp: demo_batch_simps)

text \<open>C36: \<open>ImUserMessageRouter::routeList\<close> splits a list of messages by whether their user is registered: the messages
  of registered users are appended to the queue of the local router in their order, carrying the io thread and the
  connection of their user; the other messages are returned as one list, in their order and unchanged.\<close>

theorem routeList_splits:
  assumes "bq_holds (q, h) ys" "mpath h p xs 0" "set ys \<inter> set xs = {}"
  shows "\<exists>pd q' h'. um_routeList stk p ((t, q), h) = Inr (pd, (t, q'), h') \<and>
    bq_holds (q', h') (ys @ filter (\<lambda>x. registered t (imsg_at h x)) xs) \<and>
    mpath h' pd (filter (\<lambda>x. \<not> registered t (imsg_at h x)) xs) 0 \<and> rerouted t (set xs) h h'"
  using um_routeList_ok[OF assms, where stk = stk and t = t] by blast

definition demo_channel :: IoChannel where
  "demo_channel = \<lparr>ch_uid = 7, ch_io = 0, ch_conn = 4294967303, ch_host = 1\<rparr>"

theorem routeList_splits_witness:
  "\<exists>pd q' h'. um_routeList demo_channel 1 (([7 \<mapsto> demo_channel], bq_new), demo_batch) = Inr (pd, ([7 \<mapsto> demo_channel], q'), h') \<and>
    bq_holds (q', h') ([] @ filter (\<lambda>x. registered [7 \<mapsto> demo_channel] (imsg_at demo_batch x)) [1, 2, 3]) \<and>
    mpath h' pd (filter (\<lambda>x. \<not> registered [7 \<mapsto> demo_channel] (imsg_at demo_batch x)) [1, 2, 3]) 0 \<and>
    rerouted [7 \<mapsto> demo_channel] (set [1, 2, 3]) demo_batch h'"
  by (rule routeList_splits) (auto simp: demo_batch_simps bq_new_def)

text \<open>C37: One turn of the collector of undelivered messages, when no user of the batch has a connection newer than those
  of the undelivered messages: every message of the batch is released, exactly the users of the batch are
  unregistered, and nothing is queued for the local router.\<close>

theorem collector_drops_batch:
  assumes "bq_holds (q, h) xs" "xs \<noteq> []" and ord: "\<And>gs. mset (ord gs) = mset gs"
    and stale: "\<And>x c. x \<in> set xs \<Longrightarrow> t (m_uid (imsg_at h x)) = Some c \<Longrightarrow>
      ch_conn c \<le> max_conn h (filter (\<lambda>y. m_uid (imsg_at h y) = m_uid (imsg_at h x)) xs)"
  shows "\<exists>q' h'. collector_run (Some (pending_collect stk)) ord (t, lq) (q, h) =
      Inr ((t |` (- (\<lambda>x. m_uid (imsg_at h x)) ` set xs), lq), q', h') \<and> bq_holds (q', h') [] \<and>
    (\<forall>a. live h' a \<longleftrightarrow> live h a \<and> a \<notin> set xs)"
proof -
  let ?f = "\<lambda>k. filter (\<lambda>x. m_uid (imsg_at h x) = k) xs"
  obtain p q' where g: "bq_get (q, h) = Inr (p, q', h)" "mpath h p xs 0" "bq_holds (q', h) []"
    using bq_get_ok[OF assms(1,2)] by blast
  have ok: "heap_ok h" using g(3) by (simp add: bq_holds_def)
  obtain gs h1 where s: "group_loop map_put m_uid (h_brk h) p ([], h) = Inr (gs, h1)" "relinked set_next h h1"
    "distinct (map fst gs)" "fst ` set gs = (\<lambda>x. m_uid (imsg_at h x)) ` set xs"
    "\<forall>(k, t) \<in> set gs. mpath h1 (iq_head t) (?f k) 0"
    using map_groups_ok[where key = m_uid, OF ok g(2)] by (auto simp: set_next_def)
  have o: "set (ord gs) = set gs" using mset_eq_setD[OF ord] .
  have same: "m_uid (imsg_at h1 x) = m_uid (imsg_at h x)" "m_conn (imsg_at h1 x) = m_conn (imsg_at h x)" if "x \<in> set xs" for x
  proof -
    have "map_option (set_next 0) (h_cells h1 x) = map_option (set_next 0) (h_cells h x)" using s(2) by (simp add: relinked_def)
    then have "set_next 0 (imsg_at h1 x) = set_next 0 (imsg_at h x)"
      using path_live[OF g(2) that] by (auto simp: live_def)
    then have "m_uid (set_next 0 (imsg_at h1 x)) = m_uid (set_next 0 (imsg_at h x))"
      "m_conn (set_next 0 (imsg_at h1 x)) = m_conn (set_next 0 (imsg_at h x))" by simp_all
    then show "m_uid (imsg_at h1 x) = m_uid (imsg_at h x)" "m_conn (imsg_at h1 x) = m_conn (imsg_at h x)"
      by (simp_all add: set_next_def)
  qed
  have mx: "max_conn h1 (?f k) = max_conn h (?f k)" for k
    by (rule arg_cong[where f = Max], rule image_cong) (use same in auto)
  have "\<exists>h'. each_group (pending_collect stk) (ord gs) ((t, lq), h1) = Inr ((t |` (- fst ` set (ord gs)), lq), h') \<and>
    heap_ok h' \<and> (\<forall>a. h_cells h' a = (if \<exists>k \<in> fst ` set (ord gs). a \<in> set (?f k) then None else h_cells h1 a))"
  proof (rule each_group_drops)
    show "heap_ok h1" using ok s(2) relinked_ok by blast
    show "distinct (map fst (ord gs))" using s(3) mset_map[of fst "ord gs"] mset_map[of fst gs] ord[of gs]
      by (metis mset_eq_imp_distinct_iff)
    show "mpath h1 (iq_head g) (?f k) 0 \<and> ?f k \<noteq> []" if kg: "(k, g) \<in> set (ord gs)" for k g
    proof
      show "mpath h1 (iq_head g) (?f k) 0" using s(5) kg o by auto
      have "k \<in> fst ` set gs" using kg o by force
      then show "?f k \<noteq> []" unfolding s(4) by (auto simp: filter_empty_conv)
    qed
  next
    fix k c assume "k \<in> fst ` set (ord gs)" "t k = Some c"
    then obtain x where x: "x \<in> set xs" "k = m_uid (imsg_at h x)" "t (m_uid (imsg_at h x)) = Some c" using o s(4) by auto
    show "ch_conn c \<le> max_conn h1 (?f k)" unfolding mx x(2) by (rule stale[OF x(1,3)])
  qed (use same in auto)
  then obtain h' where h': "each_group (pending_collect stk) (ord gs) ((t, lq), h1) = Inr ((t |` (- fst ` set gs), lq), h')"
    "heap_ok h'" "\<And>a. h_cells h' a = (if \<exists>k \<in> fst ` set gs. a \<in> set (?f k) then None else h_cells h1 a)" unfolding o by metis
  have "h_cells h' a = (if a \<in> set xs then None else h_cells h1 a)" for a unfolding h'(3) s(4) by auto
  then have "live h' a \<longleftrightarrow> live h a \<and> a \<notin> set xs" for a using relinked_live[OF s(2), of a] by (simp add: live_def)
  moreover have "bq_holds (q', h') []" using g(3) h'(2) by (simp add: bq_holds_def)
  ultimately show ?thesis using g(1) s(1) h'(1) by (auto simp: collector_run_def s(4))
qed

theorem collector_drops_batch_witness:
  "\<exists>q' h'. collector_run (Some (pending_collect demo_channel)) rev ([7 \<mapsto> demo_channel\<lparr>ch_conn := 5\<rparr>], bq_new) (demo_bq, demo_batch) =
      Inr (([7 \<mapsto> demo_channel\<lparr>ch_conn := 5\<rparr>] |` (- (\<lambda>x. m_uid (imsg_at demo_batch x)) ` set [1, 2, 3]), bq_new), q', h') \<and>
    bq_holds (q', h') [] \<and> (\<forall>a. live h' a \<longleftrightarrow> live demo_batch a \<and> a \<notin> set [1, 2, 3])"
  by (rule collector_drops_batch) (auto simp: demo_batch_simps split: if_splits)

text \<open>C38: A user who has reconnected: the undelivered messages of the older connection are put into the queue of the
  local router, and since \<open>failureRoute\<close> returns -1 they are released as well. The queue is left with the freed
  messages, and the next turn of the local router reads the first of them.\<close>

theorem collector_frees_routed:
  assumes "bq_holds (q, h) []" "mpath h p xs 0" "xs \<noteq> []"
    and c: "t (m_uid (imsg_at h (hd xs))) = Some c" "ch_uid c \<noteq> -1" "max_conn h xs < ch_conn c"
  shows "\<exists>q' h'. pending_collect stk p ((t, q), h) = Inr ((t, q'), h') \<and> bq_list q' = p \<and>
    (\<forall>x \<in> set xs. \<not> live h' x) \<and> local_run n (q', h') = Inl (Dangling p)"
proof -
  have ok: "heap_ok h" using assms(1) by (simp add: bq_holds_def)
  obtain q' h1 where h1: "um_failureRoute stk (m_uid (imsg_at h (hd xs))) (max_conn h xs) p ((t, q), h) = Inr (-1, (t, q'), h1)"
    "bq_holds (q', h1) xs" "mpath h1 p xs 0"
    using um_failureRoute_routes[where t = t and stk = stk, OF assms(1-3) _ c] by auto
  have ok1: "heap_ok h1" using h1(2) by (simp add: bq_holds_def)
  obtain h' where h': "nodes_of m_next h1 (h_brk h1) p = Inr xs" "release_all xs h1 = Inr h'"
    "\<And>a. h_cells h' a = (if a \<in> set xs then None else h_cells h1 a)" "heap_ok h'"
    using pending_collect_release[OF ok1 h1(3)] by metis
  have p: "p = hd xs" "p \<noteq> 0" "p \<in> set xs" using path_head[OF assms(2)] path_live[OF assms(2), of p] assms(3)
    by (auto simp: live_def)
  have q: "bq_list q' = p" "bq_list_size q' \<noteq> 0" using h1(2) path_head[of m_next h1 "bq_list q'" xs] p(1) assms(3)
    by (auto simp: bq_holds_def seg_def)
  have "0 < h_brk h'" using h'(4) by (simp add: heap_ok_def)
  then obtain k where k: "h_brk h' = Suc k" by (cases "h_brk h'") auto
  have "hget h' p = Inl (Dangling p)" using p by (simp add: hget_def h'(3))
  then have "local_run n (q', h') = Inl (Dangling p)" using q p(2) k by (simp add: local_run_def bq_get_def)
  moreover have "pending_collect stk p ((t, q), h) = Inr ((t, q'), h')"
    using h1(1) h'(1,2) by (simp add: pending_collect_start[OF ok assms(2,3)])
  ultimately show ?thesis using q(1) h'(3) by (auto simp: live_def)
qed

theorem collector_frees_routed_witness:
  "\<exists>q' h'. pending_collect demo_channel 3 (([7 \<mapsto> demo_channel], bq_new), demo_batch) = Inr (([7 \<mapsto> demo_channel], q'), h') \<and>
    bq_list q' = 3 \<and> (\<forall>x \<in> set [3]. \<not> live h' x) \<and> local_run 2 (q', h') = Inl (Dangling 3)"
  by (rule collector_frees_routed) (auto simp: demo_batch_simps bq_new_def demo_channel_def)

text \<open>The connection \<open>failureRoute\<close> writes into the messages passes through an \<open>int\<close>: it is the registered one only
  while its number fits in 32 bits.\<close>

lemma int_conn_id:
  "int_conn c = c \<longleftrightarrow> sint c < 2147483648 \<and> - 2147483648 \<le> sint c"
proof -
  have "uint c = sint c mod 18446744073709551616" by (simp add: uint_sint take_bit_eq_mod)
  then have "s32 (uint c) = s32 (sint c mod 18446744073709551616 mod 4294967296)" by simp
  also have "\<dots> = s32 (sint c)" by (simp add: mod_mod_cancel)
  finally have e: "int_conn c = word_of_int (s32 (sint c))" by (simp add: int_conn_def)
  have "sint (int_conn c) = s32 (sint c)"
    unfolding e sint_sbintrunc' using s32_range[of "sint c"] by (intro signed_take_bit_int_eq_self) auto
  then have "int_conn c = c \<longleftrightarrow> s32 (sint c) = sint c" by (metis signed_word_eqI)
  also have "\<dots> \<longleftrightarrow> sint c < 2147483648 \<and> - 2147483648 \<le> sint c"
    using s32_id[of "sint c"] s32_range[of "sint c"] by auto
  finally show ?thesis .
qed

end
