(* ===== verification/Wakeups.thy ===== *)
theory Wakeups
  imports Prelude
begin

text \<open>
  How other threads wake an io thread (\<open>framework/io/io_app.cpp\<close>, \<open>io_app_cluster.cpp\<close>). A producer appends to a queue and
  then writes one byte to a socket pair; the io thread, called back while the pair has bytes, takes the whole queue, serves
  it, and reads as many bytes as it found elements. The statements of the two sides interleave freely, so each is a step
  of a transition relation: \<open>put\<close> and \<open>notify\<close> of a producer (\<open>dispatchConnection\<close>, \<open>dispatchPushList\<close>), \<open>take\<close> and \<open>read\<close> of the io
  thread (\<open>newConnection\<close>, \<open>push\<close>). New connections are put one at a time, messages in lists.
\<close>

section \<open>The notification channel\<close>

definition notify_count :: "nat \<Rightarrow> nat" where
  "notify_count c = (if 256 < c then 256 else if c = 0 then 1 else c)"

text \<open>\<open>read\<close> of a non-blocking descriptor: what is there, up to the given number.\<close>

definition notify_read :: "nat \<Rightarrow> nat \<Rightarrow> nat" where
  "notify_read c bytes = bytes - min (notify_count c) bytes"

datatype 'a turn = Idle | Took "'a list"

record 'a channel =
  ch_queue :: "'a list"
  ch_writers :: nat
  ch_bytes :: nat
  ch_turn :: "'a turn"

definition ch_new :: "'a channel" where
  "ch_new = \<lparr>ch_queue = [], ch_writers = 0, ch_bytes = 0, ch_turn = Idle\<rparr>"

text \<open>The steps that need no new arrival: a producer that has put its elements writes its byte, the io thread takes the
  queue, and later reads.\<close>

inductive ch_internal :: "'a channel \<Rightarrow> 'a channel \<Rightarrow> bool" where
  notify: "ch_writers s = Suc w \<Longrightarrow> ch_internal s (s\<lparr>ch_writers := w, ch_bytes := Suc (ch_bytes s)\<rparr>)"
| take: "ch_turn s = Idle \<Longrightarrow> 0 < ch_bytes s \<Longrightarrow> ch_internal s (s\<lparr>ch_queue := [], ch_turn := Took (ch_queue s)\<rparr>)"
| read: "ch_turn s = Took xs \<Longrightarrow> ch_internal s (s\<lparr>ch_bytes := notify_read (length xs) (ch_bytes s), ch_turn := Idle\<rparr>)"

definition ch_put :: "'a list \<Rightarrow> 'a channel \<Rightarrow> 'a channel" where
  "ch_put xs s = s\<lparr>ch_queue := ch_queue s @ xs, ch_writers := Suc (ch_writers s)\<rparr>"

text \<open>What can be reached when the producers put lists of a length in \<open>batch\<close>.\<close>

inductive ch_reach :: "nat set \<Rightarrow> 'a channel \<Rightarrow> bool" for batch where
  start: "ch_reach batch ch_new"
| put: "ch_reach batch s \<Longrightarrow> length xs \<in> batch \<Longrightarrow> ch_reach batch (ch_put xs s)"
| internal: "ch_reach batch s \<Longrightarrow> ch_internal s s' \<Longrightarrow> ch_reach batch s'"

inductive_cases ch_internalE: "ch_internal s s'"

section \<open>Arrivals one at a time\<close>

lemma notify_count_pos [simp]: "0 < notify_count c"
  by (simp add: notify_count_def)

lemma notify_count_le: "notify_count c \<le> max 1 c"
  by (simp add: notify_count_def)

lemma notify_read_add: "n + notify_count c \<le> b + w \<Longrightarrow> n \<le> notify_read c b + w"
  by (cases "notify_count c \<le> b") (simp_all add: notify_read_def)

text \<open>Every waiting element has a byte, or a producer that will still write one; during a turn, also after the bytes that
  the turn will read. The io thread only starts a turn when there is a byte, and nobody else reads.\<close>

definition ch_covered :: "'a channel \<Rightarrow> bool" where
  "ch_covered s \<longleftrightarrow> (case ch_turn s of Idle \<Rightarrow> length (ch_queue s) \<le> ch_bytes s + ch_writers s
     | Took xs \<Rightarrow> length (ch_queue s) + notify_count (length xs) \<le> ch_bytes s + ch_writers s)"

definition ch_awake :: "'a channel \<Rightarrow> bool" where
  "ch_awake s \<longleftrightarrow> (ch_turn s \<noteq> Idle \<longrightarrow> 0 < ch_bytes s)"

lemma covered_internal:
  assumes "ch_internal s s'" "ch_covered s"
  shows "ch_covered s'"
  using assms
proof cases
  case (take)
  then show ?thesis using assms(2) notify_count_le[of "length (ch_queue s)"] by (simp add: ch_covered_def)
next
  case (read xs)
  then show ?thesis using assms(2) by (simp add: ch_covered_def notify_read_add)
qed (auto simp: ch_covered_def split: turn.splits)

lemma covered_put: "length xs = 1 \<Longrightarrow> ch_covered s \<Longrightarrow> ch_covered (ch_put xs s)"
  by (auto simp: ch_covered_def ch_put_def split: turn.splits)

lemma reach_awake: "ch_reach batch s \<Longrightarrow> ch_awake s"
  by (induction rule: ch_reach.induct) (auto simp: ch_awake_def ch_new_def ch_put_def elim!: ch_internalE)

lemma reach_covered: "ch_reach batch s \<Longrightarrow> batch = {1} \<Longrightarrow> ch_covered s"
  by (induction rule: ch_reach.induct) (auto simp: covered_internal covered_put, simp add: ch_covered_def ch_new_def)

text \<open>The internal steps use up the bytes and the writers.\<close>

definition ch_measure :: "'a channel \<Rightarrow> nat" where
  "ch_measure s = 4 * ch_writers s + 3 * ch_bytes s + (if ch_turn s = Idle then 1 else 0)"

lemma internal_measure:
  assumes "ch_internal s s'" "ch_awake s"
  shows "ch_measure s' < ch_measure s"
  using assms
proof cases
  case (read xs)
  then have "0 < ch_bytes s" using assms(2) by (simp add: ch_awake_def)
  then have "notify_read (length xs) (ch_bytes s) < ch_bytes s" by (simp add: notify_read_def)
  then show ?thesis using read by (simp add: ch_measure_def)
qed (simp_all add: ch_measure_def)

lemma internal_ends:
  assumes "ch_reach batch (f 0)" "\<And>i :: nat. ch_internal (f i) (f (Suc i))"
  shows False
proof -
  have r: "ch_reach batch (f i)" for i by (induction i) (use assms in \<open>auto intro: ch_reach.internal\<close>)
  have "ch_measure (f i) + i \<le> ch_measure (f 0)" for i
  proof (induction i)
    case (Suc i)
    then show ?case using internal_measure[OF assms(2) reach_awake[OF r], of i] by simp
  qed simp
  from this[of "Suc (ch_measure (f 0))"] show False by simp
qed

definition ch_quiet :: "'a channel \<Rightarrow> bool" where
  "ch_quiet s \<longleftrightarrow> (\<nexists>s'. ch_internal s s')"

lemma quiet_iff: "ch_quiet s \<longleftrightarrow> ch_writers s = 0 \<and> ch_turn s = Idle \<and> ch_bytes s = 0"
proof
  assume q: "ch_quiet s"
  then have "ch_writers s = 0" using ch_internal.notify[of s] by (cases "ch_writers s") (auto simp: ch_quiet_def)
  moreover have "ch_turn s = Idle" using q ch_internal.read[of s] by (cases "ch_turn s") (auto simp: ch_quiet_def)
  ultimately show "ch_writers s = 0 \<and> ch_turn s = Idle \<and> ch_bytes s = 0" using q ch_internal.take[of s] by (auto simp: ch_quiet_def)
qed (auto simp: ch_quiet_def elim: ch_internalE)

section \<open>Properties\<close>

text \<open>C21: No new connection is forgotten. Whatever the interleaving of the accepting thread with the io thread, once no further
  connection arrives the remaining steps come to an end, and when they have, the queue of new connections is empty.\<close>

theorem connections_all_picked_up:
  assumes "ch_reach {1} s"
  shows "(\<nexists>f :: nat \<Rightarrow> 'a channel. f 0 = s \<and> (\<forall>i. ch_internal (f i) (f (Suc i)))) \<and>
    (\<forall>s'. ch_internal\<^sup>*\<^sup>* s s' \<longrightarrow> ch_quiet s' \<longrightarrow> ch_queue s' = [])"
proof (intro conjI allI impI notI)
  assume "\<exists>f. f 0 = s \<and> (\<forall>i. ch_internal (f i) (f (Suc i)))"
  then show False using internal_ends[of "{1}"] assms by blast
next
  fix s' assume steps: "ch_internal\<^sup>*\<^sup>* s s'" and "ch_quiet s'"
  from steps have "ch_covered s'" using reach_covered[OF assms refl] by (induction rule: rtranclp_induct) (auto intro: covered_internal)
  with \<open>ch_quiet s'\<close> show "ch_queue s' = []" by (simp add: ch_covered_def quiet_iff)
qed

theorem connections_all_picked_up_witness:
  "ch_queue (ch_put [5 :: nat] ch_new) = [5] \<and> ch_internal\<^sup>*\<^sup>* (ch_put [5 :: nat] ch_new) ch_new \<and> ch_quiet (ch_new :: nat channel) \<and>
    ch_queue (ch_new :: nat channel) = [] \<and> (\<nexists>f :: nat \<Rightarrow> nat channel. f 0 = ch_put [5] ch_new \<and> (\<forall>i. ch_internal (f i) (f (Suc i))))"
proof -
  define s0 where "s0 = ch_put [5 :: nat] ch_new"
  define s1 where "s1 = s0\<lparr>ch_writers := 0, ch_bytes := 1\<rparr>"
  define s2 where "s2 = s1\<lparr>ch_queue := [], ch_turn := Took [5]\<rparr>"
  note ss = s0_def s1_def s2_def ch_put_def ch_new_def
  have "ch_internal s0 s1" using ch_internal.notify[of s0 0] by (simp add: ss)
  moreover have "ch_internal s1 s2" using ch_internal.take[of s1] by (simp add: ss)
  moreover have "ch_internal s2 ch_new" using ch_internal.read[of s2 "[5]"] by (simp add: ss notify_read_def notify_count_def)
  ultimately have r: "ch_internal\<^sup>*\<^sup>* s0 ch_new" by (meson converse_rtranclp_into_rtranclp rtranclp.rtrancl_refl)
  have "ch_reach {1} s0" unfolding s0_def by (rule ch_reach.put[OF ch_reach.start]) simp
  note t = connections_all_picked_up[OF this]
  have q: "ch_quiet (ch_new :: nat channel)" by (simp add: quiet_iff ch_new_def)
  have "ch_queue (ch_new :: nat channel) = []" using t r q by blast
  then show ?thesis using t r q unfolding s0_def by (simp add: ch_put_def ch_new_def)
qed

text \<open>C22: A message can be forgotten. Messages are put in lists with one byte per list, but a turn reads one byte per message: when a
  list of two is taken and another list arrives before the turn reads its bytes, both bytes are consumed. The later message then
  stays in the queue with nothing left that would wake the thread, until some other message arrives.\<close>

theorem pushed_message_can_be_stranded:
  "\<exists>s. ch_reach {1, 2} s \<and> ch_quiet s \<and> ch_queue s = [m3 :: 'a]"
proof -
  define s1 where "s1 = ch_put [m1 :: 'a, m2] ch_new"
  define s2 where "s2 = s1\<lparr>ch_writers := 0, ch_bytes := 1\<rparr>"
  define s3 where "s3 = s2\<lparr>ch_queue := [], ch_turn := Took [m1, m2]\<rparr>"
  define s4 where "s4 = ch_put [m3] s3"
  define s5 where "s5 = s4\<lparr>ch_writers := 0, ch_bytes := 2\<rparr>"
  define s6 where "s6 = s5\<lparr>ch_bytes := 0, ch_turn := Idle\<rparr>"
  note ss = s1_def s2_def s3_def s4_def s5_def s6_def ch_put_def ch_new_def
  have r1: "ch_reach {1, 2} s1" unfolding s1_def by (rule ch_reach.put[OF ch_reach.start]) simp
  have "ch_internal s1 s2" using ch_internal.notify[of s1 0] by (simp add: ss)
  then have r2: "ch_reach {1, 2} s2" by (rule ch_reach.internal[OF r1])
  have "ch_internal s2 s3" using ch_internal.take[of s2] by (simp add: ss)
  then have r3: "ch_reach {1, 2} s3" by (rule ch_reach.internal[OF r2])
  have r4: "ch_reach {1, 2} s4" unfolding s4_def by (rule ch_reach.put[OF r3]) simp
  have "ch_internal s4 s5" using ch_internal.notify[of s4 0] by (simp add: ss numeral_2_eq_2)
  then have r5: "ch_reach {1, 2} s5" by (rule ch_reach.internal[OF r4])
  have "ch_internal s5 s6" using ch_internal.read[of s5 "[m1, m2]"] by (simp add: ss notify_read_def notify_count_def)
  then have "ch_reach {1, 2} s6" by (rule ch_reach.internal[OF r5])
  moreover have "ch_quiet s6" "ch_queue s6 = [m3]" by (simp_all add: quiet_iff ss)
  ultimately show ?thesis by blast
qed

end
