(* ===== verification/IoThread.thy ===== *)
theory IoThread
  imports Writing ConnCache LibQueues Routing Wakeups
begin

text \<open>
  One io thread for client connections, \<open>framework/io/io_app.cpp\<close>: it adopts the sockets the accepting thread queued for it,
  hands the messages queued for it to their connections, and runs the read and write handlers of its connections.

  The objects of type \<open>IoAppConnection\<close> live in a store indexed by the addresses the pool hands out; the parts of the base
  class and of the subclass are those of the theories on connections, together with the bytes written and
  the log of closes. The collector is one object shared by all connections, so it is kept with the thread and lent to the
  connection whose handler runs. The callbacks of libevent are the functions themselves; the bytes of the two socket pairs
  are counted.
\<close>

section \<open>State\<close>

record conn_obj =
  co_conn :: IoConnection
  co_app :: "unit IoAppConnection"
  co_wire :: "byte list"
  co_closes :: "close_kind list"

record IoApp =
  ia_id :: int
  ia_rtimeout :: int
  ia_wtimeout :: int
  ia_second_limit :: int
  ia_minute_limit :: int
  ia_hour_limit :: int
  ia_conn_count :: int
  ia_new_notify :: nat
  ia_push_notify :: nat
  ia_sock_queue :: Queue
  ia_msg_queue :: MsMessageQueue
  ia_collector :: "MsMessageBlockQueue option"
  ia_cache :: ConnectionCache
  ia_online_register :: "addr ConnectionRegister"
  ia_conns :: "addr \<Rightarrow> conn_obj"

text \<open>The constructor of a connection, run at the time \<open>now\<close>, leaves the pending data and the limits indeterminate.\<close>

definition IoAppConnection_new :: "addr \<Rightarrow> int \<Rightarrow> int \<Rightarrow> unit IoAppConnection" where
  "IoAppConnection_new junk limit now = \<lparr>ac_state = 0, ac_sampling = IoSampling_new now, ac_push_buffer = pl_new, ac_pending_data = junk,
     ac_second_limit = limit, ac_minute_limit = limit, ac_hour_limit = limit, ac_collector = None, ac_clock = \<lambda>_. (0, 0), ac_proc = ()\<rparr>"

definition conn_obj_new :: "addr \<Rightarrow> int \<Rightarrow> int \<Rightarrow> conn_obj" where
  "conn_obj_new junk limit now = \<lparr>co_conn = IoConnection_new, co_app = IoAppConnection_new junk limit now, co_wire = [], co_closes = []\<rparr>"

definition IoApp_new :: "bool \<Rightarrow> int \<Rightarrow> nat \<Rightarrow> (addr \<Rightarrow> conn_obj) \<Rightarrow> IoApp res" where
  "IoApp_new event_base_ok io_id lim conns = bindr (guardr Abort event_base_ok) (\<lambda>_. Inr
     \<lparr>ia_id = io_id, ia_rtimeout = 0, ia_wtimeout = 0, ia_second_limit = 0x0FFFFFFF, ia_minute_limit = 0x0FFFFFFF,
      ia_hour_limit = 0x0FFFFFFF, ia_conn_count = 0, ia_new_notify = 0, ia_push_notify = 0, ia_sock_queue = qu_new,
      ia_msg_queue = mq_new, ia_collector = None, ia_cache = cc_new io_id lim, ia_online_register = Map.empty,
      ia_conns = conns\<rparr>)"

definition ia_setReadTimeout :: "int \<Rightarrow> IoApp \<Rightarrow> IoApp" where
  "ia_setReadTimeout timeout io = io\<lparr>ia_rtimeout := timeout\<rparr>"

definition ia_setWriteTimeout :: "int \<Rightarrow> IoApp \<Rightarrow> IoApp" where
  "ia_setWriteTimeout timeout io = io\<lparr>ia_wtimeout := timeout\<rparr>"

definition ia_setPendingMessageCollector :: "MsMessageBlockQueue option \<Rightarrow> IoApp \<Rightarrow> IoApp" where
  "ia_setPendingMessageCollector collector io = io\<lparr>ia_collector := collector\<rparr>"

definition ia_setSecondLimit :: "int \<Rightarrow> IoApp \<Rightarrow> IoApp res" where
  "ia_setSecondLimit limit io = bindr (guardr Assert_failed (0 < limit)) (\<lambda>_. Inr (io\<lparr>ia_second_limit := limit\<rparr>))"

definition ia_setMinuteLimit :: "int \<Rightarrow> IoApp \<Rightarrow> IoApp res" where
  "ia_setMinuteLimit limit io = bindr (guardr Assert_failed (0 < limit)) (\<lambda>_. Inr (io\<lparr>ia_minute_limit := limit\<rparr>))"

definition ia_setHourLimit :: "int \<Rightarrow> IoApp \<Rightarrow> IoApp res" where
  "ia_setHourLimit limit io = bindr (guardr Assert_failed (0 < limit)) (\<lambda>_. Inr (io\<lparr>ia_hour_limit := limit\<rparr>))"

definition ia_newNotify :: "IoApp \<Rightarrow> IoApp" where
  "ia_newNotify io = io\<lparr>ia_new_notify := Suc (ia_new_notify io)\<rparr>"

definition ia_pushNotify :: "IoApp \<Rightarrow> IoApp" where
  "ia_pushNotify io = io\<lparr>ia_push_notify := Suc (ia_push_notify io)\<rparr>"

section \<open>New connections\<close>

text \<open>What \<open>newConnection\<close> does to a connection object.\<close>

definition open_conn :: "IoApp \<Rightarrow> int \<Rightarrow> 64 word \<Rightarrow> conn_obj \<Rightarrow> conn_obj" where
  "open_conn io new_fd conn_id ob = (case app_initialize new_fd (ia_id io) conn_id () (co_conn ob, co_app ob) of (c, a) \<Rightarrow>
     let c = c\<lparr>c_rtimeout := ia_rtimeout io, c_wtimeout := ia_wtimeout io, c_when_destroy := True\<rparr>;
         a = a\<lparr>ac_second_limit := ia_second_limit io, ac_minute_limit := ia_minute_limit io, ac_hour_limit := ia_hour_limit io\<rparr>
     in ob\<lparr>co_conn := setRead True c, co_app := a\<rparr>)"

text \<open>The body of the loop of \<open>newConnection\<close> after the queue element is freed. The pool returns a used object or, at the
  next unused address, a new one: \<open>fresh\<close>.\<close>

definition adopt :: "conn_obj \<Rightarrow> int \<Rightarrow> 64 word \<Rightarrow> IoApp \<Rightarrow> IoApp res" where
  "adopt fresh new_fd conn_id io = bindr (cc_get (ia_cache io)) (\<lambda>(conn, cache).
     let ob = (if conn = cc_conn_brk (ia_cache io) then fresh else ia_conns io conn)
     in Inr (io\<lparr>ia_cache := cache, ia_conns := (ia_conns io)(conn := open_conn io new_fd conn_id ob),
                ia_online_register := cr_set conn_id conn (ia_online_register io)\<rparr>))"

text \<open>The loop over the queue elements; the fuel is the number of element addresses. \<open>mk\<close> is the object a constructor
  call leaves in each round.\<close>

primrec new_loop :: "(nat \<Rightarrow> conn_obj) \<Rightarrow> nat \<Rightarrow> nat \<Rightarrow> addr \<Rightarrow> IoApp \<times> qheap \<Rightarrow> (nat \<times> IoApp \<times> qheap) res" where
  "new_loop mk 0 cnt lst s = (if lst = 0 then Inr (cnt, s) else Inl Diverge)"
| "new_loop mk (Suc k) cnt lst s = (if lst = 0 then Inr (cnt, s) else case s of (io, qh) \<Rightarrow>
     bindr (hget qh lst) (\<lambda>el.
     bindr (freeQueueElement lst qh) (\<lambda>qh.
     bindr (adopt (mk cnt) (qe_value el) (qe_id el) (io\<lparr>ia_conn_count := ia_conn_count io + 1\<rparr>)) (\<lambda>io.
     new_loop mk k (Suc cnt) (qe_next el) (io, qh)))))"

definition newConnection :: "(nat \<Rightarrow> conn_obj) \<Rightarrow> IoApp \<times> qheap \<Rightarrow> (IoApp \<times> qheap) res" where
  "newConnection mk = (\<lambda>(io, qh). case qu_get (ia_sock_queue io, qh) of (lst, q, qh) \<Rightarrow>
     bindr (new_loop mk (h_brk qh) 0 lst (io\<lparr>ia_sock_queue := q\<rparr>, qh)) (\<lambda>(cnt, io, qh).
     Inr (io\<lparr>ia_cache := (ia_cache io)\<lparr>cc_loop_count := cc_loop_count (ia_cache io) + 1\<rparr>,
             ia_new_notify := notify_read cnt (ia_new_notify io)\<rparr>, qh)))"

text \<open>\<open>destroy\<close>, which the base class calls when a connection is closed.\<close>

definition ia_destroy :: "addr \<Rightarrow> IoConnection \<Rightarrow> IoApp \<Rightarrow> IoApp res" where
  "ia_destroy conn c io = bindr (cc_recycle conn (ia_cache io)) (\<lambda>cache.
     Inr (io\<lparr>ia_conn_count := ia_conn_count io - 1, ia_online_register := cr_unset (c_id c) (ia_online_register io),
             ia_cache := cache\<rparr>))"

section \<open>Handlers of a connection\<close>

text \<open>While a handler of the connection runs, its environment has the heaps, the collector, the state \<open>q\<close> of the message processor
  and the thread itself, which \<open>destroy\<close> changes; \<open>clk\<close> is what the clock shows while the handler runs.\<close>

text \<open>The clock of a handler that does not read it.\<close>

definition no_clock :: "nat \<Rightarrow> timeval" where
  "no_clock n = (0, 0)"

definition lend :: "(nat \<Rightarrow> timeval) \<Rightarrow> 'q \<Rightarrow> IoApp \<Rightarrow> unit IoAppConnection \<Rightarrow> ('q \<times> IoApp) IoAppConnection" where
  "lend clk q io a = \<lparr>ac_state = ac_state a, ac_sampling = ac_sampling a, ac_push_buffer = ac_push_buffer a,
     ac_pending_data = ac_pending_data a, ac_second_limit = ac_second_limit a, ac_minute_limit = ac_minute_limit a,
     ac_hour_limit = ac_hour_limit a, ac_collector = ia_collector io, ac_clock = clk, ac_proc = (q, io)\<rparr>"

definition unlend :: "('q \<times> IoApp) IoAppConnection \<Rightarrow> unit IoAppConnection" where
  "unlend a = \<lparr>ac_state = ac_state a, ac_sampling = ac_sampling a, ac_push_buffer = ac_push_buffer a,
     ac_pending_data = ac_pending_data a, ac_second_limit = ac_second_limit a, ac_minute_limit = ac_minute_limit a,
     ac_hour_limit = ac_hour_limit a, ac_collector = None, ac_clock = ac_clock a, ac_proc = ()\<rparr>"

type_synonym 'q io_state = "'q \<times> IoApp \<times> pheap \<times> mheap"

definition enter :: "(nat \<Rightarrow> timeval) \<Rightarrow> addr \<Rightarrow> 'q io_state \<Rightarrow> IoConnection \<times> ('q \<times> IoApp) appenv" where
  "enter clk conn = (\<lambda>(q, io, ph, mh). let ob = ia_conns io conn in
     (co_conn ob, \<lparr>e_ph = ph, e_mh = mh, e_wire = co_wire ob, e_closes = co_closes ob, e_ext = lend clk q io (co_app ob)\<rparr>))"

definition leave :: "addr \<Rightarrow> IoConnection \<times> ('q \<times> IoApp) appenv \<Rightarrow> 'q io_state" where
  "leave conn = (\<lambda>(c, e). case ac_proc (e_ext e) of (q, io) \<Rightarrow>
     (q, io\<lparr>ia_collector := ac_collector (e_ext e), ia_conns := (ia_conns io)(conn :=
           \<lparr>co_conn = c, co_app = unlend (e_ext e), co_wire = e_wire e, co_closes = e_closes e\<rparr>)\<rparr>, e_ph e, e_mh e))"

definition with_thread :: "'q processor \<Rightarrow> ('q \<times> IoApp) processor" where
  "with_thread process msg = (\<lambda>((q, io), mh). bindr (process msg (q, mh)) (\<lambda>(q, mh). Inr ((q, io), mh)))"

definition destroy_env :: "addr \<Rightarrow> IoConnection \<Rightarrow> ('q \<times> IoApp) appenv \<Rightarrow> ('q \<times> IoApp) appenv res" where
  "destroy_env conn c e = (case ac_proc (e_ext e) of (q, io) \<Rightarrow>
     bindr (ia_destroy conn c io) (\<lambda>io. Inr (e\<lparr>e_ext := (e_ext e)\<lparr>ac_proc := (q, io)\<rparr>\<rparr>)))"

definition io_vtable :: "'q processor \<Rightarrow> addr \<Rightarrow> ('q \<times> IoApp) IoAppConnection vtable" where
  "io_vtable process conn = app_vtable (with_thread process) (destroy_env conn)"


definition io_write :: "'q processor \<Rightarrow> (nat \<Rightarrow> timeval) \<Rightarrow> bool \<Rightarrow> addr \<Rightarrow> send_ev list \<Rightarrow> 'q io_state \<Rightarrow> (send_ev list \<times> 'q io_state) res" where
  "io_write process clk timed_out conn sc s = (case enter clk conn s of (c, e) \<Rightarrow>
     bindr (writeHandler 0 (io_vtable process conn) timed_out (c, sc, e)) (\<lambda>(c, sc, e). Inr (sc, leave conn (c, e))))"

section \<open>Messages for connections\<close>

text \<open>\<open>pushMessage\<close>: to the connection of that id, or to the collector, or dropped. \<open>switch_state_app_msg\<close> is the only function
  \<open>_switch_state\<close> points to; no code sets \<open>_push_callback\<close>, and that function could not be called through it.\<close>

definition run_switch :: "IMessage \<Rightarrow> unit IoAppConnection \<Rightarrow> unit IoAppConnection res" where
  "run_switch m a = bindr (case m_switch_state m of Fn_null \<Rightarrow> Inr a
     | Fn_switch_state_app_msg \<Rightarrow> bindr (init_of (m_state m)) (\<lambda>st. Inr (switch_state_app_msg st a))) (\<lambda>a.
     if m_push_callback m = Fn_null then Inr a else Inl Uninit)"

definition push_to :: "IoPushData \<Rightarrow> addr \<Rightarrow> addr \<Rightarrow> IoApp \<times> pheap \<times> mheap \<Rightarrow> (IoApp \<times> pheap \<times> mheap) res" where
  "push_to junk conn msg = (\<lambda>(io, ph, mh). bindr (hget mh msg) (\<lambda>m.
     let ob = ia_conns io conn in
     bindr (run_switch m (co_app ob)) (\<lambda>a.
     let ob = ob\<lparr>co_conn := setWrite True (co_conn ob), co_app := a\<rparr> in
     case enter no_clock conn ((), io\<lparr>ia_conns := (ia_conns io)(conn := ob)\<rparr>, ph, mh) of (c, e) \<Rightarrow>
     bindr (pushMsgData junk msg e) (\<lambda>e. Inr (snd (leave conn (c, e)))))))"

definition pushMessage :: "IoPushData \<Rightarrow> addr \<Rightarrow> IoApp \<times> pheap \<times> mheap \<Rightarrow> (IoApp \<times> pheap \<times> mheap) res" where
  "pushMessage junk msg = (\<lambda>(io, ph, mh). bindr (hget mh msg) (\<lambda>m.
     case cr_get (m_conn m) (ia_online_register io) of
       Some conn \<Rightarrow> push_to junk conn msg (io, ph, mh)
     | None \<Rightarrow> (case ia_collector io of
         Some q \<Rightarrow> bindr (collector_collect msg (q, mh)) (\<lambda>(q, mh). Inr (io\<lparr>ia_collector := Some q\<rparr>, ph, mh))
       | None \<Rightarrow> bindr (releaseIMessage msg mh) (\<lambda>mh. Inr (io, ph, mh)))))"

primrec push_loop :: "nat \<Rightarrow> IoPushData \<Rightarrow> nat \<Rightarrow> addr \<Rightarrow> IoApp \<times> pheap \<times> mheap \<Rightarrow> (nat \<times> IoApp \<times> pheap \<times> mheap) res" where
  "push_loop 0 junk cnt lst s = (if lst = 0 then Inr (cnt, s) else Inl Diverge)"
| "push_loop (Suc k) junk cnt lst s = (if lst = 0 then Inr (cnt, s) else case s of (io, ph, mh) \<Rightarrow>
     bindr (hget mh lst) (\<lambda>m.
     bindr (pushMessage junk lst (io, ph, hset mh lst (set_next 0 m))) (\<lambda>s.
     push_loop k junk (Suc cnt) (m_next m) s)))"

definition push :: "IoPushData \<Rightarrow> IoApp \<times> pheap \<times> mheap \<Rightarrow> (IoApp \<times> pheap \<times> mheap) res" where
  "push junk = (\<lambda>(io, ph, mh). bindr (mq_get (ia_msg_queue io, mh)) (\<lambda>(lst, q, mh).
     bindr (push_loop (h_brk mh) junk 0 lst (io\<lparr>ia_msg_queue := q\<rparr>, ph, mh)) (\<lambda>(cnt, io, ph, mh).
     Inr (io\<lparr>ia_push_notify := notify_read cnt (ia_push_notify io)\<rparr>, ph, mh))))"

section \<open>Adopting connections\<close>

text \<open>The thread is well formed: the register maps ids to distinct open connections with that id, none of them in the pool, and
  the counter is the number of them.\<close>

definition io_ok :: "IoApp \<Rightarrow> addr list \<Rightarrow> addr list \<Rightarrow> addr list \<Rightarrow> bool" where
  "io_ok io is cs rs \<longleftrightarrow> (let reg = ia_online_register io; c = ia_cache io in cc_inv c is cs rs \<and>
     finite (dom reg) \<and> inj_on reg (dom reg) \<and> ia_conn_count io = int (card (dom reg)) \<and>
     (\<forall>cid conn. reg cid = Some conn \<longrightarrow> 0 < conn \<and> conn < cc_conn_brk c \<and> conn \<notin> pooled c (cs @ rs) \<and>
        c_id (co_conn (ia_conns io conn)) = cid \<and> c_when_destroy (co_conn (ia_conns io conn)) \<and> \<not> c_destroy (co_conn (ia_conns io conn))))"

declare io_ok_def [inv_defs]

lemma open_conn_fields:
  "c_socket (co_conn (open_conn io fd cid ob)) = fd" "c_id (co_conn (open_conn io fd cid ob)) = cid" "c_io (co_conn (open_conn io fd cid ob)) = ia_id io"
  "c_when_destroy (co_conn (open_conn io fd cid ob))" "\<not> c_destroy (co_conn (open_conn io fd cid ob))"
  "c_rpos (co_conn (open_conn io fd cid ob)) = 0" "c_rsock_state (co_conn (open_conn io fd cid ob)) = SOCKET_RECV_FRAMING"
  "c_wsock_state (co_conn (open_conn io fd cid ob)) = SOCKET_DATA_WRITE" "c_current_push (co_conn (open_conn io fd cid ob)) = 0"
  "c_revent (co_conn (open_conn io fd cid ob)) = Some (max 0 (ia_rtimeout io))"
  "ac_state (co_app (open_conn io fd cid ob)) = 0" "ac_pending_data (co_app (open_conn io fd cid ob)) = 0"
  "ac_second_limit (co_app (open_conn io fd cid ob)) = ia_second_limit io" "ac_minute_limit (co_app (open_conn io fd cid ob)) = ia_minute_limit io"
  "ac_hour_limit (co_app (open_conn io fd cid ob)) = ia_hour_limit io" "ac_sampling (co_app (open_conn io fd cid ob)) = ac_sampling (co_app ob)"
  by (simp_all add: open_conn_def app_initialize_def conn_initialize_def setRead_def setReadFlag_def Let_def)

text \<open>What a turn may change, and what it keeps.\<close>

definition adopted :: "IoApp \<Rightarrow> IoApp \<Rightarrow> (int \<times> 64 word) list \<Rightarrow> bool" where
  "adopted io io' xs \<longleftrightarrow>
     io'\<lparr>ia_conn_count := ia_conn_count io, ia_cache := ia_cache io, ia_conns := ia_conns io, ia_online_register := ia_online_register io\<rparr> = io \<and>
     dom (ia_online_register io') = dom (ia_online_register io) \<union> snd ` set xs \<and>
     (\<forall>cid conn. ia_online_register io cid = Some conn \<longrightarrow> ia_online_register io' cid = Some conn \<and> ia_conns io' conn = ia_conns io conn) \<and>
     (\<forall>fd cid. (fd, cid) \<in> set xs \<longrightarrow> (\<exists>conn ob. ia_online_register io' cid = Some conn \<and> ia_conns io' conn = open_conn io fd cid ob))"

lemma open_conn_same: "ia_id io' = ia_id io \<Longrightarrow> ia_rtimeout io' = ia_rtimeout io \<Longrightarrow> ia_wtimeout io' = ia_wtimeout io \<Longrightarrow>
  ia_second_limit io' = ia_second_limit io \<Longrightarrow> ia_minute_limit io' = ia_minute_limit io \<Longrightarrow> ia_hour_limit io' = ia_hour_limit io \<Longrightarrow>
  open_conn io' = open_conn io"
  by (simp add: open_conn_def fun_eq_iff)

lemma adopted_Nil: "adopted io io []"
  by (simp add: adopted_def)

lemma adopted_open: "adopted io io' xs \<Longrightarrow> open_conn io' = open_conn io"
  by (rule open_conn_same) (cases io; cases io'; simp add: adopted_def)+

lemma adopted_trans:
  assumes "adopted io io1 xs" "adopted io1 io2 ys"
  shows "adopted io io2 (xs @ ys)"
proof -
  have "io2\<lparr>ia_conn_count := ia_conn_count io, ia_cache := ia_cache io, ia_conns := ia_conns io, ia_online_register := ia_online_register io\<rparr> = io"
    using assms by (cases io; cases io1; cases io2) (simp add: adopted_def)
  moreover have "dom (ia_online_register io2) = dom (ia_online_register io) \<union> snd ` set (xs @ ys)" using assms by (auto simp: adopted_def)
  moreover have "\<exists>conn ob. ia_online_register io2 cid = Some conn \<and> ia_conns io2 conn = open_conn io fd cid ob" if i: "(fd, cid) \<in> set (xs @ ys)" for fd cid
  proof (cases "(fd, cid) \<in> set xs")
    case True
    then obtain conn ob where "ia_online_register io1 cid = Some conn" "ia_conns io1 conn = open_conn io fd cid ob" using assms(1) unfolding adopted_def by blast
    then show ?thesis using assms(2) unfolding adopted_def by metis
  next
    case False
    then show ?thesis using i assms(2) unfolding adopted_def adopted_open[OF assms(1)] by auto
  qed
  moreover have "ia_online_register io2 cid = Some conn \<and> ia_conns io2 conn = ia_conns io conn" if "ia_online_register io cid = Some conn" for cid conn
    using that assms unfolding adopted_def by metis
  ultimately show ?thesis unfolding adopted_def by blast
qed

lemma adopt_ok:
  assumes i: "io_ok io is cs rs" and new: "cid \<notin> dom (ia_online_register io)" and room: "cc_conn_brk (ia_cache io) < cc_lim (ia_cache io)"
  shows "\<exists>io' is' cs' rs'. adopt fresh fd cid (io\<lparr>ia_conn_count := ia_conn_count io + 1\<rparr>) = Inr io' \<and> io_ok io' is' cs' rs' \<and>
    adopted io io' [(fd, cid)] \<and> cc_conn_brk (ia_cache io') \<le> Suc (cc_conn_brk (ia_cache io)) \<and> cc_lim (ia_cache io') = cc_lim (ia_cache io)"
proof -
  define reg where "reg = ia_online_register io"
  have inv: "cc_inv (ia_cache io) is cs rs" and fin: "finite (dom reg)" and inj: "inj_on reg (dom reg)" and cnt: "ia_conn_count io = int (card (dom reg))"
    and conns: "\<And>k conn. reg k = Some conn \<Longrightarrow> 0 < conn \<and> conn < cc_conn_brk (ia_cache io) \<and> conn \<notin> pooled (ia_cache io) (cs @ rs) \<and>
        c_id (co_conn (ia_conns io conn)) = k \<and> c_when_destroy (co_conn (ia_conns io conn)) \<and> \<not> c_destroy (co_conn (ia_conns io conn))"
    using i by (simp_all add: io_ok_def reg_def Let_def)
  from cc_get_ok[OF inv room] obtain conn c' is' cs' rs' where g: "cc_get (ia_cache io) = Inr (conn, c')" "cc_inv c' is' cs' rs'"
    "conn \<notin> pooled c' (cs' @ rs')" "pooled c' (cs' @ rs') = pooled (ia_cache io) (cs @ rs) - {conn}"
    "conn = cc_conn_brk (ia_cache io) \<and> cc_conn_brk c' = Suc conn \<or>
     (\<exists>n \<in> set (cs @ rs). cc_conn (ia_cache io) n = conn \<and> cc_which_loop (ia_cache io) n < cc_loop_count (ia_cache io)) \<and> cc_conn_brk c' = cc_conn_brk (ia_cache io)"
    "cc_lim c' = cc_lim (ia_cache io)" by metis
  have brk: "cc_conn_brk (ia_cache io) \<le> cc_conn_brk c'" "cc_conn_brk c' \<le> Suc (cc_conn_brk (ia_cache io))" "conn < cc_conn_brk c'" "0 < conn"
    using g(5) inv by (auto simp: cc_inv_def)
  have other: "k' \<noteq> conn" if "reg k = Some k'" for k k'
    using g(5)
  proof
    assume "conn = cc_conn_brk (ia_cache io) \<and> cc_conn_brk c' = Suc conn"
    then show ?thesis using conns[OF that] by auto
  next
    assume "(\<exists>n \<in> set (cs @ rs). cc_conn (ia_cache io) n = conn \<and> cc_which_loop (ia_cache io) n < cc_loop_count (ia_cache io)) \<and> cc_conn_brk c' = cc_conn_brk (ia_cache io)"
    then show ?thesis using conns[OF that] by blast
  qed
  define ob where "ob = (if conn = cc_conn_brk (ia_cache io) then fresh else ia_conns io conn)"
  define io' where "io' = io\<lparr>ia_conn_count := ia_conn_count io + 1, ia_cache := c', ia_conns := (ia_conns io)(conn := open_conn io fd cid ob),
    ia_online_register := reg(cid \<mapsto> conn)\<rparr>"
  have oc: "open_conn (io\<lparr>ia_conn_count := ia_conn_count io + 1\<rparr>) = open_conn io" by (rule open_conn_same) simp_all
  have a: "adopt fresh fd cid (io\<lparr>ia_conn_count := ia_conn_count io + 1\<rparr>) = Inr io'"
    using g(1) by (simp add: adopt_def oc io'_def cr_set_def reg_def ob_def)
  have new': "cid \<notin> dom reg" using new by (simp add: reg_def)
  have ii: "inj_on (reg(cid \<mapsto> conn)) (insert cid (dom reg))"
  proof (rule inj_onI)
    fix x y assume "x \<in> insert cid (dom reg)" "y \<in> insert cid (dom reg)" "(reg(cid \<mapsto> conn)) x = (reg(cid \<mapsto> conn)) y"
    then show "x = y" using inj other[of x] other[of y] by (auto simp: inj_on_def domIff split: if_splits)
  qed
  have cc: "int (card (insert cid (dom reg))) = int (card (dom reg)) + 1" using fin new' by simp
  have cn: "0 < conn1 \<and> conn1 < cc_conn_brk c' \<and> conn1 \<notin> pooled c' (cs' @ rs') \<and> c_id (co_conn (ia_conns io' conn1)) = k \<and>
      c_when_destroy (co_conn (ia_conns io' conn1)) \<and> \<not> c_destroy (co_conn (ia_conns io' conn1))" if "(reg(cid \<mapsto> conn)) k = Some conn1" for k conn1
  proof (cases "k = cid")
    case True
    then have "conn1 = conn" using that by simp
    then show ?thesis using True brk g(3) by (simp add: io'_def open_conn_fields)
  next
    case False
    then have k: "reg k = Some conn1" using that by simp
    show ?thesis using conns[OF k] other[OF k] brk(1) unfolding g(4) by (auto simp: io'_def)
  qed
  have "io_ok io' is' cs' rs'" unfolding io_ok_def Let_def
    using g(2) fin ii cc cn cnt by (simp add: io'_def)
  moreover have "adopted io io' [(fd, cid)]"
  proof -
    have 1: "ia_online_register io' k = Some c1 \<and> ia_conns io' c1 = ia_conns io c1" if "ia_online_register io k = Some c1" for k c1
      using that new' other[of k c1] by (auto simp: io'_def reg_def[symmetric])
    have 2: "\<exists>conn ob. ia_online_register io' cid = Some conn \<and> ia_conns io' conn = open_conn io fd cid ob" by (auto simp: io'_def)
    show ?thesis using 1 2 unfolding adopted_def by (simp add: io'_def reg_def)
  qed
  ultimately show ?thesis using a brk g(6) by (intro exI[of _ io'] exI[of _ is'] exI[of _ cs'] exI[of _ rs']) (simp add: io'_def)
qed

text \<open>The descriptor and the id a queue element carries.\<close>

definition el_at :: "qheap \<Rightarrow> addr \<Rightarrow> int \<times> 64 word" where
  "el_at qh a = (case h_cells qh a of None \<Rightarrow> (0, 0) | Some el \<Rightarrow> (qe_value el, qe_id el))"

lemma new_loop_ok:
  assumes "path qe_next qh lst es 0" "distinct (map (snd \<circ> el_at qh) es)" "(snd \<circ> el_at qh) ` set es \<inter> dom (ia_online_register io) = {}"
    "io_ok io is cs rs" "cc_conn_brk (ia_cache io) + length es \<le> cc_lim (ia_cache io)" "length es \<le> k"
  shows "\<exists>io' is' cs' rs'. new_loop mk k cnt lst (io, qh) = Inr (cnt + length es, io', freed qh (set es)) \<and> io_ok io' is' cs' rs' \<and>
    adopted io io' (map (el_at qh) es)"
  using assms
proof (induction es arbitrary: qh lst io "is" cs rs k cnt)
  case Nil
  then have z: "lst = 0" by simp
  have "new_loop mk k cnt lst (io, qh) = Inr (cnt, io, qh)" unfolding z by (cases k) simp_all
  then show ?case using Nil adopted_Nil by auto
next
  case (Cons e es)
  then obtain k' where k: "k = Suc k'" by (cases k) auto
  obtain el where el: "lst = e" "e \<noteq> 0" "h_cells qh e = Some el" "path qe_next qh (qe_next el) es 0" using Cons.prems(1) by (auto split: option.splits)
  have ne: "e \<notin> set es" using path_distinct[OF Cons.prems(1)] by simp
  have xe: "el_at qh e = (qe_value el, qe_id el)" using el by (simp add: el_at_def)
  define qh1 where "qh1 = freed qh {e}"
  have f: "freeQueueElement e qh = Inr qh1" using el by (simp add: freeQueueElement_def qh1_def hfree_freed live_def)
  have x1: "el_at qh1 a = el_at qh a" if "a \<in> set es" for a using that ne by (auto simp: el_at_def qh1_def)
  have p1: "path qe_next qh1 (qe_next el) es 0" using el(4) ne by (intro path_frame[OF el(4)]) (auto simp: qh1_def)
  have "qe_id el \<notin> dom (ia_online_register io)" using Cons.prems(3) xe by simp
  from adopt_ok[OF Cons.prems(4) this, of "mk cnt" "qe_value el"] Cons.prems(5) obtain io1 is1 cs1 rs1 where a:
    "adopt (mk cnt) (qe_value el) (qe_id el) (io\<lparr>ia_conn_count := ia_conn_count io + 1\<rparr>) = Inr io1" "io_ok io1 is1 cs1 rs1"
    "adopted io io1 [(qe_value el, qe_id el)]" "cc_conn_brk (ia_cache io1) \<le> Suc (cc_conn_brk (ia_cache io))" "cc_lim (ia_cache io1) = cc_lim (ia_cache io)" by auto
  have m1: "map (snd \<circ> el_at qh1) es = map (snd \<circ> el_at qh) es" "map (el_at qh1) es = map (el_at qh) es" using x1 by simp_all
  have d1: "distinct (map (snd \<circ> el_at qh1) es)" unfolding m1 using Cons.prems(2) by (simp add: comp_def)
  have i1: "(snd \<circ> el_at qh1) ` set es = (snd \<circ> el_at qh) ` set es" using arg_cong[OF m1(1), of set] by simp
  have "dom (ia_online_register io1) = insert (qe_id el) (dom (ia_online_register io))" using a(3) by (auto simp: adopted_def)
  moreover have "qe_id el \<notin> (snd \<circ> el_at qh) ` set es" using Cons.prems(2) xe by (simp add: image_comp)
  ultimately have e1: "(snd \<circ> el_at qh1) ` set es \<inter> dom (ia_online_register io1) = {}" unfolding i1 using Cons.prems(3) by auto
  from Cons.IH[OF p1 d1 e1 a(2), of k' "Suc cnt"] Cons.prems(5,6) a(4,5) k obtain io' is' cs' rs' where r:
    "new_loop mk k' (Suc cnt) (qe_next el) (io1, qh1) = Inr (Suc cnt + length es, io', freed qh1 (set es))" "io_ok io' is' cs' rs'"
    "adopted io1 io' (map (el_at qh) es)" unfolding m1 by auto
  have "freed qh1 (set es) = freed qh (set (e # es))" by (simp add: qh1_def)
  then have "new_loop mk k cnt lst (io, qh) = Inr (cnt + length (e # es), io', freed qh (set (e # es)))"
    using k el f a(1) r(1) by (simp add: hget_def)
  moreover have "adopted io io' (map (el_at qh) (e # es))" using adopted_trans[OF a(3) r(3)] xe by simp
  ultimately show ?case using r(2) by blast
qed

text \<open>The end of a turn advances the loop counter of the pool.\<close>

definition next_loop :: "IoApp \<Rightarrow> IoApp" where
  "next_loop io = io\<lparr>ia_cache := (ia_cache io)\<lparr>cc_loop_count := cc_loop_count (ia_cache io) + 1\<rparr>\<rparr>"

lemma cc_inv_next_loop: "cc_inv c is cs rs \<Longrightarrow> cc_inv (c\<lparr>cc_loop_count := cc_loop_count c + 1\<rparr>) is cs rs"
  by (force simp: cc_inv_def cc_rings_def)

lemma io_ok_next_loop: "io_ok io is cs rs \<Longrightarrow> io_ok (next_loop io) is cs rs"
  using cc_inv_next_loop[of "ia_cache io" "is" cs rs] unfolding io_ok_def next_loop_def Let_def by simp

text \<open>C16: One turn of the accept side of an io thread. Every queued socket becomes an open connection registered under its id, waiting for
  the first frame, in the initial state and with the limits of the thread; the connections that were open stay as they were; and the thread
  stays well formed, so that its counter is the number of open connections and no open connection is in the pool.\<close>

theorem new_connections_adopted:
  assumes "io_ok io is cs rs" "heap_ok qh" "seg qe_next qh (qu_head (ia_sock_queue io)) (qu_tail (ia_sock_queue io)) es"
    and "distinct (map (snd \<circ> el_at qh) es)" "(snd \<circ> el_at qh) ` set es \<inter> dom (ia_online_register io) = {}"
    and "cc_conn_brk (ia_cache io) + length es \<le> cc_lim (ia_cache io)"
  shows "\<exists>io' is' cs' rs'. newConnection mk (io, qh) = Inr (io', freed qh (set es)) \<and> io_ok io' is' cs' rs' \<and>
    dom (ia_online_register io') = dom (ia_online_register io) \<union> (snd \<circ> el_at qh) ` set es \<and>
    ia_conn_count io' = ia_conn_count io + int (length es) \<and>
    (\<forall>cid conn. ia_online_register io cid = Some conn \<longrightarrow> ia_online_register io' cid = Some conn \<and> ia_conns io' conn = ia_conns io conn) \<and>
    (\<forall>fd cid. (fd, cid) \<in> el_at qh ` set es \<longrightarrow> (\<exists>conn. ia_online_register io' cid = Some conn \<and>
       (let c = co_conn (ia_conns io' conn); a = co_app (ia_conns io' conn) in
        c_socket c = fd \<and> c_id c = cid \<and> c_rsock_state c = SOCKET_RECV_FRAMING \<and> c_rpos c = 0 \<and> c_revent c = Some (max 0 (ia_rtimeout io)) \<and>
        ac_state a = 0 \<and> ac_second_limit a = ia_second_limit io \<and> ac_minute_limit a = ia_minute_limit io \<and> ac_hour_limit a = ia_hour_limit io)))"
proof -
  define io0 where "io0 = io\<lparr>ia_sock_queue := qu_new\<rparr>"
  have i0: "io_ok io0 is cs rs" using assms(1) by (simp add: io_ok_def io0_def)
  have p: "path qe_next qh (qu_head (ia_sock_queue io)) es 0" using assms(3) by (simp add: seg_def)
  have r0: "ia_online_register io0 = ia_online_register io" "ia_conns io0 = ia_conns io" "ia_cache io0 = ia_cache io" "ia_conn_count io0 = ia_conn_count io"
    by (simp_all add: io0_def)
  have len: "length es \<le> h_brk qh" using path_length[OF assms(2) p] by simp
  from new_loop_ok[OF p assms(4) _ i0 _ len, of mk 0] assms(5,6) obtain io1 is' cs' rs' where l:
    "new_loop mk (h_brk qh) 0 (qu_head (ia_sock_queue io)) (io0, qh) = Inr (length es, io1, freed qh (set es))" "io_ok io1 is' cs' rs'"
    "adopted io0 io1 (map (el_at qh) es)" by (auto simp: r0)
  define io' where "io' = (next_loop io1)\<lparr>ia_new_notify := notify_read (length es) (ia_new_notify io1)\<rparr>"
  have f: "ia_online_register io' = ia_online_register io1" "ia_conns io' = ia_conns io1" "ia_conn_count io' = ia_conn_count io1"
    by (simp_all add: io'_def next_loop_def)
  have "newConnection mk (io, qh) = Inr (io', freed qh (set es))"
  proof -
    have "(ia_sock_queue io)\<lparr>qu_head := 0, qu_tail := 0\<rparr> = qu_new" by (cases "ia_sock_queue io") (simp add: qu_new_def)
    then show ?thesis using l(1) by (simp add: newConnection_def qu_get_def io0_def[symmetric] io'_def next_loop_def)
  qed
  moreover have ok': "io_ok io' is' cs' rs'" using io_ok_next_loop[OF l(2)] unfolding io'_def io_ok_def by simp
  moreover have dm: "dom (ia_online_register io1) = dom (ia_online_register io) \<union> (snd \<circ> el_at qh) ` set es"
    using l(3) by (simp add: adopted_def r0 image_comp)
  moreover have "ia_conn_count io1 = ia_conn_count io + int (length es)"
  proof -
    have "ia_conn_count io1 = int (card (dom (ia_online_register io1)))" "ia_conn_count io = int (card (dom (ia_online_register io)))" "finite (dom (ia_online_register io))"
      using l(2) assms(1) by (simp_all add: io_ok_def Let_def)
    moreover have "card ((snd \<circ> el_at qh) ` set es) = length es" using distinct_card[OF assms(4)] by simp
    ultimately show ?thesis using dm assms(5) by (simp add: card_Un_disjoint Int_commute)
  qed
  moreover have "open_conn io0 = open_conn io" by (rule open_conn_same) (simp_all add: io0_def)
  then have "\<exists>conn ob. ia_online_register io1 cid = Some conn \<and> ia_conns io1 conn = open_conn io fd cid ob" if "(fd, cid) \<in> el_at qh ` set es" for fd cid
    using l(3) that unfolding adopted_def by simp
  then have "\<exists>conn. ia_online_register io1 cid = Some conn \<and> (let c = co_conn (ia_conns io1 conn); a = co_app (ia_conns io1 conn) in
        c_socket c = fd \<and> c_id c = cid \<and> c_rsock_state c = SOCKET_RECV_FRAMING \<and> c_rpos c = 0 \<and> c_revent c = Some (max 0 (ia_rtimeout io)) \<and>
        ac_state a = 0 \<and> ac_second_limit a = ia_second_limit io \<and> ac_minute_limit a = ia_minute_limit io \<and> ac_hour_limit a = ia_hour_limit io)"
    if "(fd, cid) \<in> el_at qh ` set es" for fd cid using that by (fastforce simp: Let_def open_conn_fields)
  moreover have "ia_online_register io1 cid = Some conn \<and> ia_conns io1 conn = ia_conns io conn" if "ia_online_register io cid = Some conn" for cid conn
    using l(3) that unfolding adopted_def r0 by blast
  ultimately show ?thesis by (intro exI[of _ io'] exI[of _ is'] exI[of _ cs'] exI[of _ rs']) (simp add: f)
qed

definition demo_io :: IoApp where
  "demo_io = \<lparr>ia_id = 3, ia_rtimeout = 10, ia_wtimeout = 10, ia_second_limit = 3, ia_minute_limit = 30, ia_hour_limit = 500, ia_conn_count = 0,
     ia_new_notify = 1, ia_push_notify = 0, ia_sock_queue = \<lparr>qu_head = 1, qu_tail = 1\<rparr>, ia_msg_queue = mq_new, ia_collector = None,
     ia_cache = cc_new 3 9, ia_online_register = Map.empty, ia_conns = \<lambda>_. conn_obj_new 0 0 0\<rparr>"

definition demo_socks :: qheap where
  "demo_socks = hnew \<lparr>qe_next = 0, qe_id = 77, qe_value = 5\<rparr> (heap_empty 9)"

lemma demo_io_ok: "io_ok demo_io [] [] []"
  by (simp add: io_ok_def demo_io_def Let_def cc_new_inv)

theorem new_connections_adopted_witness:
  "\<exists>io' qh' conn. newConnection (\<lambda>_. conn_obj_new 0 0 0) (demo_io, demo_socks) = Inr (io', qh') \<and> ia_conn_count io' = 1 \<and>
    ia_online_register io' 77 = Some conn \<and> c_socket (co_conn (ia_conns io' conn)) = 5"
proof -
  have e: "el_at demo_socks 1 = (5, 77)" by (simp add: el_at_def demo_socks_def heap_empty_def)
  have "heap_ok demo_socks" by (simp add: demo_socks_def)
  moreover have "seg qe_next demo_socks (qu_head (ia_sock_queue demo_io)) (qu_tail (ia_sock_queue demo_io)) [1]"
    by (simp add: seg_def demo_socks_def demo_io_def heap_empty_def tail_of_def)
  ultimately show ?thesis using new_connections_adopted[OF demo_io_ok, of demo_socks "[1]" "\<lambda>_. conn_obj_new 0 0 0"] e
    by (fastforce simp: demo_io_def cc_new_def Let_def)
qed

section \<open>A reset that happens twice\<close>












end
