(* ===== verification/IoDelivery.thy ===== *)
theory IoDelivery
  imports IoThread
begin

text \<open>
  What the push side of an io thread achieves: the messages queued for the thread reach the output lists of their connections, in order and
  without touching what other connections still have to write; those whose connection is gone are collected or dropped.
\<close>

section \<open>The output of all connections\<close>

abbreviation pmsg :: "pheap \<Rightarrow> addr \<Rightarrow> addr" where
  "pmsg \<equiv> PushList.msg_at"

abbreviation cur_of :: "IoApp \<Rightarrow> addr \<Rightarrow> addr" where
  "cur_of io conn \<equiv> c_current_push (co_conn (ia_conns io conn))"

definition conn_out :: "IoApp \<Rightarrow> pheap \<Rightarrow> mheap \<Rightarrow> addr \<Rightarrow> addr list \<Rightarrow> byte list list \<Rightarrow> bool" where
  "conn_out io ph mh conn ds bss \<longleftrightarrow> out_inv (cur_of io conn) (snd (enter no_clock conn ((), io, ph, mh))) ds bss"

lemma conn_out_def':
  "conn_out io ph mh conn ds bss \<longleftrightarrow> (let l = ac_push_buffer (co_app (ia_conns io conn)); cur = cur_of io conn in
     pl_holds (l, ph, mh) ds \<and> (cur \<noteq> 0 \<longrightarrow> pl_spare (l, ph, mh) cur ds) \<and> list_all2 (node_out ph mh) (cur_list cur @ ds) bss)"
  by (simp add: conn_out_def out_inv_def enter_def lend_def Let_def)

text \<open>Pushing to a connection changes its own nodes and messages only.\<close>

lemma pl_put_cells:
  assumes "pl_put d (l, ph, mh) = Inr (l', ph', mh')"
  shows "a \<noteq> d \<Longrightarrow> a \<noteq> pl_tail l \<Longrightarrow> h_cells ph' a = h_cells ph a"
    "b \<noteq> pmsg ph d \<Longrightarrow> (pl_tail l \<noteq> 0 \<longrightarrow> b \<noteq> pmsg ph (pl_tail l)) \<Longrightarrow> h_cells mh' b = h_cells mh b"
  using assms by (auto simp: pl_put_def bindr_eq_Inr hmod_def Let_def hget_Inr PushList.msg_at_def split: if_splits)

lemma pushMsgData_cells:
  assumes i: "out_inv cur e ds bss" and p: "pushMsgData junk msg e = Inr e'" and room: "h_brk (e_ph e) < h_lim (e_ph e)"
  shows "a \<noteq> h_brk (e_ph e) \<Longrightarrow> a \<notin> set ds \<Longrightarrow> h_cells (e_ph e') a = h_cells (e_ph e) a"
    "b \<noteq> msg \<Longrightarrow> b \<notin> pmsg (e_ph e) ` set ds \<Longrightarrow> h_cells (e_mh e') b = h_cells (e_mh e) b"
    "e' = e\<lparr>e_ph := e_ph e', e_mh := e_mh e', e_ext := (e_ext e)\<lparr>ac_push_buffer := ac_push_buffer (e_ext e')\<rparr>\<rparr>"
proof -
  let ?l = "ac_push_buffer (e_ext e)" and ?ph = "e_ph e" and ?d = "h_brk (e_ph e)"
  have h: "heap_ok ?ph" "seg pd_next ?ph (pl_list ?l) (pl_tail ?l) ds" using i by (auto simp: out_inv_def pl_holds_def)
  have cr: "createPushData junk ?ph = Inr (?d, hnew junk ?ph)" using room h(1) by (simp add: createPushData_def halloc_room heap_ok_def)
  obtain m l' ph' mh' where m: "hget (e_mh e) msg = Inr m"
    "pl_put ?d (?l, hnew (junk\<lparr>pd_next := 0, pd_msg := msg, pd_freev := Fn_releaseIMessage, pd_wbuf := msg, pd_wsize := m_frame_len m, pd_wpos := 0\<rparr>) ?ph, e_mh e) = Inr (l', ph', mh')"
    "e' = e\<lparr>e_ph := ph', e_mh := mh', e_ext := (e_ext e)\<lparr>ac_push_buffer := l'\<rparr>\<rparr>"
    using p cr h(1) by (auto simp: pushMsgData_def bindr_eq_Inr hmod_hnew)
  have t: "pl_tail ?l \<noteq> 0 \<Longrightarrow> pl_tail ?l \<in> set ds \<and> pl_tail ?l \<noteq> ?d"
  proof -
    assume "pl_tail ?l \<noteq> 0"
    then have "ds \<noteq> []" "pl_tail ?l = last ds" using h(2) by (auto simp: seg_def tail_of_def)
    then have "pl_tail ?l \<in> set ds" by simp
    moreover from seg_live[OF h(2) this] live_lt_brk[OF h(1)] have "pl_tail ?l < ?d" by blast
    ultimately show ?thesis by simp
  qed
  note c = pl_put_cells[OF m(2)]
  show "h_cells (e_ph e') a = h_cells (e_ph e) a" if "a \<noteq> ?d" "a \<notin> set ds"
  proof (cases "a = pl_tail ?l")
    case True
    then have "a = 0" using t that by auto
    with True \<open>a = 0\<close> m(2,3) that show ?thesis by (auto simp: pl_put_def bindr_eq_Inr hmod_def Let_def hget_Inr split: if_splits)
  next
    case False
    then show ?thesis using c(1)[OF that(1) False] m(3) that by simp
  qed
  show "h_cells (e_mh e') b = h_cells (e_mh e) b" if b: "b \<noteq> msg" "b \<notin> pmsg (e_ph e) ` set ds"
  proof -
    have "h_cells mh' b = h_cells (e_mh e) b"
    proof (rule c(2))
      show "b \<noteq> pmsg (hnew (junk\<lparr>pd_next := 0, pd_msg := msg, pd_freev := Fn_releaseIMessage, pd_wbuf := msg, pd_wsize := m_frame_len m, pd_wpos := 0\<rparr>) ?ph) ?d"
        using b(1) by (simp add: PushList.msg_at_def)
      show "pl_tail ?l \<noteq> 0 \<longrightarrow> b \<noteq> pmsg (hnew (junk\<lparr>pd_next := 0, pd_msg := msg, pd_freev := Fn_releaseIMessage, pd_wbuf := msg, pd_wsize := m_frame_len m, pd_wpos := 0\<rparr>) ?ph) (pl_tail ?l)"
      proof
        assume "pl_tail ?l \<noteq> 0"
        with t have "pl_tail ?l \<in> set ds" "pl_tail ?l \<noteq> ?d" by auto
        then show "b \<noteq> pmsg (hnew (junk\<lparr>pd_next := 0, pd_msg := msg, pd_freev := Fn_releaseIMessage, pd_wbuf := msg, pd_wsize := m_frame_len m, pd_wpos := 0\<rparr>) ?ph) (pl_tail ?l)"
          using b(2) by (auto simp: PushList.msg_at_def image_iff)
      qed
    qed
    then show ?thesis using m(3) by simp
  qed
  show "e' = e\<lparr>e_ph := e_ph e', e_mh := e_mh e', e_ext := (e_ext e)\<lparr>ac_push_buffer := ac_push_buffer (e_ext e')\<rparr>\<rparr>" using m(3) by simp
qed

text \<open>What another connection has to write is not affected.\<close>

lemma conn_out_frame:
  assumes o: "conn_out io ph mh conn ds bss" and same: "cur_of io' conn = cur_of io conn" "ac_push_buffer (co_app (ia_conns io' conn)) = ac_push_buffer (co_app (ia_conns io conn))"
    and ok: "heap_ok ph'" "heap_ok mh'" and ph: "\<And>d. d \<in> set (cur_list (cur_of io conn) @ ds) \<Longrightarrow> h_cells ph' d = h_cells ph d"
    and mh: "\<And>d. d \<in> set (cur_list (cur_of io conn) @ ds) \<Longrightarrow> h_cells mh' (pmsg ph d) = h_cells mh (pmsg ph d)"
  shows "conn_out io' ph' mh' conn ds bss"
proof -
  let ?l = "ac_push_buffer (co_app (ia_conns io conn))" and ?cur = "cur_of io conn"
  have o1: "pl_holds (?l, ph, mh) ds" "?cur \<noteq> 0 \<Longrightarrow> pl_spare (?l, ph, mh) ?cur ds" "list_all2 (node_out ph mh) (cur_list ?cur @ ds) bss"
    using o unfolding conn_out_def' Let_def by auto
  have m: "map (pmsg ph') ds = map (pmsg ph) ds" using ph by (auto intro: msg_at_frame)
  have "pl_holds (?l, ph', mh') ds" using ph mh by (intro pl_holds_frame[OF o1(1) ok]) auto
  moreover have "pl_spare (?l, ph', mh') ?cur ds" if "?cur \<noteq> 0"
  proof -
    have "h_cells ph' ?cur = h_cells ph ?cur" "h_cells mh' (pmsg ph ?cur) = h_cells mh (pmsg ph ?cur)" using ph mh that by (auto simp: cur_list_def)
    then show ?thesis using o1(2)[OF that] unfolding pl_spare_def m prod.case by (simp add: live_def PushList.msg_at_def)
  qed
  moreover have "list_all2 (node_out ph' mh') (cur_list ?cur @ ds) bss"
    by (rule list_all2_mono_on[OF o1(3)]) (rule node_out_frame, assumption, rule ph, assumption, rule mh, assumption)
  ultimately show ?thesis unfolding conn_out_def' same Let_def by simp
qed

section \<open>Pushing one message\<close>

definition pushable :: "IMessage \<Rightarrow> bool" where
  "pushable m \<longleftrightarrow> m_push_callback m = Fn_null \<and> (m_switch_state m \<noteq> Fn_null \<longrightarrow> m_state m \<noteq> None)"

lemma run_switch_ok: "pushable m \<Longrightarrow> \<exists>a'. run_switch m a = Inr a' \<and> ac_push_buffer a' = ac_push_buffer a"
  by (cases "m_switch_state m"; cases "m_state m") (auto simp: run_switch_def pushable_def switch_state_app_msg_def)

lemma setWrite_fields [simp]: "c_current_push (setWrite True c) = c_current_push c" "c_wsock_state (setWrite True c) = c_wsock_state c" "c_id (setWrite True c) = c_id c"
  by (simp_all add: setWrite_def setWrite'_def setWriteFlag_def Let_def)

text \<open>The connection is waiting for its write event, or for its connection to be established.\<close>

definition flagged :: "conn_obj \<Rightarrow> bool" where
  "flagged ob \<longleftrightarrow> c_wsock_state (co_conn ob) = SOCKET_CONNECTING \<or> c_wevent_flag (co_conn ob)"

lemma setWrite_flagged: "flagged (ob\<lparr>co_conn := setWrite True c, co_app := a\<rparr>)"
  by (simp add: flagged_def) (simp add: setWrite_def setWrite'_def setWriteFlag_def Let_def)

text \<open>The two objects differ in what a push changes.\<close>

definition pushed_obj :: "conn_obj \<Rightarrow> conn_obj \<Rightarrow> bool" where
  "pushed_obj ob ob' \<longleftrightarrow> co_wire ob' = co_wire ob \<and> co_closes ob' = co_closes ob \<and> c_current_push (co_conn ob') = c_current_push (co_conn ob) \<and>
     c_wsock_state (co_conn ob') = c_wsock_state (co_conn ob) \<and> c_id (co_conn ob') = c_id (co_conn ob) \<and> (flagged ob \<longrightarrow> flagged ob')"

lemma pushed_obj_refl [simp]: "pushed_obj ob ob"
  by (simp add: pushed_obj_def)

lemma pushed_obj_trans: "pushed_obj a b \<Longrightarrow> pushed_obj b c \<Longrightarrow> pushed_obj a c"
  by (simp add: pushed_obj_def)

lemma push_to_ok:
  assumes o: "conn_out io ph mh conn ds bss" and m: "hget mh msg = Inr m" "pushable m" and f: "msg_frame mh msg f"
    and new: "msg \<notin> pmsg ph ` set (cur_list (cur_of io conn) @ ds)" and room: "h_brk ph < h_lim ph"
  shows "\<exists>ob' ph' mh'. push_to junk conn msg (io, ph, mh) = Inr (io\<lparr>ia_conns := (ia_conns io)(conn := ob')\<rparr>, ph', mh') \<and> pushed_obj (ia_conns io conn) ob' \<and> flagged ob' \<and>
    conn_out (io\<lparr>ia_conns := (ia_conns io)(conn := ob')\<rparr>) ph' mh' conn (ds @ [h_brk ph]) (bss @ [f]) \<and>
    h_brk ph' = Suc (h_brk ph) \<and> h_lim ph' = h_lim ph \<and> relinked set_next mh mh' \<and>
    pmsg ph' ` set (cur_list (cur_of io conn) @ ds @ [h_brk ph]) = insert msg (pmsg ph ` set (cur_list (cur_of io conn) @ ds)) \<and>
    (\<forall>a. a \<noteq> h_brk ph \<longrightarrow> a \<notin> set ds \<longrightarrow> h_cells ph' a = h_cells ph a) \<and>
    (\<forall>b. b \<noteq> msg \<longrightarrow> b \<notin> pmsg ph ` set ds \<longrightarrow> h_cells mh' b = h_cells mh b)"
proof -
  define ob where "ob = ia_conns io conn"
  from run_switch_ok[OF m(2)] obtain a where a: "run_switch m (co_app ob) = Inr a" "ac_push_buffer a = ac_push_buffer (co_app ob)" by blast
  define ob1 where "ob1 = ob\<lparr>co_conn := setWrite True (co_conn ob), co_app := a\<rparr>"
  define io1 where "io1 = io\<lparr>ia_conns := (ia_conns io)(conn := ob1)\<rparr>"
  define e where "e = snd (enter no_clock conn ((), io1, ph, mh))"
  have en: "enter no_clock conn ((), io1, ph, mh) = (co_conn ob1, e)" by (simp add: e_def enter_def Let_def io1_def)
  have ef: "e_ph e = ph" "e_mh e = mh" "e_wire e = co_wire ob" "e_closes e = co_closes ob" "e_ext e = lend no_clock () io1 a"
    by (simp_all add: e_def enter_def Let_def io1_def ob1_def)
  have c: "c_current_push (co_conn ob1) = cur_of io conn" by (simp add: ob1_def ob_def)
  have oe: "out_inv (cur_of io conn) e ds bss" using o a(2) unfolding conn_out_def' out_inv_def Let_def ef by (simp add: lend_def ob_def)
  have new': "msg \<notin> pmsg (e_ph e) ` set (cur_list (cur_of io conn) @ ds)" "h_brk (e_ph e) < h_lim (e_ph e)" "msg_frame (e_mh e) msg f"
    using new room f by (simp_all add: ef)
  from pushMsgData_ok[OF oe new'(3,1,2), of junk] obtain e' where e': "pushMsgData junk msg e = Inr e'" "out_inv (cur_of io conn) e' (ds @ [h_brk ph]) (bss @ [f])"
    "h_brk (e_ph e') = Suc (h_brk ph)" "h_lim (e_ph e') = h_lim ph" "relinked set_next mh (e_mh e')"
    "pmsg (e_ph e') ` set (cur_list (cur_of io conn) @ ds @ [h_brk ph]) = insert msg (pmsg ph ` set (cur_list (cur_of io conn) @ ds))"
    unfolding ef by blast
  note cells = pushMsgData_cells[OF oe e'(1) new'(2)]
  define l' where "l' = ac_push_buffer (e_ext e')"
  have x': "e_ext e' = (lend no_clock () io1 a)\<lparr>ac_push_buffer := l'\<rparr>" "e_wire e' = co_wire ob" "e_closes e' = co_closes ob"
    using arg_cong[OF cells(3), of e_ext] arg_cong[OF cells(3), of e_wire] arg_cong[OF cells(3), of e_closes] by (simp_all add: ef l'_def)
  define ob' where "ob' = \<lparr>co_conn = co_conn ob1, co_app = unlend (e_ext e'), co_wire = co_wire ob, co_closes = co_closes ob\<rparr>"
  define io' where "io' = io\<lparr>ia_conns := (ia_conns io)(conn := ob')\<rparr>"
  have lv: "snd (leave conn (co_conn ob1, e')) = (io', e_ph e', e_mh e')"
    by (simp add: leave_def x' lend_def ob'_def io'_def io1_def)
  have "push_to junk conn msg (io, ph, mh) = bindr (pushMsgData junk msg e) (\<lambda>e. Inr (snd (leave conn (co_conn ob1, e))))"
    using m(1) a(1) en by (simp add: push_to_def Let_def ob_def[symmetric] ob1_def[symmetric] io1_def[symmetric])
  then have "push_to junk conn msg (io, ph, mh) = Inr (io', e_ph e', e_mh e')" using e'(1) lv by simp
  moreover have fl: "flagged ob'" using setWrite_flagged[where ob = ob and c = "co_conn ob" and a = a] by (simp add: flagged_def ob'_def ob1_def)
  moreover have "pushed_obj ob ob'" using fl by (simp add: pushed_obj_def ob'_def ob1_def)
  moreover have "conn_out io' (e_ph e') (e_mh e') conn (ds @ [h_brk ph]) (bss @ [f])"
    using e'(2) c unfolding conn_out_def' out_inv_def Let_def by (simp add: io'_def ob'_def unlend_def)
  ultimately show ?thesis using e'(3-6) cells(1,2) unfolding ob_def[symmetric] io'_def ef by blast
qed

text \<open>Everything the thread holds: the output of each open connection, with nodes and messages of its own, and the collector.\<close>

abbreviation nodes :: "IoApp \<Rightarrow> (addr \<Rightarrow> addr list) \<Rightarrow> addr \<Rightarrow> addr set" where
  "nodes io D conn \<equiv> set (cur_list (cur_of io conn) @ D conn)"

definition owned :: "IoApp \<Rightarrow> pheap \<Rightarrow> (addr \<Rightarrow> addr list) \<Rightarrow> addr set" where
  "owned io ph D = (\<Union>conn \<in> ran (ia_online_register io). pmsg ph ` nodes io D conn)"

definition collector_holds :: "MsMessageBlockQueue option \<Rightarrow> mheap \<Rightarrow> addr list \<Rightarrow> bool" where
  "collector_holds col mh zs = (case col of None \<Rightarrow> zs = [] | Some q \<Rightarrow> bq_holds (q, mh) zs)"

definition io_holds :: "IoApp \<Rightarrow> pheap \<Rightarrow> mheap \<Rightarrow> (addr \<Rightarrow> addr list) \<Rightarrow> (addr \<Rightarrow> byte list list) \<Rightarrow> addr list \<Rightarrow> bool" where
  "io_holds io ph mh D B zs \<longleftrightarrow> (let R = ran (ia_online_register io) in heap_ok ph \<and> heap_ok mh \<and>
     (\<forall>conn \<in> R. conn_out io ph mh conn (D conn) (B conn)) \<and>
     (\<forall>a \<in> R. \<forall>b \<in> R. a \<noteq> b \<longrightarrow> nodes io D a \<inter> nodes io D b = {} \<and> pmsg ph ` nodes io D a \<inter> pmsg ph ` nodes io D b = {}) \<and>
     owned io ph D \<inter> set zs = {} \<and> collector_holds (ia_collector io) mh zs)"

declare io_holds_def [inv_defs]

lemma collector_holds_frame:
  "collector_holds col mh zs \<Longrightarrow> heap_ok mh' \<Longrightarrow> (\<And>a. a \<in> set zs \<Longrightarrow> h_cells mh' a = h_cells mh a) \<Longrightarrow> collector_holds col mh' zs"
  by (auto simp: collector_holds_def bq_holds_def seg_def intro: path_frame split: option.splits)

lemma conn_out_heaps: "conn_out io ph mh conn ds bss \<Longrightarrow> heap_ok ph" "conn_out io ph mh conn ds bss \<Longrightarrow> heap_ok mh"
  by (simp_all add: conn_out_def' pl_holds_def Let_def)

lemma conn_out_live: "conn_out io ph mh conn ds bss \<Longrightarrow> x \<in> set (cur_list (cur_of io conn) @ ds) \<Longrightarrow> live ph x"
  using seg_live[of pd_next ph _ _ ds x] by (auto simp: conn_out_def' pl_holds_def pl_spare_def cur_list_def Let_def split: if_splits)

lemma io_holdsD:
  assumes "io_holds io ph mh D B zs"
  shows "heap_ok ph" "heap_ok mh" "conn \<in> ran (ia_online_register io) \<Longrightarrow> conn_out io ph mh conn (D conn) (B conn)"
    "a \<in> ran (ia_online_register io) \<Longrightarrow> b \<in> ran (ia_online_register io) \<Longrightarrow> a \<noteq> b \<Longrightarrow> nodes io D a \<inter> nodes io D b = {}"
    "a \<in> ran (ia_online_register io) \<Longrightarrow> b \<in> ran (ia_online_register io) \<Longrightarrow> a \<noteq> b \<Longrightarrow> pmsg ph ` nodes io D a \<inter> pmsg ph ` nodes io D b = {}"
    "owned io ph D \<inter> set zs = {}" "collector_holds (ia_collector io) mh zs"
    "conn \<in> ran (ia_online_register io) \<Longrightarrow> pmsg ph ` nodes io D conn \<subseteq> owned io ph D"
  using assms unfolding io_holds_def Let_def by (blast, blast, blast, blast, blast, blast, blast) (auto simp: owned_def)

text \<open>A change of messages that no connection has in its output.\<close>

lemma io_holds_other:
  assumes h: "io_holds io ph mh D B zs" and ok: "heap_ok mh'" and same: "\<And>a. a \<in> owned io ph D \<Longrightarrow> h_cells mh' a = h_cells mh a"
    and zs: "owned io ph D \<inter> set zs' = {}" "collector_holds col mh' zs'"
  shows "io_holds (io\<lparr>ia_collector := col\<rparr>) ph mh' D B zs'"
proof -
  note d = io_holdsD[OF h]
  have "conn_out (io\<lparr>ia_collector := col\<rparr>) ph mh' conn (D conn) (B conn)" if r: "conn \<in> ran (ia_online_register io)" for conn
    using d(8)[OF r] same by (intro conn_out_frame[OF d(3)[OF r] _ _ d(1) ok]) auto
  then show ?thesis using d(1,4,5) ok zs unfolding io_holds_def Let_def owned_def by simp
qed

definition delivered :: "addr option \<Rightarrow> byte list \<Rightarrow> (addr \<Rightarrow> byte list list) \<Rightarrow> addr \<Rightarrow> byte list list" where
  "delivered to f B = (case to of None \<Rightarrow> B | Some conn \<Rightarrow> B(conn := B conn @ [f]))"

definition kept :: "'c option \<Rightarrow> addr option \<Rightarrow> addr \<Rightarrow> addr list" where
  "kept col to msg = (if to = None \<and> col \<noteq> None then [msg] else [])"

definition pushed_io :: "IoApp \<Rightarrow> IoApp \<Rightarrow> bool" where
  "pushed_io io io' \<longleftrightarrow> (\<exists>conns col. io' = io\<lparr>ia_conns := conns, ia_collector := col\<rparr> \<and> (\<forall>conn. pushed_obj (ia_conns io conn) (conns conn)) \<and>
     (col = None \<longleftrightarrow> ia_collector io = None))"

lemma pushed_ioI: "io' = io\<lparr>ia_conns := conns, ia_collector := col\<rparr> \<Longrightarrow> (\<And>conn. pushed_obj (ia_conns io conn) (conns conn)) \<Longrightarrow>
    (col = None \<longleftrightarrow> ia_collector io = None) \<Longrightarrow> pushed_io io io'"
  unfolding pushed_io_def by (rule exI[of _ conns], rule exI[of _ col]) simp

lemma pushed_ioE:
  assumes "pushed_io io io'"
  obtains conns col where "io' = io\<lparr>ia_conns := conns, ia_collector := col\<rparr>" "\<forall>conn. pushed_obj (ia_conns io conn) (conns conn)"
    "col = None \<longleftrightarrow> ia_collector io = None"
  using assms unfolding pushed_io_def by (elim exE conjE) (rule that)

lemma pushed_io_refl [simp]: "pushed_io io io"
  by (rule pushed_ioI[where conns = "ia_conns io" and col = "ia_collector io"]) simp_all

lemma pushed_io_trans:
  assumes "pushed_io a b" "pushed_io b c"
  shows "pushed_io a c"
proof -
  from assms(1) obtain k1 l1 where b: "b = a\<lparr>ia_conns := k1, ia_collector := l1\<rparr>" "\<forall>conn. pushed_obj (ia_conns a conn) (k1 conn)" "l1 = None \<longleftrightarrow> ia_collector a = None"
    by (rule pushed_ioE)
  from assms(2) obtain k2 l2 where c: "c = b\<lparr>ia_conns := k2, ia_collector := l2\<rparr>" "\<forall>conn. pushed_obj (ia_conns b conn) (k2 conn)" "l2 = None \<longleftrightarrow> ia_collector b = None"
    by (rule pushed_ioE)
  show ?thesis
  proof (rule pushed_ioI)
    show "c = a\<lparr>ia_conns := k2, ia_collector := l2\<rparr>" unfolding c(1) b(1) by simp
    have f: "ia_conns b = k1" "ia_collector b = l1" unfolding b(1) by simp_all
    show "pushed_obj (ia_conns a conn) (k2 conn)" for conn using b(2) c(2) unfolding f by (blast intro: pushed_obj_trans)
    show "(l2 = None) = (ia_collector a = None)" using b(3) c(3) unfolding f by simp
  qed
qed

lemma pushed_io_reg: "pushed_io io io' \<Longrightarrow> ia_online_register io' = ia_online_register io"
  by (auto simp: pushed_io_def)

lemma pushed_io_obj: "pushed_io io io' \<Longrightarrow> pushed_obj (ia_conns io conn) (ia_conns io' conn)"
  by (auto simp: pushed_io_def)

lemma push_online_ok:
  assumes h: "io_holds io ph mh D B zs" and r: "conn \<in> ran (ia_online_register io)" and m: "hget mh msg = Inr m" "pushable m" and f: "msg_frame mh msg f"
    and new: "msg \<notin> owned io ph D \<union> set zs" and room: "h_brk ph < h_lim ph"
  shows "\<exists>io' ph' mh' D'. push_to junk conn msg (io, ph, mh) = Inr (io', ph', mh') \<and> io_holds io' ph' mh' D' (B(conn := B conn @ [f])) zs \<and> pushed_io io io' \<and>
    flagged (ia_conns io' conn) \<and> owned io' ph' D' \<subseteq> insert msg (owned io ph D) \<and> h_brk ph' \<le> Suc (h_brk ph) \<and> h_lim ph' = h_lim ph \<and>
    (\<forall>a. a \<noteq> msg \<longrightarrow> a \<notin> owned io ph D \<longrightarrow> h_cells mh' a = h_cells mh a)"
proof -
  note d = io_holdsD[OF h]
  let ?R = "ran (ia_online_register io)" and ?d = "h_brk ph"
  have "msg \<notin> pmsg ph ` nodes io D conn" using d(8)[OF r] new by (meson UnI1 subsetD)
  from push_to_ok[OF d(3)[OF r] m f this room, of junk] obtain ob' ph' mh' where p:
    "push_to junk conn msg (io, ph, mh) = Inr (io\<lparr>ia_conns := (ia_conns io)(conn := ob')\<rparr>, ph', mh')" "pushed_obj (ia_conns io conn) ob'"
    "conn_out (io\<lparr>ia_conns := (ia_conns io)(conn := ob')\<rparr>) ph' mh' conn (D conn @ [?d]) (B conn @ [f])"
    "h_brk ph' = Suc ?d" "h_lim ph' = h_lim ph"
    "pmsg ph' ` set (cur_list (cur_of io conn) @ D conn @ [?d]) = insert msg (pmsg ph ` nodes io D conn)"
    "\<And>a. a \<noteq> ?d \<Longrightarrow> a \<notin> set (D conn) \<Longrightarrow> h_cells ph' a = h_cells ph a"
    "\<And>b. b \<noteq> msg \<Longrightarrow> b \<notin> pmsg ph ` set (D conn) \<Longrightarrow> h_cells mh' b = h_cells mh b" "flagged ob'" by blast
  define io' where "io' = io\<lparr>ia_conns := (ia_conns io)(conn := ob')\<rparr>"
  define D' where "D' = D(conn := D conn @ [?d])"
  have cur: "cur_of io' c = cur_of io c" for c using p(2) by (auto simp: io'_def pushed_obj_def)
  have ok: "heap_ok ph'" "heap_ok mh'" using conn_out_heaps[OF p(3)] by auto
  have nd: "?d \<notin> nodes io D c" if "c \<in> ?R" for c using conn_out_live[OF d(3)[OF that]] brk_fresh[OF d(1)] by blast
  have no: "nodes io' D' c = nodes io D c" if "c \<noteq> conn" for c using that by (simp add: cur D'_def)
  have nc: "nodes io' D' conn = insert ?d (nodes io D conn)" by (auto simp: cur D'_def)
  have po: "h_cells ph' x = h_cells ph x" if "c \<in> ?R" "c \<noteq> conn" "x \<in> nodes io D c" for c x
    using d(4)[OF that(1) r that(2)] nd[OF that(1)] that(3) by (intro p(7)) auto
  have mo: "h_cells mh' (pmsg ph x) = h_cells mh (pmsg ph x)" if "c \<in> ?R" "c \<noteq> conn" "x \<in> nodes io D c" for c x
  proof (rule p(8))
    have "pmsg ph x \<in> pmsg ph ` nodes io D c" using that(3) by (rule imageI)
    then show "pmsg ph x \<noteq> msg" "pmsg ph x \<notin> pmsg ph ` set (D conn)" using d(8)[OF that(1)] new d(5)[OF that(1) r that(2)] by auto
  qed
  have im: "pmsg ph' ` nodes io' D' c = pmsg ph ` nodes io D c" if "c \<in> ?R" "c \<noteq> conn" for c
    unfolding no[OF that(2)] using po[OF that] by (intro image_cong refl msg_at_frame) auto
  have ic: "pmsg ph' ` nodes io' D' conn = insert msg (pmsg ph ` nodes io D conn)" using p(6) by (simp add: cur D'_def)
  have R: "ran (ia_online_register io') = ?R" by (simp add: io'_def)
  have outs: "conn_out io' ph' mh' c (D' c) ((B(conn := B conn @ [f])) c)" if "c \<in> ?R" for c
  proof (cases "c = conn")
    case True
    then show ?thesis using p(3) by (simp add: io'_def D'_def)
  next
    case False
    have "conn_out io' ph' mh' c (D c) (B c)"
      using po[OF that False] mo[OF that False] False by (intro conn_out_frame[OF d(3)[OF that] cur _ ok]) (simp_all add: io'_def)
    then show ?thesis using False by (simp add: D'_def)
  qed
  have nds: "nodes io' D' a \<inter> nodes io' D' b = {}" if "a \<in> ?R" "b \<in> ?R" "a \<noteq> b" for a b
    using d(4)[OF that] nd[OF that(1)] nd[OF that(2)] nc no[of a] no[of b] that(3) by (cases "a = conn"; cases "b = conn") auto
  have mm: "msg \<notin> pmsg ph ` nodes io D c" if "c \<in> ?R" for c using d(8)[OF that] new by blast
  have mds: "pmsg ph' ` nodes io' D' a \<inter> pmsg ph' ` nodes io' D' b = {}" if "a \<in> ?R" "b \<in> ?R" "a \<noteq> b" for a b
  proof (cases "a = conn")
    case True
    then have "b \<noteq> conn" using that(3) by simp
    then show ?thesis using True d(5)[OF that] mm[OF that(2)] im[OF that(2)] ic by simp
  next
    case False
    then show ?thesis using d(5)[OF that] mm[OF that(1)] im[OF that(1)] im[OF that(2)] ic by (cases "b = conn") simp_all
  qed
  have own: "owned io' ph' D' = insert msg (owned io ph D)"
  proof -
    have "owned io' ph' D' = (\<Union>c \<in> ?R. pmsg ph' ` nodes io' D' c)" by (simp only: owned_def R)
    also have "\<dots> = (\<Union>c \<in> ?R. if c = conn then insert msg (pmsg ph ` nodes io D c) else pmsg ph ` nodes io D c)" using im ic by (intro SUP_cong refl) auto
    also have "\<dots> = insert msg (owned io ph D)" using r by (auto simp: owned_def split: if_splits)
    finally show ?thesis .
  qed
  have oc: "h_cells mh' a = h_cells mh a" if "a \<noteq> msg" "a \<notin> owned io ph D" for a using that d(8)[OF r] by (intro p(8)) auto
  have zc: "h_cells mh' a = h_cells mh a" if "a \<in> set zs" for a
  proof (rule oc)
    show "a \<noteq> msg" "a \<notin> owned io ph D" using that new d(6) by (blast, blast)
  qed
  have col: "collector_holds (ia_collector io') mh' zs" using collector_holds_frame[OF d(7) ok(2) zc] by (simp add: io'_def)
  have "owned io' ph' D' \<inter> set zs = {}" unfolding own using d(6) new by auto
  then have "io_holds io' ph' mh' D' (B(conn := B conn @ [f])) zs" unfolding io_holds_def Let_def R using ok outs nds mds col by blast
  moreover have "pushed_io io io'" using p(2) by (intro pushed_ioI[where conns = "(ia_conns io)(conn := ob')" and col = "ia_collector io"]) (simp_all add: io'_def)
  ultimately show ?thesis using p(1,4,5,9) own oc unfolding io'_def by (intro exI[of _ "io\<lparr>ia_conns := (ia_conns io)(conn := ob')\<rparr>"] exI[of _ ph'] exI[of _ mh'] exI[of _ D']) simp
qed

lemma pushMessage_ok:
  assumes h: "io_holds io ph mh D B zs" and m: "hget mh msg = Inr m" "pushable m" and f: "msg_frame mh msg f"
    and new: "msg \<notin> owned io ph D \<union> set zs" and room: "h_brk ph < h_lim ph" and to: "ia_online_register io (m_conn m) = to"
  shows "\<exists>io' ph' mh' D'. pushMessage junk msg (io, ph, mh) = Inr (io', ph', mh') \<and>
    io_holds io' ph' mh' D' (delivered to f B) (zs @ kept (ia_collector io) to msg) \<and> pushed_io io io' \<and>
    (\<forall>conn. to = Some conn \<longrightarrow> flagged (ia_conns io' conn)) \<and> owned io' ph' D' \<union> set (zs @ kept (ia_collector io) to msg) \<subseteq> insert msg (owned io ph D \<union> set zs) \<and> h_brk ph' \<le> Suc (h_brk ph) \<and> h_lim ph' = h_lim ph \<and>
    (\<forall>a. a \<noteq> msg \<longrightarrow> a \<notin> owned io ph D \<union> set zs \<longrightarrow> h_cells mh' a = h_cells mh a)"
proof (cases to)
  case (Some conn)
  then have r: "conn \<in> ran (ia_online_register io)" using to by (auto simp: ran_def)
  have k: "kept (ia_collector io) to msg = []" "delivered to f B = B(conn := B conn @ [f])" using Some by (simp_all add: kept_def delivered_def)
  from push_online_ok[OF h r m f new room, of junk] obtain io' ph' mh' D' where p:
    "push_to junk conn msg (io, ph, mh) = Inr (io', ph', mh')" "io_holds io' ph' mh' D' (B(conn := B conn @ [f])) zs" "pushed_io io io'"
    "owned io' ph' D' \<subseteq> insert msg (owned io ph D)" "h_brk ph' \<le> Suc (h_brk ph)" "h_lim ph' = h_lim ph"
    "\<forall>a. a \<noteq> msg \<longrightarrow> a \<notin> owned io ph D \<longrightarrow> h_cells mh' a = h_cells mh a" "flagged (ia_conns io' conn)" by blast
  have "pushMessage junk msg (io, ph, mh) = Inr (io', ph', mh')" using p(1) m(1) to Some by (simp add: pushMessage_def cr_get_def)
  moreover have "owned io' ph' D' \<union> set zs \<subseteq> insert msg (owned io ph D \<union> set zs)" using p(4) by auto
  ultimately show ?thesis unfolding k append_Nil2 using p(2,3,5-8) Some
    by (intro exI[of _ io'] exI[of _ ph'] exI[of _ mh'] exI[of _ D'] conjI) auto
next
  case None
  note d = io_holdsD[OF h]
  have dl: "delivered to f B = B" using None by (simp add: delivered_def)
  show ?thesis
  proof (cases "ia_collector io")
    case (Some q)
    have k: "kept (ia_collector io) to msg = [msg]" using None Some by (simp add: kept_def)
    have "bq_holds (q, mh) zs" using d(7) Some by (simp add: collector_holds_def)
    from bq_put_ok[OF this, of msg] m(1) new obtain q' mh' where q: "bq_put msg (q, mh) = Inr (q', mh')" "bq_holds (q', mh') (zs @ [msg])"
      "\<And>a. a \<notin> set (zs @ [msg]) \<Longrightarrow> h_cells mh' a = h_cells mh a" by (auto simp: live_iff_hget)
    have same: "h_cells mh' a = h_cells mh a" if "a \<in> owned io ph D" for a using that d(6) new by (intro q(3)) auto
    have "io_holds (io\<lparr>ia_collector := Some q'\<rparr>) ph mh' D B (zs @ [msg])"
    proof (rule io_holds_other[OF h _ same])
      show "heap_ok mh'" using q(2) by (simp add: bq_holds_def)
      show "owned io ph D \<inter> set (zs @ [msg]) = {}" using d(6) new by auto
      show "collector_holds (Some q') mh' (zs @ [msg])" using q(2) by (simp add: collector_holds_def)
    qed
    moreover have "pushMessage junk msg (io, ph, mh) = Inr (io\<lparr>ia_collector := Some q'\<rparr>, ph, mh')"
      using q(1) m(1) to None Some by (simp add: pushMessage_def cr_get_def collector_collect_def)
    moreover have "pushed_io io (io\<lparr>ia_collector := Some q'\<rparr>)" using Some by (intro pushed_ioI[where conns = "ia_conns io" and col = "Some q'"]) simp_all
    moreover have "owned (io\<lparr>ia_collector := Some q'\<rparr>) ph D = owned io ph D" by (simp add: owned_def)
    ultimately show ?thesis unfolding k dl using q(3) None
      by (intro exI[of _ "io\<lparr>ia_collector := Some q'\<rparr>"] exI[of _ ph] exI[of _ mh'] exI[of _ D] conjI) auto
  next
    case nc: None
    have k: "kept (ia_collector io) to msg = []" using nc by (simp add: kept_def)
    have z: "zs = []" using d(7) nc by (simp add: collector_holds_def)
    define mh' where "mh' = freed mh {msg}"
    have "releaseIMessage msg mh = Inr mh'" unfolding releaseIMessage_def mh'_def using m(1) by (intro hfree_freed) (auto simp: live_iff_hget)
    then have "pushMessage junk msg (io, ph, mh) = Inr (io, ph, mh')" using m(1) to None nc by (simp add: pushMessage_def cr_get_def)
    moreover have "io_holds (io\<lparr>ia_collector := None\<rparr>) ph mh' D B zs"
    proof (rule io_holds_other[OF h])
      show "heap_ok mh'" using d(2) by (simp add: mh'_def)
      show "h_cells mh' a = h_cells mh a" if "a \<in> owned io ph D" for a using that new by (auto simp: mh'_def)
      show "owned io ph D \<inter> set zs = {}" by (rule d(6))
      show "collector_holds None mh' zs" using z by (simp add: collector_holds_def)
    qed
    moreover have "io\<lparr>ia_collector := None\<rparr> = io" using nc by simp
    ultimately show ?thesis unfolding k dl append_Nil2 using None
      by (intro exI[of _ io] exI[of _ ph] exI[of _ mh'] exI[of _ D] conjI) (auto simp: mh'_def)
  qed
qed

section \<open>Pushing a list\<close>

text \<open>A message that waits to be pushed: the id of its connection and its frame.\<close>

definition ready :: "mheap \<Rightarrow> (addr \<Rightarrow> 64 word) \<Rightarrow> (addr \<Rightarrow> byte list) \<Rightarrow> addr \<Rightarrow> bool" where
  "ready mh key fr x \<longleftrightarrow> (\<exists>m. hget mh x = Inr m \<and> pushable m \<and> m_conn m = key x \<and> load_frame m = Inr (fr x) \<and> fr x \<noteq> [] \<and> \<not> m_close_conn m)"

lemma ready_frame: "h_cells mh' x = h_cells mh x \<Longrightarrow> ready mh key fr x \<Longrightarrow> ready mh' key fr x"
  by (simp add: ready_def hget_Inr)

lemma set_next_same_msg [simp]: "pushable (set_next v m) = pushable m" "m_conn (set_next v m) = m_conn m" "load_frame (set_next v m) = load_frame m"
  "m_close_conn (set_next v m) = m_close_conn m"
  by (simp_all add: set_next_def pushable_def load_frame_def)

lemma delivered_apply: "delivered to f B conn = B conn @ (if to = Some conn then [f] else [])"
  by (simp add: delivered_def split: option.splits)

lemma push_loop_ok:
  assumes "io_holds io ph mh D B zs" "mpath mh lst xs 0" "\<And>x. x \<in> set xs \<Longrightarrow> ready mh key fr x" "set xs \<inter> (owned io ph D \<union> set zs) = {}"
    "h_brk ph + length xs \<le> h_lim ph" "length xs \<le> k"
  shows "\<exists>io' ph' mh' D'. push_loop k junk n lst (io, ph, mh) = Inr (n + length xs, io', ph', mh') \<and> pushed_io io io' \<and>
    (\<forall>conn. (\<exists>x \<in> set xs. ia_online_register io (key x) = Some conn) \<longrightarrow> flagged (ia_conns io' conn)) \<and>
    io_holds io' ph' mh' D' (\<lambda>conn. B conn @ map fr (filter (\<lambda>x. ia_online_register io (key x) = Some conn) xs))
      (zs @ (if ia_collector io = None then [] else filter (\<lambda>x. ia_online_register io (key x) = None) xs))"
  using assms
proof (induction xs arbitrary: io ph mh D B zs lst k n)
  case Nil
  then have z: "lst = 0" by simp
  have "push_loop k junk n lst (io, ph, mh) = Inr (n, io, ph, mh)" unfolding z by (cases k) simp_all
  then show ?case using Nil.prems(1) by (intro exI[of _ io] exI[of _ ph] exI[of _ mh] exI[of _ D]) simp
next
  case (Cons x xs)
  then obtain k' where k: "k = Suc k'" by (cases k) auto
  note h = Cons.prems(1) and d = io_holdsD[OF Cons.prems(1)]
  obtain m where m: "hget mh x = Inr m" "pushable m" "m_conn m = key x" "load_frame m = Inr (fr x)" "fr x \<noteq> []" "\<not> m_close_conn m"
    using Cons.prems(3)[of x] by (auto simp: ready_def)
  have p: "lst = x" "x \<noteq> 0" "mpath mh (m_next m) xs 0" using Cons.prems(2) m(1) by (auto simp: hget_Inr)
  have nx: "x \<notin> set xs" using path_distinct[OF Cons.prems(2)] by simp
  have out: "x \<notin> owned io ph D" "x \<notin> set zs" using Cons.prems(4) by auto
  define mh1 where "mh1 = hset mh x (set_next 0 m)"
  have ok1: "heap_ok mh1" unfolding mh1_def using d(2) m(1) by (intro heap_ok_hset) (auto simp: live_iff_hget)
  have c1: "h_cells mh1 a = h_cells mh a" if "a \<noteq> x" for a using that by (simp add: mh1_def)
  have "io_holds (io\<lparr>ia_collector := ia_collector io\<rparr>) ph mh1 D B zs"
  proof (rule io_holds_other[OF h ok1 _ d(6)])
    show "h_cells mh1 a = h_cells mh a" if "a \<in> owned io ph D" for a using that out by (intro c1) auto
    show "collector_holds (ia_collector io) mh1 zs" using out by (intro collector_holds_frame[OF d(7) ok1] c1) auto
  qed
  then have h1: "io_holds io ph mh1 D B zs" by simp
  have g1: "hget mh1 x = Inr (set_next 0 m)" using p(2) by (simp add: mh1_def hget_hset)
  have f1: "msg_frame mh1 x (fr x)" using g1 m by (simp add: msg_frame_def)
  have n1: "x \<notin> owned io ph D \<union> set zs" "h_brk ph < h_lim ph" using out Cons.prems(5) by auto
  define to where "to = ia_online_register io (key x)"
  have t1: "ia_online_register io (m_conn (set_next 0 m)) = to" using m(3) by (simp add: to_def)
  define zs1 where "zs1 = zs @ kept (ia_collector io) to x"
  from pushMessage_ok[OF h1 g1 _ f1 n1 t1, of junk] m(2) obtain io1 ph1 mh2 D1 where q:
    "pushMessage junk x (io, ph, mh1) = Inr (io1, ph1, mh2)" "io_holds io1 ph1 mh2 D1 (delivered to (fr x) B) zs1" "pushed_io io io1"
    "owned io1 ph1 D1 \<union> set zs1 \<subseteq> insert x (owned io ph D \<union> set zs)" "h_brk ph1 \<le> Suc (h_brk ph)" "h_lim ph1 = h_lim ph"
    "\<And>a. a \<noteq> x \<Longrightarrow> a \<notin> owned io ph D \<union> set zs \<Longrightarrow> h_cells mh2 a = h_cells mh1 a" "\<And>conn. to = Some conn \<Longrightarrow> flagged (ia_conns io1 conn)"
    unfolding zs1_def by auto
  have cx: "h_cells mh2 a = h_cells mh a" if "a \<in> set xs" for a
  proof -
    have "a \<noteq> x" "a \<notin> owned io ph D \<union> set zs" using that nx Cons.prems(4) by auto
    then show ?thesis using q(7) c1 by simp
  qed
  have p2: "mpath mh2 (m_next m) xs 0" by (rule path_frame[OF p(3)]) (rule cx)
  have r2: "ready mh2 key fr y" if "y \<in> set xs" for y using ready_frame[OF cx[OF that]] Cons.prems(3) that by simp
  have s2: "set xs \<inter> (owned io1 ph1 D1 \<union> set zs1) = {}" using q(4) nx Cons.prems(4) by auto
  have l2: "h_brk ph1 + length xs \<le> h_lim ph1" "length xs \<le> k'" using q(5,6) Cons.prems(5,6) k by auto
  have reg: "ia_online_register io1 = ia_online_register io" by (rule pushed_io_reg[OF q(3)])
  have col: "ia_collector io1 = None \<longleftrightarrow> ia_collector io = None" using q(3) by (rule pushed_ioE) simp
  from Cons.IH[OF q(2) p2 r2 s2 l2, of "Suc n"] obtain io' ph' mh' D' where r:
    "push_loop k' junk (Suc n) (m_next m) (io1, ph1, mh2) = Inr (Suc n + length xs, io', ph', mh')" "pushed_io io1 io'"
    "io_holds io' ph' mh' D' (\<lambda>conn. delivered to (fr x) B conn @ map fr (filter (\<lambda>x. ia_online_register io (key x) = Some conn) xs))
      (zs1 @ (if ia_collector io = None then [] else filter (\<lambda>x. ia_online_register io (key x) = None) xs))"
    "\<And>conn. (\<exists>x \<in> set xs. ia_online_register io (key x) = Some conn) \<Longrightarrow> flagged (ia_conns io' conn)" unfolding reg col by blast
  have fl: "flagged (ia_conns io' conn)" if "\<exists>y \<in> set (x # xs). ia_online_register io (key y) = Some conn" for conn
  proof (cases "to = Some conn")
    case True
    then show ?thesis using q(8) pushed_io_obj[OF r(2), of conn] by (simp add: pushed_obj_def)
  next
    case False
    then show ?thesis using that r(4)[of conn] by (auto simp: to_def)
  qed
  have "push_loop k junk n lst (io, ph, mh) = Inr (n + length (x # xs), io', ph', mh')"
    using k p(1,2) m(1) q(1) r(1) by (simp add: mh1_def)
  moreover have "(\<lambda>conn. delivered to (fr x) B conn @ map fr (filter (\<lambda>x. ia_online_register io (key x) = Some conn) xs)) =
      (\<lambda>conn. B conn @ map fr (filter (\<lambda>x. ia_online_register io (key x) = Some conn) (x # xs)))" by (rule ext) (simp add: delivered_apply to_def)
  moreover have "zs1 @ (if ia_collector io = None then [] else filter (\<lambda>x. ia_online_register io (key x) = None) xs) =
      zs @ (if ia_collector io = None then [] else filter (\<lambda>x. ia_online_register io (key x) = None) (x # xs))" by (simp add: zs1_def kept_def to_def)
  ultimately show ?case using r(3) fl pushed_io_trans[OF q(3) r(2)] by (intro exI[of _ io'] exI[of _ ph'] exI[of _ mh'] exI[of _ D']) simp
qed

text \<open>A turn of the push side. Neither the queue nor the notifications are part of what the connections hold.\<close>

lemma io_holds_queue: "io_holds (io\<lparr>ia_msg_queue := q\<rparr>) ph mh D B zs = io_holds io ph mh D B zs"
  "io_holds (io\<lparr>ia_push_notify := n\<rparr>) ph mh D B zs = io_holds io ph mh D B zs"
  by (simp_all add: io_holds_def conn_out_def' owned_def Let_def)

lemma owned_queue [simp]: "owned (io\<lparr>ia_msg_queue := q\<rparr>) ph D = owned io ph D" "owned (io\<lparr>ia_push_notify := n\<rparr>) ph D = owned io ph D"
  by (simp_all add: owned_def)

lemma push_ok:
  assumes "io_holds io ph mh D B zs" "mq_holds (ia_msg_queue io, mh) xs" "\<And>x. x \<in> set xs \<Longrightarrow> ready mh key fr x"
    "set xs \<inter> (owned io ph D \<union> set zs) = {}" "h_brk ph + length xs \<le> h_lim ph"
  shows "\<exists>io' ph' mh' D'. push junk (io, ph, mh) = Inr (io', ph', mh') \<and> ia_online_register io' = ia_online_register io \<and>
    (\<forall>conn. pushed_obj (ia_conns io conn) (ia_conns io' conn)) \<and> mq_holds (ia_msg_queue io', mh') [] \<and>
    (\<forall>conn. (\<exists>x \<in> set xs. ia_online_register io (key x) = Some conn) \<longrightarrow> flagged (ia_conns io' conn)) \<and>
    io_holds io' ph' mh' D' (\<lambda>conn. B conn @ map fr (filter (\<lambda>x. ia_online_register io (key x) = Some conn) xs))
      (zs @ (if ia_collector io = None then [] else filter (\<lambda>x. ia_online_register io (key x) = None) xs))"
proof -
  define q where "q = (ia_msg_queue io)\<lparr>mq_head := 0, mq_tail := 0\<rparr>"
  define io0 where "io0 = io\<lparr>ia_msg_queue := q\<rparr>"
  have f: "ia_online_register io0 = ia_online_register io" "ia_collector io0 = ia_collector io" "ia_conns io0 = ia_conns io" "owned io0 ph D = owned io ph D"
    by (simp_all add: io0_def)
  have ok: "heap_ok mh" and p: "mpath mh (mq_head (ia_msg_queue io)) xs 0" using assms(2) by (simp_all add: mq_holds_def seg_def)
  have len: "length xs \<le> h_brk mh" using path_length[OF ok p] by simp
  have h0: "io_holds io0 ph mh D B zs" unfolding io0_def io_holds_queue by (rule assms(1))
  have d0: "set xs \<inter> (owned io0 ph D \<union> set zs) = {}" unfolding f by (rule assms(4))
  from push_loop_ok[OF h0 p assms(3) d0 assms(5) len, of junk 0] obtain io1 ph' mh' D' where l:
    "push_loop (h_brk mh) junk 0 (mq_head (ia_msg_queue io)) (io0, ph, mh) = Inr (length xs, io1, ph', mh')" "pushed_io io0 io1"
    "io_holds io1 ph' mh' D' (\<lambda>conn. B conn @ map fr (filter (\<lambda>x. ia_online_register io (key x) = Some conn) xs))
      (zs @ (if ia_collector io = None then [] else filter (\<lambda>x. ia_online_register io (key x) = None) xs))"
    "\<And>conn. (\<exists>x \<in> set xs. ia_online_register io (key x) = Some conn) \<Longrightarrow> flagged (ia_conns io1 conn)" unfolding f by auto
  define io' where "io' = io1\<lparr>ia_push_notify := notify_read (length xs) (ia_push_notify io1)\<rparr>"
  have "push junk (io, ph, mh) = Inr (io', ph', mh')"
    using l(1) by (simp add: push_def mq_get_def q_def[symmetric] io0_def[symmetric] io'_def)
  moreover have "ia_online_register io' = ia_online_register io" using pushed_io_reg[OF l(2)] f(1) by (simp add: io'_def)
  moreover have "pushed_obj (ia_conns io conn) (ia_conns io' conn)" for conn using pushed_io_obj[OF l(2), of conn] f(3) by (simp add: io'_def)
  moreover have "flagged (ia_conns io' conn)" if "\<exists>x \<in> set xs. ia_online_register io (key x) = Some conn" for conn
    using l(4)[OF that] by (simp add: io'_def)
  moreover have "ia_msg_queue io' = q" using l(2) by (rule pushed_ioE) (simp add: io'_def io0_def)
  then have "mq_holds (ia_msg_queue io', mh') []" using io_holdsD(2)[OF l(3)] by (simp add: mq_holds_def seg_def tail_of_def q_def)
  moreover have "io_holds io' ph' mh' D' (\<lambda>conn. B conn @ map fr (filter (\<lambda>x. ia_online_register io (key x) = Some conn) xs))
      (zs @ (if ia_collector io = None then [] else filter (\<lambda>x. ia_online_register io (key x) = None) xs))" unfolding io'_def io_holds_queue by (rule l(3))
  ultimately show ?thesis by (intro exI[of _ io'] exI[of _ ph'] exI[of _ mh'] exI[of _ D'] conjI) simp_all
qed

text \<open>The write events of one connection then put what it holds on the wire.\<close>

lemma conn_writes_out:
  assumes "io_holds io ph mh D B zs" "conn \<in> ran (ia_online_register io)" "c_wsock_state (co_conn (ia_conns io conn)) = SOCKET_DATA_WRITE"
    "length (concat (B conn)) \<le> n" "length (concat (B conn)) \<le> length ks" "enter clk conn (q, io, ph, mh) = (c, e)"
  shows "\<exists>c' sc' e'. write_calls n so (io_vtable process conn) (c, map Sent ks, e) = Inr (c', sc', e') \<and>
    e_wire e' = co_wire (ia_conns io conn) @ concat (B conn) \<and> out_inv 0 e' [] []"
proof -
  have c: "c = co_conn (ia_conns io conn)" "e_wire e = co_wire (ia_conns io conn)" using assms(6) by (auto simp: enter_def Let_def)
  have "out_inv (c_current_push c) e (D conn) (B conn)"
    using io_holdsD(3)[OF assms(1,2)] assms(6) unfolding conn_out_def' by (auto simp: out_inv_def enter_def lend_def Let_def)
  from write_calls_drain[OF this _ assms(4,5), of so "with_thread process" "destroy_env conn"] assms(3) c show ?thesis
    by (auto simp: io_vtable_def)
qed

end
