(* ===== verification/StringAlgos.thy ===== *)
theory StringAlgos
  imports Prelude "HOL-Library.Sublist" "HOL-Library.Char_ord"
begin

text \<open>
  The string algorithms of \<open>framework/lib/string_algorithms.cpp\<close> and of \<open>thrift/pilot/string_algo.cc\<close>.

  A C string is the list of its characters before the terminating null. The two dynamic programs fill a table with a
  map from index pairs to cells that are indeterminate until they are written; \<open>Trim\<close> works in place on an
  array with a read and a write index.
\<close>

section \<open>Loops over a range\<close>

primrec loopr :: "('i \<Rightarrow> 's \<Rightarrow> 's res) \<Rightarrow> 'i list \<Rightarrow> 's \<Rightarrow> 's res" where
  "loopr f [] s = Inr s"
| "loopr f (i # is) s = bindr (f i s) (loopr f is)"

lemma loopr_append: "loopr f (is @ js) s = bindr (loopr f is s) (loopr f js)"
proof (induction "is" arbitrary: s)
  case (Cons i "is")
  then show ?case by (cases "f i s") simp_all
qed simp

lemma loopr_pure: "loopr (\<lambda>i s. Inr (g i s)) is s = Inr (fold g is s)"
  by (induction "is" arbitrary: s) simp_all

section \<open>Minimum and maximum\<close>

definition Min2 :: "int \<Rightarrow> int \<Rightarrow> int" where
  "Min2 a b = (if b < a then b else a)"

definition Min3 :: "int \<Rightarrow> int \<Rightarrow> int \<Rightarrow> int" where
  "Min3 a b c = (let t = Min2 a b in if c < t then c else t)"

definition Max2 :: "int \<Rightarrow> int \<Rightarrow> int" where
  "Max2 a b = (if b < a then a else b)"

lemma Min2_min [simp]: "Min2 a b = min a b" and Min3_min [simp]: "Min3 a b c = min (min a b) c" and Max2_max [simp]: "Max2 a b = max a b"
  by (auto simp: Min2_def Min3_def Max2_def Let_def min_def max_def)

section \<open>Tables\<close>

type_synonym table = "nat \<times> nat \<Rightarrow> int option"

definition cell :: "table \<Rightarrow> nat \<Rightarrow> nat \<Rightarrow> int res" where
  "cell m i j = init_of (m (i, j))"

definition fill_row :: "nat \<Rightarrow> (nat \<Rightarrow> nat \<Rightarrow> table \<Rightarrow> table res) \<Rightarrow> nat \<Rightarrow> table \<Rightarrow> table res" where
  "fill_row k step i = loopr (step i) [1..<k + 1]"

definition fill :: "nat \<Rightarrow> nat \<Rightarrow> (nat \<Rightarrow> int) \<Rightarrow> (nat \<Rightarrow> nat \<Rightarrow> table \<Rightarrow> table res) \<Rightarrow> int res" where
  "fill n k edge step =
     bindr (loopr (\<lambda>i m. Inr (m((i, 0) \<mapsto> edge i))) [0..<n + 1] Map.empty) (\<lambda>m.
     bindr (loopr (\<lambda>j m. Inr (m((0, j) \<mapsto> edge j))) [0..<k + 1] m) (\<lambda>m.
     bindr (loopr (fill_row k step) [1..<n + 1] m) (\<lambda>m. cell m n k)))"

section \<open>Edit distance\<close>

definition ed_step :: "'a list \<Rightarrow> 'a list \<Rightarrow> nat \<Rightarrow> nat \<Rightarrow> table \<Rightarrow> table res" where
  "ed_step xs ys i j m = (let cost = (if xs ! (i - 1) = ys ! (j - 1) then 0 else 1) in
     bindr (cell m (i - 1) j) (\<lambda>a. bindr (cell m i (j - 1)) (\<lambda>b. bindr (cell m (i - 1) (j - 1)) (\<lambda>c.
     let v = Min3 (a + 1) (b + 1) (c + cost); m = m((i, j) \<mapsto> v) in
     if 2 < i \<and> 2 < j \<and> xs ! (i - 1) = ys ! (j - 2) \<and> xs ! (i - 2) = ys ! (j - 1)
     then bindr (cell m (i - 2) (j - 2)) (\<lambda>d. Inr (m((i, j) \<mapsto> Min2 v (d + cost))))
     else Inr m))))"

definition EditDistance :: "'a list \<Rightarrow> 'a list \<Rightarrow> int res" where
  "EditDistance xs ys = fill (length xs) (length ys) int (ed_step xs ys)"

section \<open>Longest common subsequence\<close>

definition lcs_step :: "'a list \<Rightarrow> 'a list \<Rightarrow> nat \<Rightarrow> nat \<Rightarrow> table \<Rightarrow> table res" where
  "lcs_step xs ys i j m = (if xs ! (i - 1) = ys ! (j - 1)
     then bindr (cell m (i - 1) (j - 1)) (\<lambda>c. Inr (m((i, j) \<mapsto> c + 1)))
     else bindr (cell m (i - 1) j) (\<lambda>a. bindr (cell m i (j - 1)) (\<lambda>b. Inr (m((i, j) \<mapsto> Max2 a b)))))"

definition LCSS :: "'a list \<Rightarrow> 'a list \<Rightarrow> int res" where
  "LCSS xs ys = fill (length xs) (length ys) (\<lambda>_. 0) (lcs_step xs ys)"

section \<open>Trim\<close>

definition isspace :: "char \<Rightarrow> bool" where
  "isspace c \<longleftrightarrow> c = CHR '' '' \<or> 9 \<le> (of_char c :: nat) \<and> (of_char c :: nat) \<le> 13"

abbreviation (input) NUL :: char where
  "NUL \<equiv> CHR 0x00"

primrec skip_space :: "nat \<Rightarrow> char list \<Rightarrow> nat \<Rightarrow> nat res" where
  "skip_space 0 buf p2 = Inl Out_of_bounds"
| "skip_space (Suc k) buf p2 = (if length buf \<le> p2 then Inl Out_of_bounds
     else if isspace (buf ! p2) then skip_space k buf (p2 + 1) else Inr p2)"

primrec trim_loop :: "nat \<Rightarrow> char \<Rightarrow> char list \<Rightarrow> nat \<Rightarrow> nat \<Rightarrow> nat \<Rightarrow> (char list \<times> nat) res" where
  "trim_loop 0 replace buf p1 p2 space = Inl Out_of_bounds"
| "trim_loop (Suc k) replace buf p1 p2 space =
    (if length buf \<le> p2 then Inl Out_of_bounds
     else if buf ! p2 = NUL then Inr (buf, p1)
     else if \<not> isspace (buf ! p2) then
       (let (buf, p1) = (if 0 < space then (buf[p1 := replace], p1 + 1) else (buf, p1)) in
        trim_loop k replace (buf[p1 := buf ! p2]) (p1 + 1) (p2 + 1) 0)
     else trim_loop k replace buf p1 (p2 + 1) (space + 1))"

definition Trim :: "char list \<Rightarrow> char \<Rightarrow> (char list \<times> int) res" where
  "Trim buf replace = bindr (skip_space (length buf) buf 0) (\<lambda>p2.
     bindr (trim_loop (length buf) replace buf 0 p2 0) (\<lambda>(buf, p1).
     let buf = buf[p1 := NUL] in Inr (buf, int (length (takeWhile (\<lambda>c. c \<noteq> NUL) buf)))))"

text \<open>The overloads on \<open>std::string\<close> copy the characters to an array and back.\<close>

definition TrimCopy :: "string \<Rightarrow> char \<Rightarrow> (string \<times> int) res" where
  "TrimCopy s replace = bindr (Trim (s @ [NUL]) replace) (\<lambda>(buf, n).
     let out = takeWhile (\<lambda>c. c \<noteq> NUL) buf in Inr (out, int (length out)))"

section \<open>Split\<close>

text \<open>By a character; the pointers are the rest of the string.\<close>

function Split_char :: "char \<Rightarrow> string \<Rightarrow> string list" where
  "Split_char delim p1 = (if p1 = [] then [] else
     let p2 = dropWhile (\<lambda>c. c \<noteq> delim) p1 in
     takeWhile (\<lambda>c. c \<noteq> delim) p1 # Split_char delim (if p2 = [] then p2 else tl p2))"
  by pat_completeness auto
termination
proof (relation "measure (length \<circ> snd)", goal_cases)
  case (2 delim p1 p2)
  have "length (dropWhile (\<lambda>c. c \<noteq> delim) p1) \<le> length p1" by (rule length_dropWhile_le)
  then have "length p2 \<le> length p1" using 2 by simp
  then have "length (if p2 = [] then p2 else tl p2) < length p1" using 2(1) by (cases p2) auto
  then show ?case by simp
qed simp

declare Split_char.simps [simp del]

text \<open>By a string: \<open>strncmp(r, delim, len) == 0\<close> says that the delimiter is a prefix of what is at \<open>r\<close>. The last comparison looks \<open>len\<close>
  characters back from the end of the string. With an empty delimiter no iteration makes progress.\<close>

primrec scan_delim :: "string \<Rightarrow> string \<Rightarrow> string \<times> string" where
  "scan_delim delim [] = ([], [])"
| "scan_delim delim (c # r) = (if prefix delim (c # r) then ([], c # r)
     else (case scan_delim delim r of (part, r) \<Rightarrow> (c # part, r)))"

primrec split_loop :: "nat \<Rightarrow> string \<Rightarrow> string \<Rightarrow> string list res" where
  "split_loop 0 delim l = Inl Diverge"
| "split_loop (Suc k) delim l = (if l = [] then Inr [] else case scan_delim delim l of (part, r) \<Rightarrow>
     bindr (split_loop k delim (if r \<noteq> [] then drop (length delim) r else r)) (\<lambda>results. Inr (part # results)))"

definition Split_str :: "string \<Rightarrow> string \<Rightarrow> string list res" where
  "Split_str delim str = bindr (split_loop (Suc (length str)) delim str) (\<lambda>results.
     if length str < length delim then Inl Out_of_bounds
     else Inr (if drop (length str - length delim) str = delim then results @ [[]] else results))"

section \<open>The string helpers of the thrift client\<close>

definition start_with :: "string \<Rightarrow> string \<Rightarrow> bool" where
  "start_with str start \<longleftrightarrow> take (length start) str = start"

text \<open>\<open>compare\<close> throws \<open>out_of_range\<close> when the position, an unsigned difference, is past the end.\<close>

definition end_with :: "string \<Rightarrow> string \<Rightarrow> bool res" where
  "end_with str en = (if length str < length en then Inl Abort else Inr (drop (length str - length en) str = en))"

definition to_lower_char :: "char \<Rightarrow> char" where
  "to_lower_char c = (if CHR ''A'' \<le> c \<and> c \<le> CHR ''Z'' then char_of ((of_char c :: nat) + 32) else c)"

definition to_lower :: "string \<Rightarrow> int \<Rightarrow> string res" where
  "to_lower str len = (if int (length str) < len then Inl Out_of_bounds
     else Inr (map to_lower_char (take (nat len) str) @ drop (nat len) str))"

text \<open>\<open>s.find(split, last_pos)\<close> and the piece before it, on the rest of the string.\<close>

primrec tokenize_loop :: "nat \<Rightarrow> string \<Rightarrow> string \<Rightarrow> string list res" where
  "tokenize_loop 0 split rest = Inl Diverge"
| "tokenize_loop (Suc k) split rest = (case scan_delim split rest of (t, r) \<Rightarrow>
     if r = [] \<and> split \<noteq> [] then Inr (if rest \<noteq> [] then [rest] else [])
     else bindr (tokenize_loop k split (drop (length split) r)) (\<lambda>res. Inr (if t = [] then res else t # res)))"

definition tokenize :: "string \<Rightarrow> string \<Rightarrow> string list res" where
  "tokenize s split = (if s = [] then Inr [] else tokenize_loop (Suc (length s)) split s)"

section \<open>Filling a table row by row\<close>

text \<open>All cells before row \<open>i\<close>, column \<open>j\<close> in reading order, and the two edges, have their final value.\<close>

definition filled :: "nat \<Rightarrow> nat \<Rightarrow> (nat \<Rightarrow> nat \<Rightarrow> int) \<Rightarrow> nat \<Rightarrow> nat \<Rightarrow> table \<Rightarrow> bool" where
  "filled n k spec i j m \<longleftrightarrow> (\<forall>a b. a \<le> n \<and> b \<le> k \<and> (a < i \<or> a = i \<and> b < j \<or> a = 0 \<or> b = 0) \<longrightarrow> m (a, b) = Some (spec a b))"

lemma fold_col: "fold (\<lambda>i m. m((i, 0 :: nat) \<mapsto> e i)) is m (a, b) = (if b = 0 \<and> a \<in> set is then Some (e a) else m (a, b))"
  by (induction "is" arbitrary: m) auto

lemma fold_row: "fold (\<lambda>j m. m((0 :: nat, j) \<mapsto> e j)) is m (a, b) = (if a = 0 \<and> b \<in> set is then Some (e b) else m (a, b))"
  by (induction "is" arbitrary: m) auto

lemma filled_cell:
  assumes "filled n k spec i j m" "a \<le> n" "b \<le> k" "a < i \<or> a = i \<and> b < j"
  shows "cell m a b = Inr (spec a b)"
proof -
  have "m (a, b) = Some (spec a b)" using assms unfolding filled_def by blast
  then show ?thesis by (simp add: cell_def)
qed

locale dp_table =
  fixes n k :: nat and edge :: "nat \<Rightarrow> int" and step :: "nat \<Rightarrow> nat \<Rightarrow> table \<Rightarrow> table res" and spec :: "nat \<Rightarrow> nat \<Rightarrow> int"
  assumes edges: "spec i 0 = edge i" "spec 0 j = edge j"
    and steps: "filled n k spec i j m \<Longrightarrow> 1 \<le> i \<Longrightarrow> i \<le> n \<Longrightarrow> 1 \<le> j \<Longrightarrow> j \<le> k \<Longrightarrow> step i j m = Inr (m((i, j) \<mapsto> spec i j))"
begin

lemma fill_cells: "filled n k spec i 1 m \<Longrightarrow> 1 \<le> i \<Longrightarrow> i \<le> n \<Longrightarrow> c \<le> k \<Longrightarrow>
    \<exists>m'. loopr (step i) [1..<c + 1] m = Inr m' \<and> filled n k spec i (c + 1) m'"
proof (induction c)
  case (Suc c)
  then obtain m' where m': "loopr (step i) [1..<c + 1] m = Inr m'" "filled n k spec i (c + 1) m'" by auto
  have "step i (c + 1) m' = Inr (m'((i, c + 1) \<mapsto> spec i (c + 1)))" using steps[OF m'(2)] Suc.prems by simp
  moreover have "filled n k spec i (c + 2) (m'((i, c + 1) \<mapsto> spec i (c + 1)))" using m'(2) Suc.prems by (auto simp: filled_def)
  moreover have "[1..<Suc c + 1] = [1..<c + 1] @ [c + 1]" by simp
  ultimately show ?case using m'(1) by (simp add: loopr_append del: upt_Suc)
qed simp

lemma fill_rows: "filled n k spec 1 1 m \<Longrightarrow> r \<le> n \<Longrightarrow> \<exists>m'. loopr (fill_row k step) [1..<r + 1] m = Inr m' \<and> filled n k spec (r + 1) 1 m'"
proof (induction r)
  case (Suc r)
  then obtain m' where m': "loopr (fill_row k step) [1..<r + 1] m = Inr m'" "filled n k spec (r + 1) 1 m'" by auto
  obtain m2 where m2: "fill_row k step (r + 1) m' = Inr m2" "filled n k spec (r + 1) (k + 1) m2"
    using fill_cells[OF m'(2), of k] Suc.prems by (auto simp: fill_row_def)
  have "filled n k spec (r + 2) 1 m2" unfolding filled_def
  proof (intro allI impI)
    fix a b
    assume "a \<le> n \<and> b \<le> k \<and> (a < r + 2 \<or> a = r + 2 \<and> b < 1 \<or> a = 0 \<or> b = 0)"
    then have "a \<le> n \<and> b \<le> k \<and> (a < r + 1 \<or> a = r + 1 \<and> b < k + 1 \<or> a = 0 \<or> b = 0)" by linarith
    then show "m2 (a, b) = Some (spec a b)" using m2(2) unfolding filled_def by blast
  qed
  moreover have "[1..<Suc r + 1] = [1..<r + 1] @ [r + 1]" by simp
  ultimately show ?case using m'(1) m2(1) by (simp add: loopr_append del: upt_Suc)
qed simp

lemma fill_spec: "fill n k edge step = Inr (spec n k)"
proof -
  define m1 where "m1 = fold (\<lambda>i m. m((i, 0 :: nat) \<mapsto> edge i)) [0..<n + 1] Map.empty"
  define m2 where "m2 = fold (\<lambda>j m. m((0 :: nat, j) \<mapsto> edge j)) [0..<k + 1] m1"
  have "filled n k spec 1 1 m2" by (auto simp: filled_def m1_def m2_def fold_col fold_row edges simp del: upt_Suc)
  from fill_rows[OF this, of n] obtain m' where "loopr (fill_row k step) [1..<n + 1] m2 = Inr m'" "filled n k spec (n + 1) 1 m'" by auto
  moreover have "m' (n, k) = Some (spec n k)" using calculation(2) by (auto simp: filled_def)
  ultimately show ?thesis unfolding fill_def loopr_pure m1_def[symmetric] bindr.simps m2_def[symmetric] by (simp add: cell_def)
qed

end

section \<open>Edit distance\<close>

text \<open>The distance of two prefixes as a recursion. Swapping two neighbours is an operation where the guard \<open>g\<close> admits it.\<close>

fun ed :: "(nat \<Rightarrow> nat \<Rightarrow> bool) \<Rightarrow> 'a list \<Rightarrow> 'a list \<Rightarrow> nat \<Rightarrow> nat \<Rightarrow> int" where
  "ed g xs ys 0 j = int j"
| "ed g xs ys (Suc i) 0 = int (Suc i)"
| "ed g xs ys (Suc i) (Suc j) = (let cost = (if xs ! i = ys ! j then 0 else 1);
     v = min (min (ed g xs ys i (Suc j) + 1) (ed g xs ys (Suc i) j + 1)) (ed g xs ys i j + cost) in
     if g (Suc i) (Suc j) \<and> 1 \<le> i \<and> 1 \<le> j \<and> xs ! i = ys ! (j - 1) \<and> xs ! (i - 1) = ys ! j
     then min v (ed g xs ys (i - 1) (j - 1) + cost) else v)"

text \<open>The distance with swaps everywhere, which is what the header describes, and without any.\<close>

abbreviation damerau :: "'a list \<Rightarrow> 'a list \<Rightarrow> int" where
  "damerau xs ys \<equiv> ed (\<lambda>i j. True) xs ys (length xs) (length ys)"

abbreviation levenshtein :: "'a list \<Rightarrow> 'a list \<Rightarrow> int" where
  "levenshtein xs ys \<equiv> ed (\<lambda>i j. False) xs ys (length xs) (length ys)"

lemma ed_nonneg: "0 \<le> ed g xs ys i j"
  by (induction g xs ys i j rule: ed.induct) (auto simp: Let_def)

lemma ed_col0: "ed g xs ys i 0 = int i"
  by (cases i) simp_all

declare ed.simps(3) [simp del]

lemma min_zero:
  fixes a b c d k :: int
  assumes "0 \<le> a" "0 \<le> b" "0 \<le> c" "0 \<le> d" "0 \<le> k"
  shows "(if t then min (min (min (a + 1) (b + 1)) (c + k)) (d + k) else min (min (a + 1) (b + 1)) (c + k)) = 0 \<longleftrightarrow>
    k = 0 \<and> (c = 0 \<or> t \<and> d = 0)"
proof -
  have m: "min x y = 0 \<longleftrightarrow> x = 0 \<or> y = 0" if "0 \<le> x" "0 \<le> y" for x y :: int using that by (auto simp: min_def)
  show ?thesis using assms by (cases t) (auto simp: m add_nonneg_eq_0_iff)
qed

lemma if_min_mono: "(t \<Longrightarrow> t') \<Longrightarrow> v \<le> v' \<Longrightarrow> d \<le> d' \<Longrightarrow> (if t' then min v d else v) \<le> (if t then min v' d' else v')" for v v' d d' :: int
  by (auto simp: min_def)

lemma ed_mono:
  assumes g: "\<And>a b. g a b \<Longrightarrow> g' a b"
  shows "ed g' xs ys i j \<le> ed g xs ys i j"
proof (induction "i + j" arbitrary: i j rule: less_induct)
  case less
  show ?case
  proof (cases i)
    case (Suc i')
    show ?thesis
    proof (cases j)
      case s: (Suc j')
      have IH: "ed g' xs ys i' (Suc j') \<le> ed g xs ys i' (Suc j')" "ed g' xs ys (Suc i') j' \<le> ed g xs ys (Suc i') j'"
        "ed g' xs ys i' j' \<le> ed g xs ys i' j'" "ed g' xs ys (i' - 1) (j' - 1) \<le> ed g xs ys (i' - 1) (j' - 1)"
        using less[of i' "Suc j'"] less[of "Suc i'" j'] less[of i' j'] less[of "i' - 1" "j' - 1"] Suc s by simp_all
      show ?thesis unfolding Suc s ed.simps Let_def
        by (rule if_min_mono) (use g in blast, intro min.mono add_right_mono IH, intro add_right_mono IH)
    qed (simp add: ed_col0)
  qed simp
qed

lemma ed_zero: "i \<le> length xs \<Longrightarrow> j \<le> length ys \<Longrightarrow> ed g xs ys i j = 0 \<longleftrightarrow> take i xs = take j ys"
proof (induction "i + j" arbitrary: i j rule: less_induct)
  case less
  consider "i = 0" | "j = 0" | i' j' where "i = Suc i'" "j = Suc j'" by (cases i; cases j) auto
  then show ?case
  proof cases
    case 3
    have IH: "ed g xs ys i' j' = 0 \<longleftrightarrow> take i' xs = take j' ys" "ed g xs ys (i' - 1) (j' - 1) = 0 \<longleftrightarrow> take (i' - 1) xs = take (j' - 1) ys"
      using less(1)[of i' j'] less(1)[of "i' - 1" "j' - 1"] less(2,3) 3 by auto
    have tk: "take (Suc i') xs = take i' xs @ [xs ! i']" "take (Suc j') ys = take j' ys @ [ys ! j']"
      using less(2,3) 3 by (simp_all add: take_Suc_conv_app_nth)
    have sw: "take i' xs = take (i' - 1) xs @ [xs ! (i' - 1)] \<and> take j' ys = take (j' - 1) ys @ [ys ! (j' - 1)]" if "1 \<le> i'" "1 \<le> j'"
      using that less(2,3) 3 take_Suc_conv_app_nth[of "i' - 1" xs] take_Suc_conv_app_nth[of "j' - 1" ys] by simp
    have z: "ed g xs ys i j = 0 \<longleftrightarrow> xs ! i' = ys ! j' \<and> (take i' xs = take j' ys \<or> (g (Suc i') (Suc j') \<and> 1 \<le> i' \<and> 1 \<le> j' \<and>
        xs ! i' = ys ! (j' - 1) \<and> xs ! (i' - 1) = ys ! j') \<and> take (i' - 1) xs = take (j' - 1) ys)"
      unfolding 3 ed.simps Let_def IH[symmetric] by (subst min_zero) (auto simp: ed_nonneg)
    show ?thesis unfolding z using tk sw 3 by auto
  qed (use less in \<open>auto simp: ed_col0\<close>)
qed

interpretation ed_table: dp_table "length xs" "length ys" int "ed_step xs ys" "ed (\<lambda>i j. 2 < i \<and> 2 < j) xs ys" for xs ys :: "'a list"
proof
  fix i j m
  assume f: "filled (length xs) (length ys) (ed (\<lambda>i j. 2 < i \<and> 2 < j) xs ys) i j m" and b: "1 \<le> i" "i \<le> length xs" "1 \<le> j" "j \<le> length ys"
  let ?ed = "ed (\<lambda>i j. 2 < i \<and> 2 < j) xs ys"
  obtain i' j' where s: "i = Suc i'" "j = Suc j'" using b by (cases i; cases j) auto
  have c: "cell m i' (Suc j') = Inr (?ed i' (Suc j'))" "cell m (Suc i') j' = Inr (?ed (Suc i') j')" "cell m i' j' = Inr (?ed i' j')"
    "cell m (i' - 1) (j' - 1) = Inr (?ed (i' - 1) (j' - 1))"
    using b s by (auto intro!: filled_cell[OF f])
  have d: "cell (m((Suc i', Suc j') \<mapsto> v)) (i' - Suc 0) (j' - Suc 0) = Inr (?ed (i' - Suc 0) (j' - Suc 0))" for v
    using c(4) by (auto simp: cell_def)
  show "ed_step xs ys i j m = Inr (m((i, j) \<mapsto> ?ed i j))"
    unfolding ed_step_def s ed.simps by (simp add: c(1-3) d Let_def)
qed (simp_all add: ed_col0)

section \<open>Longest common subsequences\<close>

fun lcs :: "'a list \<Rightarrow> 'a list \<Rightarrow> nat" where
  "lcs (x # xs) (y # ys) = (if x = y then Suc (lcs xs ys) else max (lcs xs (y # ys)) (lcs (x # xs) ys))"
| "lcs _ _ = 0"

lemma lcs_Nil [simp]: "lcs [] ys = 0" "lcs xs [] = 0"
  by (cases ys, simp_all)

lemma lcs_upper: "subseq zs xs \<Longrightarrow> subseq zs ys \<Longrightarrow> length zs \<le> lcs xs ys"
proof (induction xs ys arbitrary: zs rule: lcs.induct)
  case (1 x xs y ys)
  show ?case
  proof (cases zs)
    case (Cons z zs')
    show ?thesis
    proof (cases "x = y")
      case True
      have "subseq zs' xs" "subseq zs' ys" using "1.prems" Cons by (auto elim: subseq_Cons' split: if_splits)
      from "1.IH"(1)[OF True this] True Cons show ?thesis by simp
    next
      case False
      then have "subseq zs xs \<or> subseq zs ys" using "1.prems" Cons by (auto split: if_splits)
      then show ?thesis using "1.IH"(2)[OF False, of zs] "1.IH"(3)[OF False, of zs] "1.prems" False by (auto simp: le_max_iff_disj)
    qed
  qed simp
qed auto

lemma lcs_reached: "\<exists>zs. subseq zs xs \<and> subseq zs ys \<and> length zs = lcs xs ys"
proof (induction xs ys rule: lcs.induct)
  case (1 x xs y ys)
  show ?case
  proof (cases "x = y")
    case True
    then obtain zs where "subseq zs xs" "subseq zs ys" "length zs = lcs xs ys" using 1 by blast
    then show ?thesis using True by (intro exI[of _ "x # zs"]) simp
  next
    case False
    then obtain as bs where "subseq as xs" "subseq as (y # ys)" "length as = lcs xs (y # ys)" "subseq bs (x # xs)" "subseq bs ys" "length bs = lcs (x # xs) ys"
      using 1 by blast
    then show ?thesis using False by (cases "lcs xs (y # ys) \<le> lcs (x # xs) ys") (auto simp: max_def)
  qed
qed auto

lemma subseq_rev_imp: "subseq xs ys \<Longrightarrow> subseq (rev xs) (rev ys)"
  by (induction rule: list_emb.induct) (auto intro: list_emb_append_mono)

lemma subseq_rev: "subseq (rev xs) (rev ys) = subseq xs ys"
  using subseq_rev_imp[of xs ys] subseq_rev_imp[of "rev xs" "rev ys"] by auto

interpretation lcs_table: dp_table "length xs" "length ys" "\<lambda>_. 0" "lcs_step xs ys" "\<lambda>i j. int (lcs (rev (take i xs)) (rev (take j ys)))" for xs ys :: "'a list"
proof
  fix i j m
  let ?L = "\<lambda>i j. int (lcs (rev (take i xs)) (rev (take j ys)))"
  assume f: "filled (length xs) (length ys) ?L i j m" and b: "1 \<le> i" "i \<le> length xs" "1 \<le> j" "j \<le> length ys"
  obtain i' j' where s: "i = Suc i'" "j = Suc j'" using b by (cases i; cases j) auto
  have c: "cell m i' (Suc j') = Inr (?L i' (Suc j'))" "cell m (Suc i') j' = Inr (?L (Suc i') j')" "cell m i' j' = Inr (?L i' j')"
    using b s by (auto intro!: filled_cell[OF f])
  have t: "rev (take (Suc i') xs) = xs ! i' # rev (take i' xs)" "rev (take (Suc j') ys) = ys ! j' # rev (take j' ys)"
    using b s by (simp_all add: take_Suc_conv_app_nth)
  show "lcs_step xs ys i j m = Inr (m((i, j) \<mapsto> ?L i j))" unfolding lcs_step_def s using c by (simp add: t of_nat_max add.commute)
qed simp_all

section \<open>Properties of the tables\<close>

text \<open>
  C40: \<open>LCSS\<close> computes the length of a longest common subsequence: it returns for all inputs, some common subsequence has that length,
  and none is longer.
\<close>

theorem LCSS_longest:
  "\<exists>n. LCSS xs ys = Inr (int n) \<and> (\<exists>zs. subseq zs xs \<and> subseq zs ys \<and> length zs = n) \<and>
    (\<forall>zs. subseq zs xs \<and> subseq zs ys \<longrightarrow> length zs \<le> n)"
proof -
  have "LCSS xs ys = Inr (int (lcs (rev xs) (rev ys)))" using lcs_table.fill_spec[of xs ys] by (simp add: LCSS_def)
  moreover obtain zs where "subseq zs (rev xs)" "subseq zs (rev ys)" "length zs = lcs (rev xs) (rev ys)" using lcs_reached by blast
  then have "\<exists>zs. subseq zs xs \<and> subseq zs ys \<and> length zs = lcs (rev xs) (rev ys)"
    using subseq_rev[of "rev zs" xs] subseq_rev[of "rev zs" ys] by (intro exI[of _ "rev zs"]) simp
  moreover have "length zs \<le> lcs (rev xs) (rev ys)" if "subseq zs xs" "subseq zs ys" for zs
    using lcs_upper[of "rev zs" "rev xs" "rev ys"] that by (simp add: subseq_rev)
  ultimately show ?thesis by blast
qed

theorem LCSS_longest_witness: "\<exists>n. LCSS ''ab'' ''b'' = Inr (int n) \<and> length ''b'' \<le> n"
proof -
  have "subseq ''b'' ''ab''" "subseq ''b'' ''b''" by simp_all
  with LCSS_longest[of "''ab''" "''b''"] show ?thesis by blast
qed

text \<open>
  \<open>EditDistance\<close> returns for all inputs a distance that lies between the Damerau-Levenshtein distance the header names, with swaps
  of neighbours everywhere, and the plain Levenshtein distance, and that is zero exactly for equal strings.
\<close>

lemma EditDistance_bounds:
  "\<exists>d. EditDistance xs ys = Inr d \<and> damerau xs ys \<le> d \<and> d \<le> levenshtein xs ys \<and> (d = 0) = (xs = ys)"
proof -
  let ?d = "ed (\<lambda>i j. 2 < i \<and> 2 < j) xs ys (length xs) (length ys)"
  have "EditDistance xs ys = Inr ?d" using ed_table.fill_spec[of xs ys] by (simp add: EditDistance_def)
  moreover have "damerau xs ys \<le> ?d" by (rule ed_mono) simp
  moreover have "?d \<le> levenshtein xs ys" by (rule ed_mono) simp
  moreover have "(?d = 0) = (xs = ys)" by (simp add: ed_zero)
  ultimately show ?thesis by blast
qed

text \<open>
  a swap of the first two characters is not recognised, because the guard starts one position too late: it costs two operations
  where the distance of the header is one.
\<close>

lemma EditDistance_misses_first_swap:
  assumes "a \<noteq> b"
  shows "EditDistance [a, b] [b, a] = Inr 2 \<and> damerau [a, b] [b, a] = 1"
proof -
  have "EditDistance [a, b] [b, a] = Inr (ed (\<lambda>i j. 2 < i \<and> 2 < j) [a, b] [b, a] 2 2)"
    using ed_table.fill_spec[of "[a, b]" "[b, a]"] by (simp add: EditDistance_def numeral_2_eq_2)
  then show ?thesis using assms by (simp add: numeral_2_eq_2 ed.simps)
qed

section \<open>Words\<close>

primrec join :: "'a list \<Rightarrow> 'a list list \<Rightarrow> 'a list" where
  "join sep [] = []"
| "join sep (w # ws) = w @ (if ws = [] then [] else sep @ join sep ws)"

function words :: "string \<Rightarrow> string list" where
  "words s = (let t = dropWhile isspace s in
     if t = [] then [] else takeWhile (\<lambda>c. \<not> isspace c) t # words (dropWhile (\<lambda>c. \<not> isspace c) t))"
  by pat_completeness auto
termination
proof (relation "measure length", goal_cases)
  case (2 s t)
  obtain c r where t: "t = c # r" using 2(2) by (meson neq_Nil_conv)
  then have "\<not> isspace c" using 2(1) hd_dropWhile[of isspace s] by (metis list.sel(1) list.distinct(1))
  then have "length (dropWhile (\<lambda>c. \<not> isspace c) t) < length t" using t length_dropWhile_le[of "\<lambda>c. \<not> isspace c" r] by simp
  also have "\<dots> \<le> length s" using 2(1) by (simp add: length_dropWhile_le)
  finally show ?case by simp
qed simp

declare words.simps [simp del]

text \<open>What the loop of \<open>Trim\<close> appends: runs of white space become one replacement character, a run at the end nothing.\<close>

fun squeeze :: "char \<Rightarrow> nat \<Rightarrow> string \<Rightarrow> string" where
  "squeeze r space [] = []"
| "squeeze r space (c # s) = (if isspace c then squeeze r (space + 1) s
     else (if 0 < space then [r] else []) @ c # squeeze r 0 s)"

lemma squeeze_word: "\<forall>c \<in> set w. \<not> isspace c \<Longrightarrow> squeeze r 0 (w @ s) = w @ squeeze r 0 s"
  by (induction w) auto

lemma squeeze_spaces: "squeeze r k s = (if dropWhile isspace s = [] then [] else
    (if 0 < k \<or> s \<noteq> dropWhile isspace s then [r] else []) @ squeeze r 0 (dropWhile isspace s))"
proof (induction s arbitrary: k)
  case (Cons c s)
  show ?case
  proof (cases "isspace c")
    case True
    have "length (dropWhile isspace s) \<le> length s" by (rule length_dropWhile_le)
    then have "c # s \<noteq> dropWhile isspace s" by (metis impossible_Cons)
    then show ?thesis using True Cons[of "Suc k"] by simp
  qed simp
qed simp

lemma squeeze_words: "squeeze r 0 s = (if s = dropWhile isspace s \<or> words s = [] then [] else [r]) @ join [r] (words s)"
proof (induction s rule: words.induct)
  case (1 s)
  define t where "t = dropWhile isspace s"
  define w where "w = takeWhile (\<lambda>c. \<not> isspace c) t"
  define u where "u = dropWhile (\<lambda>c. \<not> isspace c) t"
  have ws: "words s = (if t = [] then [] else w # words u)" by (subst words.simps) (simp add: t_def w_def u_def Let_def)
  have sq: "squeeze r 0 s = (if t = [] then [] else (if s \<noteq> t then [r] else []) @ squeeze r 0 t)"
    using squeeze_spaces[of r 0 s] by (simp add: t_def)
  have "\<forall>c \<in> set w. \<not> isspace c" unfolding w_def by (auto dest: set_takeWhileD)
  moreover have "t = w @ u" by (simp add: w_def u_def)
  ultimately have tw: "squeeze r 0 t = w @ squeeze r 0 u" by (simp only: squeeze_word)
  have uw: "u = dropWhile isspace u \<longleftrightarrow> u = []"
  proof (cases u)
    case (Cons c v)
    then have "isspace c" using hd_dropWhile[of "\<lambda>c. \<not> isspace c" t] unfolding u_def by (metis list.sel(1) list.distinct(1))
    moreover have "length (dropWhile isspace v) \<le> length v" by (rule length_dropWhile_le)
    ultimately show ?thesis using Cons by (metis dropWhile.simps(2) impossible_Cons list.distinct(1))
  qed simp
  show ?case
  proof (cases "t = []")
    case False
    have wu: "words u = []" if "u = []" using that by (simp add: words.simps)
    have "squeeze r 0 u = (if u = dropWhile isspace u \<or> words u = [] then [] else [r]) @ join [r] (words u)"
      unfolding u_def t_def by (rule 1[OF refl]) (use False in \<open>simp only: t_def simp_thms\<close>)
    then have e1: "squeeze r 0 u = (if words u = [] then [] else [r] @ join [r] (words u))" unfolding uw using wu by (cases "u = []") simp_all
    have e2: "squeeze r 0 s = (if s \<noteq> t then [r] else []) @ w @ squeeze r 0 u" using sq tw False by simp
    have e3: "words s = w # words u" using ws False by simp
    show ?thesis unfolding e2 e1 e3 t_def[symmetric] by simp
  qed (use ws sq in \<open>simp add: t_def[symmetric]\<close>)
qed

lemma skip_space_ok:
  "i \<le> length s \<Longrightarrow> length s - i < k \<Longrightarrow> NUL \<notin> set s \<Longrightarrow> \<exists>p. skip_space k (s @ [NUL]) i = Inr p \<and> p \<le> length s \<and> drop p s = dropWhile isspace (drop i s)"
proof (induction k arbitrary: i)
  case (Suc k)
  show ?case
  proof (cases "i = length s")
    case True
    then show ?thesis by (simp add: isspace_def nth_append)
  next
    case False
    then have l: "i < length s" using Suc.prems(1) by simp
    then have d: "drop i s = s ! i # drop (Suc i) s" by (simp add: Cons_nth_drop_Suc)
    show ?thesis using Suc l d by (auto simp: nth_append)
  qed
qed simp

text \<open>The write index never passes the read index, so that the array in front of the read index may be anything.\<close>

lemma trim_loop_ok:
  assumes "length rest < k" "NUL \<notin> set rest" "space = 0 \<or> mid \<noteq> []"
  shows "\<exists>tail. trim_loop k r (out @ mid @ rest @ [NUL]) (length out) (length (out @ mid)) space =
    Inr (out @ squeeze r space rest @ tail, length (out @ squeeze r space rest)) \<and> tail \<noteq> []"
  using assms
proof (induction k arbitrary: out mid rest space)
  case (Suc k)
  show ?case
  proof (cases rest)
    case Nil
    then show ?thesis by (auto simp: nth_append)
  next
    case (Cons c rest')
    have c: "(out @ mid @ rest @ [NUL]) ! length (out @ mid) = c" "c \<noteq> NUL" "NUL \<notin> set rest'" "length rest' < k"
      using Cons Suc.prems by (auto simp: nth_append)
    show ?thesis
    proof (cases "isspace c")
      case True
      then show ?thesis using Suc.IH[OF c(4,3), of "Suc space" "mid @ [c]" out] c(1,2) Cons by simp
    next
      case False
      show ?thesis
      proof (cases "space = 0")
        case True
        then show ?thesis using Suc.IH[OF c(4,3), of 0 "tl (mid @ [c])" "out @ [c]"] c(1,2) Cons False
          by (cases mid) (simp_all add: list_update_append)
      next
        case F: False
        then obtain x mid' where m: "mid = x # mid'" using Suc.prems(3) by (cases mid) auto
        then show ?thesis using Suc.IH[OF c(4,3), of 0 "tl (mid' @ [c])" "out @ [r, c]"] c(1,2) Cons False F
          by (cases mid') (simp_all add: list_update_append nth_append)
      qed
    qed
  qed
qed simp

lemma squeeze_NUL: "NUL \<notin> set s \<Longrightarrow> r \<noteq> NUL \<Longrightarrow> NUL \<notin> set (squeeze r k s)"
  by (induction r k s rule: squeeze.induct) auto

lemma takeWhile_end: "NUL \<notin> set s \<Longrightarrow> takeWhile (\<lambda>c. c \<noteq> NUL) (s @ NUL # t) = s"
  by (induction s) auto

lemma words_dropWhile: "words (dropWhile isspace s) = words s"
  by (subst words.simps, subst (2) words.simps) simp

text \<open>
  \<open>Trim\<close> is what its comment says: leading and trailing white space goes away and every run of white space in between becomes one
  replacement character, that is, the words of the string are joined by it. Working in place with two
  indices never overwrites a character before it is read.
\<close>

lemma Trim_joins_words:
  assumes "NUL \<notin> set s" "r \<noteq> NUL"
  shows "TrimCopy s r = Inr (join [r] (words s), int (length (join [r] (words s)))) \<and>
    (\<exists>buf. Trim (s @ [NUL]) r = Inr (buf, int (length (join [r] (words s)))) \<and> length buf = length s + 1)"
proof -
  from skip_space_ok[of 0 s "Suc (length s)"] assms(1) obtain p where p: "skip_space (Suc (length s)) (s @ [NUL]) 0 = Inr p" "p \<le> length s"
    "drop p s = dropWhile isspace s" by auto
  let ?o = "squeeze r 0 (drop p s)"
  have o: "?o = join [r] (words s)" unfolding p(3) squeeze_words words_dropWhile by simp
  have n: "NUL \<notin> set (drop p s)" using assms(1) by (auto dest: in_set_dropD)
  have sp: "take p s @ drop p s @ [NUL] = s @ [NUL]" "length (take p s) = p" using p(2) by (simp_all flip: append_assoc)
  from trim_loop_ok[of "drop p s" "Suc (length s)" 0 "take p s" r "[]"] n obtain tail where
    t: "trim_loop (Suc (length s)) r (s @ [NUL]) 0 p 0 = Inr (?o @ tail, length ?o)" "tail \<noteq> []"
    unfolding append_Nil sp list.size by (auto simp del: trim_loop.simps simp: less_Suc_eq_le)
  have len: "length (fst b) = length buf" if "trim_loop k r buf p1 p2 sp = Inr b" for k buf p1 p2 sp b
    using that by (induction k arbitrary: buf p1 p2 sp) (auto simp: Let_def split: if_splits prod.splits)
  obtain x tl' where x: "tail = x # tl'" using t(2) by (cases tail) auto
  then have u: "(?o @ tail)[length ?o := NUL] = ?o @ NUL # tl'" by (simp add: list_update_append)
  have tr: "Trim (s @ [NUL]) r = Inr (?o @ NUL # tl', int (length ?o))"
    using p(1) t(1) u takeWhile_end[OF squeeze_NUL[OF n assms(2)], of 0 tl'] by (simp add: Trim_def Let_def)
  moreover have "TrimCopy s r = Inr (?o, int (length ?o))"
    using tr takeWhile_end[OF squeeze_NUL[OF n assms(2)], of 0 tl'] by (simp add: TrimCopy_def Let_def)
  moreover have "length (?o @ NUL # tl') = length s + 1" using len[OF t(1)] x by simp
  ultimately show ?thesis unfolding o[symmetric] by blast
qed

section \<open>Splitting\<close>

lemma scan_char: "scan_delim [d] s = (takeWhile (\<lambda>c. c \<noteq> d) s, dropWhile (\<lambda>c. c \<noteq> d) s)"
  by (induction s) auto

lemma Split_char_Nil [simp]: "Split_char d [] = []"
  by (subst Split_char.simps) simp

lemma Split_char_step: "s \<noteq> [] \<Longrightarrow> Split_char d s = takeWhile (\<lambda>c. c \<noteq> d) s # Split_char d (tl (dropWhile (\<lambda>c. c \<noteq> d) s))"
proof -
  assume s: "s \<noteq> []"
  have t: "(if r = [] then r else tl r) = tl r" for r :: string by simp
  show ?thesis by (subst Split_char.simps) (simp only: s if_False Let_def t)
qed

lemma split_loop_char: "length s < k \<Longrightarrow> split_loop k [d] s = Inr (Split_char d s)"
proof (induction k arbitrary: s)
  case (Suc k)
  show ?case
  proof (cases s)
    case (Cons x s')
    define r where "r = dropWhile (\<lambda>c. c \<noteq> d) s"
    have "length r \<le> length s" unfolding r_def by (rule length_dropWhile_le)
    then have "length (tl r) < k" using Suc.prems Cons by simp
    then have "split_loop k [d] (tl r) = Inr (Split_char d (tl r))" by (rule Suc.IH)
    moreover have "(if r \<noteq> [] then drop (length [d]) r else r) = tl r" by (cases r) simp_all
    moreover have ne: "s \<noteq> []" using Cons by simp
    moreover have "Split_char d s = takeWhile (\<lambda>c. c \<noteq> d) s # Split_char d (tl r)" unfolding r_def by (rule Split_char_step[OF ne])
    ultimately show ?thesis by (simp only: split_loop.simps scan_char r_def[symmetric] prod.case bindr.simps if_False)
  qed simp
qed simp

lemma Split_char_parts: "\<forall>p \<in> set (Split_char d s). d \<notin> set p"
proof (induction "length s" arbitrary: s rule: less_induct)
  case less
  show ?case
  proof (cases "s = []")
    case False
    have "length (tl (dropWhile (\<lambda>c. c \<noteq> d) s)) < length s" using False length_dropWhile_le[of "\<lambda>c. c \<noteq> d" s] by (cases s) auto
    from less[OF this] show ?thesis unfolding Split_char_step[OF False] by (auto dest: set_takeWhileD)
  qed simp
qed

lemma Split_char_join: "s \<noteq> [] \<Longrightarrow> join [d] (Split_char d s) = (if last s = d then butlast s else s)"
proof (induction "length s" arbitrary: s rule: less_induct)
  case less
  define w where "w = takeWhile (\<lambda>c. c \<noteq> d) s"
  define r where "r = dropWhile (\<lambda>c. c \<noteq> d) s"
  have s: "s = w @ r" by (simp add: w_def r_def)
  have sp: "Split_char d s = w # Split_char d (tl r)" unfolding w_def r_def by (rule Split_char_step[OF less(2)])
  have dw: "d \<notin> set w" unfolding w_def by (auto dest: set_takeWhileD)
  show ?case
  proof (cases r)
    case Nil
    then have "w \<noteq> []" "last w \<noteq> d" using s less(2) dw last_in_set[of w] by auto
    then show ?thesis unfolding sp using s Nil by simp
  next
    case (Cons x t)
    have x: "x = d" using hd_dropWhile[of "\<lambda>c. c \<noteq> d" s] Cons unfolding r_def by (metis list.sel(1) list.distinct(1))
    show ?thesis
    proof (cases "t = []")
      case True
      then show ?thesis unfolding sp using s Cons x by (simp add: butlast_append)
    next
      case False
      have "join [d] (Split_char d t) = (if last t = d then butlast t else t)" using less(1)[of t] s Cons False by simp
      moreover have "Split_char d t \<noteq> []" unfolding Split_char_step[OF False] by simp
      ultimately show ?thesis unfolding sp using s Cons False x by (simp add: butlast_append)
    qed
  qed
qed

lemma join_snoc: "ws \<noteq> [] \<Longrightarrow> join sep (ws @ [w]) = join sep ws @ sep @ w"
  by (induction ws) auto

text \<open>
  splitting and joining. Both overloads cut at every delimiter and no part contains it. Joining the parts gives the string
  back; the overload with a single character drops an empty field at the end, the one with a string keeps it.
\<close>

lemma split_join_roundtrip:
  assumes "s \<noteq> []"
  shows "(\<exists>ps. Split_str [d] s = Inr ps \<and> join [d] ps = s \<and> (\<forall>p \<in> set ps. d \<notin> set p)) \<and>
    join [d] (Split_char d s) = (if last s = d then butlast s else s) \<and> (\<forall>p \<in> set (Split_char d s). d \<notin> set p)"
proof -
  have l: "split_loop (Suc (length s)) [d] s = Inr (Split_char d s)" by (rule split_loop_char) simp
  have e: "drop (length s - length [d]) s = [d] \<longleftrightarrow> last s = d" using assms by (cases s rule: rev_cases) auto
  have "Split_str [d] s = Inr (if last s = d then Split_char d s @ [[]] else Split_char d s)"
    using assms l e by (auto simp: Split_str_def Suc_le_eq simp del: split_loop.simps)
  moreover have "Split_char d s \<noteq> []" unfolding Split_char_step[OF assms] by simp
  then have "join [d] (if last s = d then Split_char d s @ [[]] else Split_char d s) = s"
    using Split_char_join[OF assms, of d] append_butlast_last_id[OF assms] by (auto simp: join_snoc)
  moreover have "\<forall>p \<in> set (if last s = d then Split_char d s @ [[]] else Split_char d s). d \<notin> set p" using Split_char_parts by auto
  ultimately show ?thesis using Split_char_join[OF assms, of d] Split_char_parts[of d s] by blast
qed

text \<open>
  the overload of \<open>Split\<close> with a string delimiter looks behind the end for a trailing delimiter without comparing the lengths: for
  every string shorter than the delimiter it reads before the start of the string.
\<close>

lemma Split_str_reads_before_start:
  assumes "length s < length delim"
  shows "Split_str delim s = Inl Out_of_bounds"
proof -
  have sc: "scan_delim delim t = (t, [])" if "length t < length delim" for t
    using that by (induction t) (auto dest: prefix_length_le)
  have "split_loop (Suc (length s)) delim s = Inr (if s = [] then [] else [s])"
    using sc[OF assms] by (cases s) simp_all
  then show ?thesis using assms by (simp add: Split_str_def del: split_loop.simps)
qed

end
