(* ===== verification/IniReader.thy ===== *)
theory IniReader
  imports StringAlgos
begin

text \<open>
  The reader of the configuration file, \<open>framework/lib/ini_file_reader.cpp\<close>. The file is the list of its lines, or \<open>None\<close> when
  it cannot be opened. The two regular expressions are matched by boost: what they find in a line is given by the functions
  \<open>section_in\<close> and \<open>item_in\<close>. Where the code exits the process, the result is the fault \<open>Abort\<close>.

  Items and sections share one map: an item is filed under its key, an at sign and its section, and a section under its name, with the
  list of its keys separated by commas.
\<close>

section \<open>State\<close>

record IniFileReader =
  ini_section_count :: "string \<rightharpoonup> int"
  ini_kv_map :: "string \<rightharpoonup> string"
  ini_kv_status_map :: "string \<rightharpoonup> (string \<rightharpoonup> int)"

definition ini_empty :: IniFileReader where
  "ini_empty = \<lparr>ini_section_count = Map.empty, ini_kv_map = Map.empty, ini_kv_status_map = Map.empty\<rparr>"

definition bump_count :: "'k \<Rightarrow> ('k \<rightharpoonup> int) \<Rightarrow> 'k \<rightharpoonup> int" where
  "bump_count k m = m(k \<mapsto> (case m k of None \<Rightarrow> 1 | Some n \<Rightarrow> n + 1))"

section \<open>Loading\<close>

definition ini_blank :: "char \<Rightarrow> bool" where
  "ini_blank c \<longleftrightarrow> c = CHR '' '' \<or> c = CHR 0x0A \<or> c = CHR 0x09 \<or> c = CHR 0x0D"

definition item_name :: "string \<Rightarrow> string \<Rightarrow> string" where
  "item_name section_name item_key = item_key @ ''@'' @ section_name"

definition add_item :: "string \<Rightarrow> string \<Rightarrow> string \<Rightarrow> IniFileReader \<Rightarrow> IniFileReader" where
  "add_item section_name item_key item_value r =
    (let kv = (ini_kv_map r)(item_name section_name item_key \<mapsto> item_value) in
     r\<lparr>ini_kv_map := kv(section_name \<mapsto> (case kv section_name of None \<Rightarrow> item_key | Some ks \<Rightarrow> ks @ '','' @ item_key)),
       ini_kv_status_map := (ini_kv_status_map r)(item_key \<mapsto> (case ini_kv_status_map r item_key of
           None \<Rightarrow> [item_value \<mapsto> 1] | Some kv \<Rightarrow> bump_count item_value kv))\<rparr>)"

definition ini_line :: "(string \<Rightarrow> string option) \<Rightarrow> (string \<Rightarrow> (string \<times> string) option) \<Rightarrow> string \<Rightarrow>
    string \<times> IniFileReader \<Rightarrow> (string \<times> IniFileReader) res" where
  "ini_line section_in item_in line = (\<lambda>(section_name, r).
     let start = dropWhile ini_blank line in
     if start = [] \<or> hd start = CHR ''#'' then Inr (section_name, r)
     else case section_in line of
       Some name \<Rightarrow> Inr (name, r\<lparr>ini_section_count := bump_count name (ini_section_count r)\<rparr>)
     | None \<Rightarrow> (case item_in line of
         Some (item_key, item_value) \<Rightarrow> if section_name = [] then Inl Abort
           else Inr (section_name, add_item section_name item_key item_value r)
       | None \<Rightarrow> Inl Abort))"

definition IniFileReader_new :: "(string \<Rightarrow> string option) \<Rightarrow> (string \<Rightarrow> (string \<times> string) option) \<Rightarrow> string list option \<Rightarrow> IniFileReader res" where
  "IniFileReader_new section_in item_in file = (case file of None \<Rightarrow> Inl Abort
     | Some lines \<Rightarrow> bindr (loopr (ini_line section_in item_in) lines ([], ini_empty)) (\<lambda>(_, r). Inr r))"

section \<open>Queries\<close>

definition IniGetValue :: "string \<Rightarrow> string \<Rightarrow> IniFileReader \<Rightarrow> string" where
  "IniGetValue section_name item_key r = (case ini_kv_map r (item_name section_name item_key) of None \<Rightarrow> [] | Some v \<Rightarrow> v)"

definition IniGetStrValue :: "string \<Rightarrow> string \<Rightarrow> string \<Rightarrow> IniFileReader \<Rightarrow> string" where
  "IniGetStrValue section_name item_key default_value r =
    (if section_name = [] \<or> item_key = [] then []
     else let item_value = IniGetValue section_name item_key r in if item_value = [] then default_value else item_value)"

text \<open>\<open>strtol\<close> in base 10: blanks, a sign, digits, the value cut off at the ends of the 64 bit range.\<close>

definition is_space :: "char \<Rightarrow> bool" where
  "is_space c \<longleftrightarrow> c = CHR '' '' \<or> (9 \<le> (of_char c :: nat) \<and> (of_char c :: nat) \<le> 13)"

definition is_digit :: "char \<Rightarrow> bool" where
  "is_digit c \<longleftrightarrow> 48 \<le> (of_char c :: nat) \<and> (of_char c :: nat) \<le> 57"

definition digits_val :: "string \<Rightarrow> int" where
  "digits_val s = foldl (\<lambda>v c. 10 * v + (int (of_char c) - 48)) 0 (takeWhile is_digit s)"

definition strtoll :: "string \<Rightarrow> int" where
  "strtoll s = (let s = dropWhile is_space s; v = (case s of [] \<Rightarrow> 0 | c # t \<Rightarrow>
       if c = CHR ''-'' then - digits_val t else if c = CHR ''+'' then digits_val t else digits_val s)
     in max (- (2 ^ 63)) (min (2 ^ 63 - 1) v))"

definition atoi :: "string \<Rightarrow> int" where
  "atoi s = s32 (strtoll s)"

definition lower_case :: "char \<Rightarrow> char" where
  "lower_case c = (let n = (of_char c :: nat) in if 65 \<le> n \<and> n \<le> 90 then char_of (n + 32) else c)"

definition strcasecmp_eq :: "string \<Rightarrow> string \<Rightarrow> bool" where
  "strcasecmp_eq s t \<longleftrightarrow> map lower_case s = map lower_case t"

text \<open>The typed queries share the two tests; they differ in the conversion.\<close>

definition ini_convert :: "(string \<Rightarrow> 'v) \<Rightarrow> string \<Rightarrow> string \<Rightarrow> 'v \<Rightarrow> IniFileReader \<Rightarrow> 'v" where
  "ini_convert conv section_name item_key default_value r =
    (if section_name = [] \<or> item_key = [] then default_value
     else let item_value = IniGetValue section_name item_key r in if item_value = [] then default_value else conv item_value)"

definition IniGetIntValue :: "string \<Rightarrow> string \<Rightarrow> int \<Rightarrow> IniFileReader \<Rightarrow> int" where
  "IniGetIntValue = ini_convert atoi"

definition IniGetInt64Value :: "string \<Rightarrow> string \<Rightarrow> int \<Rightarrow> IniFileReader \<Rightarrow> int" where
  "IniGetInt64Value = ini_convert strtoll"

definition ini_true :: "string \<Rightarrow> bool" where
  "ini_true v \<longleftrightarrow> strcasecmp_eq v ''true'' \<or> strcasecmp_eq v ''yes'' \<or> strcasecmp_eq v ''on'' \<or> v = ''1''"

definition IniGetBoolValue :: "string \<Rightarrow> string \<Rightarrow> bool \<Rightarrow> IniFileReader \<Rightarrow> bool" where
  "IniGetBoolValue = ini_convert ini_true"

definition IniGetDoubleValue :: "(string \<Rightarrow> 'd) \<Rightarrow> string \<Rightarrow> string \<Rightarrow> 'd \<Rightarrow> IniFileReader \<Rightarrow> 'd" where
  "IniGetDoubleValue strtod = ini_convert strtod"

definition IniGetSecValues :: "string \<Rightarrow> IniFileReader \<Rightarrow> (string \<times> string) list option" where
  "IniGetSecValues section_name r = (if section_name = [] then None
     else case ini_kv_map r section_name of None \<Rightarrow> None
       | Some ks \<Rightarrow> let sec_keys = Split_char (CHR '','') ks in
           if sec_keys = [] then None else Some (map (\<lambda>k. (k, IniGetValue section_name k r)) sec_keys))"

definition HasSection :: "string \<Rightarrow> IniFileReader \<Rightarrow> bool" where
  "HasSection section_name r \<longleftrightarrow> ini_kv_map r section_name \<noteq> None"

definition SectionIsUnique :: "string \<Rightarrow> IniFileReader \<Rightarrow> bool" where
  "SectionIsUnique section_name r = (case ini_section_count r section_name of None \<Rightarrow> False | Some n \<Rightarrow> n = 1)"

definition HasKeyValue :: "string \<Rightarrow> string \<Rightarrow> IniFileReader \<Rightarrow> bool" where
  "HasKeyValue k v r = (case ini_kv_status_map r k of None \<Rightarrow> False | Some vm \<Rightarrow> vm v \<noteq> None)"

definition KeyValueIsUnique :: "string \<Rightarrow> string \<Rightarrow> IniFileReader \<Rightarrow> bool" where
  "KeyValueIsUnique k v r = (case ini_kv_status_map r k of None \<Rightarrow> False | Some vm \<Rightarrow> (case vm v of None \<Rightarrow> False | Some n \<Rightarrow> n = 1))"

section \<open>What a file says\<close>

text \<open>The items of a file in order, each with its section; \<open>None\<close> when the reader would exit.\<close>

type_synonym ini_item = "(string \<times> string) \<times> string"

fun ini_items :: "(string \<Rightarrow> string option) \<Rightarrow> (string \<Rightarrow> (string \<times> string) option) \<Rightarrow> string \<Rightarrow> string list \<Rightarrow> ini_item list option" where
  "ini_items section_in item_in sec [] = Some []"
| "ini_items section_in item_in sec (l # ls) =
    (if dropWhile ini_blank l = [] \<or> hd (dropWhile ini_blank l) = CHR ''#'' then ini_items section_in item_in sec ls
     else case section_in l of Some name \<Rightarrow> ini_items section_in item_in name ls
       | None \<Rightarrow> (case item_in l of None \<Rightarrow> None
           | Some (k, v) \<Rightarrow> if sec = [] then None else map_option (Cons ((sec, k), v)) (ini_items section_in item_in sec ls)))"

lemmas ini_line_app = ini_line_def[of section_in item_in l, THEN fun_cong, of "(sec, r)" for section_in item_in l sec r, unfolded prod.case Let_def]

lemma ini_lines_items:
  "(case ini_items section_in item_in sec ls of
      None \<Rightarrow> loopr (ini_line section_in item_in) ls (sec, r) = Inl Abort
    | Some is \<Rightarrow> \<exists>sec' cnt. loopr (ini_line section_in item_in) ls (sec, r) =
        Inr (sec', (fold (\<lambda>((s, k), v). add_item s k v) is r)\<lparr>ini_section_count := cnt\<rparr>))"
proof (induction ls arbitrary: sec r)
  case Nil
  show ?case by (auto intro!: exI[of _ "ini_section_count r"])
next
  case (Cons l ls)
  have c: "fold (\<lambda>((s, k), v). add_item s k v) is (r\<lparr>ini_section_count := n\<rparr>) =
      (fold (\<lambda>((s, k), v). add_item s k v) is r)\<lparr>ini_section_count := n\<rparr>" for "is" r n
  proof (induction "is" arbitrary: r)
    case (Cons i "is")
    obtain s k v where i: "i = ((s, k), v)" by (metis prod.exhaust)
    have "add_item s k v (r\<lparr>ini_section_count := n\<rparr>) = (add_item s k v r)\<lparr>ini_section_count := n\<rparr>"
      by (simp add: add_item_def Let_def)
    then show ?case using Cons.IH by (simp add: i)
  qed simp
  show ?case
  proof (cases "dropWhile ini_blank l = [] \<or> hd (dropWhile ini_blank l) = CHR ''#''")
    case True
    then have "loopr (ini_line section_in item_in) (l # ls) (sec, r) = loopr (ini_line section_in item_in) ls (sec, r)"
      by (auto simp: ini_line_app)
    moreover have "ini_items section_in item_in sec (l # ls) = ini_items section_in item_in sec ls" using True by simp
    ultimately show ?thesis using Cons.IH[of sec r] by (simp only:)
  next
    case False
    show ?thesis
    proof (cases "section_in l")
      case (Some name)
      then show ?thesis using False Cons.IH[of name "r\<lparr>ini_section_count := bump_count name (ini_section_count r)\<rparr>"]
        by (auto simp: ini_line_app c split: option.splits)
    next
      case None
      show ?thesis
      proof (cases "item_in l")
        case (Some kv)
        obtain k v where kv: "kv = (k, v)" by (cases kv)
        show ?thesis using False None Some kv Cons.IH[of sec "add_item sec k v r"]
          by (cases "sec = []"; cases "ini_items section_in item_in sec ls") (auto simp: ini_line_app)
      qed (use False None in \<open>auto simp: ini_line_app\<close>)
    qed
  qed
qed

text \<open>Names without an at sign do not collide in the shared map.\<close>

definition plain_name :: "string \<Rightarrow> bool" where
  "plain_name s \<longleftrightarrow> CHR ''@'' \<notin> set s"

lemma item_name_inj:
  assumes "plain_name k" "plain_name k'" "item_name s k = item_name s' k'"
  shows "s = s' \<and> k = k'"
proof -
  have "takeWhile (\<lambda>c. c \<noteq> CHR ''@'') (item_name s k) = k" if "plain_name k" for s k
    using that by (induction k) (auto simp: item_name_def plain_name_def)
  with assms have "k = k'" by metis
  with assms(3) show ?thesis by (simp add: item_name_def)
qed

lemma item_name_not_section: "plain_name s \<Longrightarrow> item_name s' k \<noteq> s"
  by (auto simp: item_name_def plain_name_def)

definition plain_items :: "ini_item list \<Rightarrow> bool" where
  "plain_items is \<longleftrightarrow> (\<forall>((s, k), v) \<in> set is. plain_name s \<and> plain_name k)"

lemma add_item_value:
  assumes "plain_name s" "plain_name k" "plain_name k'"
  shows "ini_kv_map (add_item s k v r) (item_name s' k') = (if (s', k') = (s, k) then Some v else ini_kv_map r (item_name s' k'))"
  using assms item_name_inj[of k' k s' s] item_name_not_section[of s s' k'] by (auto simp: add_item_def Let_def)

lemma fold_items_value:
  assumes "plain_items is" "plain_name k"
  shows "ini_kv_map (fold (\<lambda>((s, k), v). add_item s k v) is r) (item_name s k) =
    (case map_of (rev is) (s, k) of None \<Rightarrow> ini_kv_map r (item_name s k) | Some v \<Rightarrow> Some v)"
  using assms
proof (induction "is" arbitrary: r)
  case (Cons i "is")
  obtain s1 k1 v1 where i: "i = ((s1, k1), v1)" by (metis prod.exhaust)
  have "plain_name s1" "plain_name k1" "plain_items is" using Cons.prems i by (auto simp: plain_items_def)
  with Cons.IH[of "add_item s1 k1 v1 r"] Cons.prems(2) add_item_value[of s1 k1 k v1 r s] show ?case
    by (auto simp: i map_add_def split: option.splits)
qed simp

definition keys_of :: "string \<Rightarrow> ini_item list \<Rightarrow> string list" where
  "keys_of s is = map (snd \<circ> fst) (filter (\<lambda>i. fst (fst i) = s) is)"

lemma section_keys:
  assumes "plain_items is" "plain_name s"
  shows "ini_kv_map (fold (\<lambda>((s, k), v). add_item s k v) is r) s =
    (if keys_of s is = [] then ini_kv_map r s
     else Some (join '','' ((case ini_kv_map r s of None \<Rightarrow> [] | Some ks \<Rightarrow> [ks]) @ keys_of s is)))"
  using assms
proof (induction "is" arbitrary: r)
  case (Cons i "is")
  obtain s1 k1 v1 where i: "i = ((s1, k1), v1)" by (metis prod.exhaust)
  have p: "plain_items is" using Cons.prems by (auto simp: plain_items_def)
  have n: "item_name s1 k1 \<noteq> s" "item_name s1 k1 \<noteq> s1"
    using item_name_not_section[OF Cons.prems(2)] by (auto simp: item_name_def)
  have a: "ini_kv_map (add_item s1 k1 v1 r) s =
      (if s1 = s then Some (join '','' ((case ini_kv_map r s of None \<Rightarrow> [] | Some ks \<Rightarrow> [ks]) @ [k1])) else ini_kv_map r s)"
    using n by (auto simp: add_item_def Let_def split: option.splits)
  show ?case using Cons.IH[OF p Cons.prems(2), of "add_item s1 k1 v1 r"] a
    by (auto simp: i keys_of_def split: option.splits)
qed (simp add: keys_of_def)

lemma Split_char_of_join:
  assumes "\<forall>k \<in> set ks. k \<noteq> [] \<and> d \<notin> set k"
  shows "Split_char d (join [d] ks) = ks"
  using assms
proof (induction ks)
  case (Cons k ks)
  have k: "k \<noteq> []" "d \<notin> set k" using Cons.prems by auto
  have n: "join [d] (k # ks) \<noteq> []" using k by simp
  have t: "takeWhile (\<lambda>c. c \<noteq> d) k = k" "dropWhile (\<lambda>c. c \<noteq> d) k = []" using k by (auto simp: takeWhile_eq_all_conv)
  have "takeWhile (\<lambda>c. c \<noteq> d) (join [d] (k # ks)) = k" "tl (dropWhile (\<lambda>c. c \<noteq> d) (join [d] (k # ks))) = join [d] ks"
    using t k by (auto simp: takeWhile_append dropWhile_append)
  then show ?case using Split_char_step[OF n] Cons by simp
qed simp

text \<open>
  C39: Reading a configuration file and asking for a value gives the value the file set last for that key in that section, and the
  default when there is none or it is empty, for text and for numbers; asking for a section gives its keys in the order of the file,
  each with its last value, and fails when the section has none. This needs names free of the separators the shared map uses:
  sections and keys without an at sign, keys that are not empty and without a comma. A file that the reader cannot make sense of ends
  the process.
\<close>

theorem ini_values_found:
  assumes "plain_name s" "plain_name k" "s \<noteq> []" "k \<noteq> []"
  shows "(case ini_items section_in item_in [] lines of
      None \<Rightarrow> IniFileReader_new section_in item_in (Some lines) = Inl Abort
    | Some is \<Rightarrow> \<exists>r. IniFileReader_new section_in item_in (Some lines) = Inr r \<and>
        (plain_items is \<longrightarrow>
          IniGetStrValue s k d r = (case map_of (rev is) (s, k) of Some v \<Rightarrow> if v = [] then d else v | None \<Rightarrow> d) \<and>
          IniGetIntValue s k i r = (case map_of (rev is) (s, k) of Some v \<Rightarrow> if v = [] then i else atoi v | None \<Rightarrow> i) \<and>
          ((\<forall>n \<in> set (keys_of s is). n \<noteq> [] \<and> CHR '','' \<notin> set n) \<longrightarrow>
            IniGetSecValues s r = (if keys_of s is = [] then None
              else Some (map (\<lambda>n. (n, case map_of (rev is) (s, n) of Some v \<Rightarrow> v | None \<Rightarrow> [])) (keys_of s is))))))"
proof (cases "ini_items section_in item_in [] lines")
  case None
  then show ?thesis using ini_lines_items[where section_in = section_in and item_in = item_in and sec = "[]" and ls = lines and r = ini_empty] by (simp add: IniFileReader_new_def)
next
  case (Some "is")
  obtain sec cnt where l: "loopr (ini_line section_in item_in) lines ([], ini_empty) =
      Inr (sec, (fold (\<lambda>((s, k), v). add_item s k v) is ini_empty)\<lparr>ini_section_count := cnt\<rparr>)" (is "_ = Inr (_, ?r)")
    using ini_lines_items[where section_in = section_in and item_in = item_in and sec = "[]" and ls = lines and r = ini_empty] Some by auto
  have v: "IniGetValue s n ?r = (case map_of (rev is) (s, n) of Some v \<Rightarrow> v | None \<Rightarrow> [])" if "plain_items is" "plain_name n" for n
    using fold_items_value[OF that, of ini_empty s] by (simp add: IniGetValue_def ini_empty_def split: option.splits)
  have ks: "plain_name n" if "plain_items is" "n \<in> set (keys_of s is)" for n
    using that by (auto simp: plain_items_def keys_of_def)
  have g: "IniGetSecValues s ?r = (if keys_of s is = [] then None
      else Some (map (\<lambda>n. (n, case map_of (rev is) (s, n) of Some v \<Rightarrow> v | None \<Rightarrow> [])) (keys_of s is)))"
    if "plain_items is" "\<forall>n \<in> set (keys_of s is). n \<noteq> [] \<and> CHR '','' \<notin> set n"
    using section_keys[OF that(1) assms(1), of ini_empty] Split_char_of_join[OF that(2)] v[OF that(1) ks[OF that(1)]] assms(3)
    by (simp add: IniGetSecValues_def ini_empty_def)
  show ?thesis using Some l v[OF _ assms(2)] g assms(3,4)
    by (auto simp: IniFileReader_new_def IniGetStrValue_def IniGetIntValue_def ini_convert_def Let_def split: option.splits)
qed

definition sample_section :: "string \<Rightarrow> string option" where
  "sample_section l = (if l = ''[io]'' then Some ''io'' else None)"

definition sample_item :: "string \<Rightarrow> (string \<times> string) option" where
  "sample_item l = (if l = ''port = 10'' then Some (''port'', ''10'') else if l = ''port = 12'' then Some (''port'', ''12'')
     else if l = ''host = a'' then Some (''host'', ''a'') else None)"

theorem ini_values_found_witness:
  "\<exists>r. IniFileReader_new sample_section sample_item (Some [''[io]'', ''# x'', ''port = 10'', ''host = a'', ''port = 12'']) = Inr r \<and>
    IniGetStrValue ''io'' ''port'' [] r = ''12'' \<and> IniGetIntValue ''io'' ''port'' 5 r = 12 \<and>
    IniGetSecValues ''io'' r = Some [(''port'', ''12''), (''host'', ''a''), (''port'', ''12'')]"
  using ini_values_found[of "''io''" "''port''" sample_section sample_item "[''[io]'', ''# x'', ''port = 10'', ''host = a'', ''port = 12'']" "[]" 5]
  by (simp add: sample_section_def sample_item_def ini_blank_def plain_items_def plain_name_def keys_of_def
      atoi_def strtoll_def digits_val_def is_digit_def is_space_def s32_def)

text \<open>An item filed under a name with an at sign passes for a section.\<close>

lemma item_passes_for_section: "HasSection (item_name s k) (add_item s k v r)"
  by (simp add: HasSection_def add_item_def Let_def)

text \<open>The query for text ignores the default when it is asked for an empty name.\<close>

lemma str_default_ignored: "IniGetStrValue [] k d r = [] \<and> IniGetIntValue [] k i r = i"
  by (simp add: IniGetStrValue_def IniGetIntValue_def ini_convert_def)

end
