(* ===== verification/IoCluster.thy ===== *)
theory IoCluster
  imports IoDelivery IniReader
begin

text \<open>
  The io threads together and the way in for new connections: \<open>framework/io/io_app_cluster.cpp\<close>, \<open>io_accept.cpp\<close>,
  \<open>io_app_accept_service.cpp\<close> and \<open>io_manager.cpp\<close>.

  The queues of sockets and of messages are arrays of the cluster, one element for each thread; here each thread holds its own. The
  collector is one object for all threads: the cluster has it, and \<open>thread_of\<close> is a thread that uses it. The calls of
  \<open>accept\<close> are given by what they return.
\<close>

section \<open>State\<close>

record IoAppCluster =
  cl_cluster_index :: int
  cl_cluster_size :: int
  cl_socket_max :: int
  cl_read_timeout :: int
  cl_write_timeout :: int
  cl_second_limit :: int
  cl_minute_limit :: int
  cl_hour_limit :: int
  cl_collector :: "MsMessageBlockQueue option"
  cl_core_io :: "IoApp list"

definition IoAppCluster_new :: IoAppCluster where
  "IoAppCluster_new = \<lparr>cl_cluster_index = 0, cl_cluster_size = 0, cl_socket_max = 0x0FFFFFFF, cl_read_timeout = 0, cl_write_timeout = 0,
     cl_second_limit = 0x0FFFFFFF, cl_minute_limit = 0x0FFFFFFF, cl_hour_limit = 0x0FFFFFFF, cl_collector = None, cl_core_io = []\<rparr>"

definition thread_of :: "IoAppCluster \<Rightarrow> nat \<Rightarrow> IoApp" where
  "thread_of cl i = (cl_core_io cl ! i)\<lparr>ia_collector := cl_collector cl\<rparr>"

definition cl_setPendingMessageCollector :: "MsMessageBlockQueue option \<Rightarrow> IoAppCluster \<Rightarrow> IoAppCluster" where
  "cl_setPendingMessageCollector collector cl = cl\<lparr>cl_collector := collector\<rparr>"

definition cl_setSecondLimit :: "int \<Rightarrow> IoAppCluster \<Rightarrow> IoAppCluster res" where
  "cl_setSecondLimit limit cl = bindr (guardr Assert_failed (0 < limit)) (\<lambda>_. Inr (cl\<lparr>cl_second_limit := limit\<rparr>))"

definition cl_setMinuteLimit :: "int \<Rightarrow> IoAppCluster \<Rightarrow> IoAppCluster res" where
  "cl_setMinuteLimit limit cl = bindr (guardr Assert_failed (0 < limit)) (\<lambda>_. Inr (cl\<lparr>cl_minute_limit := limit\<rparr>))"

definition cl_setHourLimit :: "int \<Rightarrow> IoAppCluster \<Rightarrow> IoAppCluster res" where
  "cl_setHourLimit limit cl = bindr (guardr Assert_failed (0 < limit)) (\<lambda>_. Inr (cl\<lparr>cl_hour_limit := limit\<rparr>))"

section \<open>Configuration and start\<close>

text \<open>A setting of section \<open>IO\<close>, which falls back to its default when it is not positive.\<close>

definition io_setting :: "string \<Rightarrow> int \<Rightarrow> IniFileReader \<Rightarrow> int" where
  "io_setting k d r = (let v = IniGetIntValue ''IO'' k d r in if v \<le> 0 then d else v)"

definition cl_initialize :: "IniFileReader \<Rightarrow> IoAppCluster \<Rightarrow> (int \<times> IoAppCluster) res" where
  "cl_initialize r cl =
    (let cl = cl\<lparr>cl_cluster_size := io_setting ''io_thread_num'' 1 r, cl_socket_max := io_setting ''io_max'' 1000 r,
        cl_read_timeout := io_setting ''io_read_timeout'' 10 r, cl_write_timeout := io_setting ''io_write_timeout'' 10 r\<rparr> in
     bindr (cl_setSecondLimit (io_setting ''io_request_limit_second'' 3 r) cl) (\<lambda>cl.
     bindr (cl_setMinuteLimit (io_setting ''io_request_limit_minute'' 30 r) cl) (\<lambda>cl.
     bindr (cl_setHourLimit (io_setting ''io_request_limit_hour'' 500 r) cl) (\<lambda>cl. Inr (0, cl)))))"

definition start_thread :: "(nat \<Rightarrow> bool) \<Rightarrow> nat \<Rightarrow> (addr \<Rightarrow> conn_obj) \<Rightarrow> nat \<Rightarrow> IoAppCluster \<Rightarrow> IoAppCluster res" where
  "start_thread event_base_ok lim conns i cl = bindr (IoApp_new (event_base_ok i) (int i) lim conns) (\<lambda>io.
     let io = ia_setPendingMessageCollector (cl_collector cl) (ia_setWriteTimeout (cl_write_timeout cl) (ia_setReadTimeout (cl_read_timeout cl) io)) in
     bindr (ia_setSecondLimit (cl_second_limit cl) io) (\<lambda>io.
     bindr (ia_setMinuteLimit (cl_minute_limit cl) io) (\<lambda>io.
     bindr (ia_setHourLimit (cl_hour_limit cl) io) (\<lambda>io.
     Inr (cl\<lparr>cl_core_io := cl_core_io cl @ [io]\<rparr>)))))"

definition cl_run :: "(nat \<Rightarrow> bool) \<Rightarrow> nat \<Rightarrow> (addr \<Rightarrow> conn_obj) \<Rightarrow> IoAppCluster \<Rightarrow> (int \<times> IoAppCluster) res" where
  "cl_run event_base_ok lim conns cl = (if cl_cluster_size cl \<le> 0 then Inr (-1, cl)
     else bindr (loopr (start_thread event_base_ok lim conns) [0..<nat (cl_cluster_size cl)] (cl\<lparr>cl_core_io := []\<rparr>)) (\<lambda>cl. Inr (0, cl)))"

section \<open>Handing out sockets and messages\<close>

text \<open>The scan for the thread with the fewest connections: the sum, the minimum so far and its index.\<close>

fun scan_threads :: "nat \<Rightarrow> IoApp list \<Rightarrow> int \<times> int \<times> nat \<Rightarrow> int \<times> int \<times> nat" where
  "scan_threads i [] s = s"
| "scan_threads i (io # ios) (socket_count, mn, to) = (let c = ia_conn_count io in
     scan_threads (Suc i) ios (socket_count + c, if c < mn then (c, i) else (mn, to)))"

text \<open>A socket that is over the limit is closed: the last component logs the descriptors closed.\<close>

definition dispatchConnection :: "int \<Rightarrow> 64 word \<Rightarrow> IoAppCluster \<times> qheap \<times> int list \<Rightarrow> (int \<times> IoAppCluster \<times> qheap \<times> int list) res" where
  "dispatchConnection fd cid = (\<lambda>(cl, qh, closed).
     case scan_threads 0 (cl_core_io cl) (0, cl_socket_max cl, 0) of (socket_count, _, to) \<Rightarrow>
       if socket_count < cl_socket_max cl then
         if to < length (cl_core_io cl) then
           bindr (qu_put fd cid (ia_sock_queue (cl_core_io cl ! to), qh)) (\<lambda>(q, qh).
           Inr (0, cl\<lparr>cl_core_io := (cl_core_io cl)[to := ia_newNotify ((cl_core_io cl ! to)\<lparr>ia_sock_queue := q\<rparr>)]\<rparr>, qh, closed))
         else Inl Out_of_bounds
       else Inr (-1, cl, qh, closed @ [fd]))"

definition dispatchPushList :: "nat \<Rightarrow> addr \<Rightarrow> IoAppCluster \<times> mheap \<Rightarrow> (IoAppCluster \<times> mheap) res" where
  "dispatchPushList io msg = (\<lambda>(cl, mh). if io < length (cl_core_io cl) then
       bindr (mq_put msg (ia_msg_queue (cl_core_io cl ! io), mh)) (\<lambda>(q, mh).
       Inr (cl\<lparr>cl_core_io := (cl_core_io cl)[io := ia_pushNotify ((cl_core_io cl ! io)\<lparr>ia_msg_queue := q\<rparr>)]\<rparr>, mh))
     else Inl Out_of_bounds)"

text \<open>The calls a turn of the local router makes.\<close>

definition dispatch_all :: "(nat \<times> addr) list \<Rightarrow> IoAppCluster \<times> mheap \<Rightarrow> (IoAppCluster \<times> mheap) res" where
  "dispatch_all = loopr (\<lambda>(i, p). dispatchPushList i p)"

section \<open>Accepting\<close>

datatype accept_ev = Accepted int | Accept_eintr | Accept_failed

text \<open>\<open>accept\<close> is called again while it is interrupted. With no call left to answer the listening socket, which does not block,
  has nothing to accept.\<close>

fun accept_loop :: "accept_ev list \<Rightarrow> int \<times> accept_ev list" where
  "accept_loop [] = (-1, [])"
| "accept_loop (Accept_eintr # evs) = accept_loop evs"
| "accept_loop (Accept_failed # evs) = (-1, evs)"
| "accept_loop (Accepted fd # evs) = (fd, evs)"

text \<open>The socket options do not matter here; a socket that cannot be made non-blocking is closed.\<close>

definition accept_socket :: "(int \<Rightarrow> bool) \<Rightarrow> accept_ev list \<times> int list \<Rightarrow> int \<times> accept_ev list \<times> int list" where
  "accept_socket nonblocking_ok = (\<lambda>(evs, closed). case accept_loop evs of (fd, evs) \<Rightarrow>
     if fd = -1 then (-1, evs, closed) else if nonblocking_ok fd then (fd, evs, closed) else (-1, evs, closed @ [fd]))"

text \<open>The service of a cluster numbers the connections it is given.\<close>

record IoAppAcceptService =
  as_listen_socket :: int
  as_id :: "64 word"

definition IoAppAcceptService_new :: "int \<Rightarrow> IoAppAcceptService" where
  "IoAppAcceptService_new fd = \<lparr>as_listen_socket = fd, as_id = 0\<rparr>"

type_synonym accept_state = "IoAppAcceptService \<times> IoAppCluster \<times> qheap \<times> int list"

definition service_run :: "int \<Rightarrow> accept_state \<Rightarrow> accept_state res" where
  "service_run fd = (\<lambda>(s, st). let s = s\<lparr>as_id := as_id s + 1\<rparr> in
     bindr (dispatchConnection fd (as_id s) st) (\<lambda>(_, st). Inr (s, st)))"

definition accept_callback :: "(int \<Rightarrow> bool) \<Rightarrow> accept_ev list \<times> accept_state \<Rightarrow> (accept_ev list \<times> accept_state) res" where
  "accept_callback nonblocking_ok = (\<lambda>(evs, s, cl, qh, closed). case accept_socket nonblocking_ok (evs, closed) of (new_fd, evs, closed) \<Rightarrow>
     if new_fd \<noteq> -1 then bindr (service_run new_fd (s, cl, qh, closed)) (\<lambda>st. Inr (evs, st)) else Inr (evs, s, cl, qh, closed))"

definition EVENT_MAX :: nat where
  "EVENT_MAX = 8"

definition addService :: "'s option \<Rightarrow> 's list \<Rightarrow> int \<times> 's list" where
  "addService s services = (case s of None \<Rightarrow> (-1, services)
     | Some a \<Rightarrow> if EVENT_MAX \<le> length services then (-1, services) else (0, services @ [a]))"

text \<open>\<open>listen_on\<close> is the listening socket for a port, or \<open>None\<close> where \<open>createListenSocket\<close> aborts.\<close>

definition manager_initialize :: "(int \<Rightarrow> int option) \<Rightarrow> IniFileReader \<Rightarrow> bool \<Rightarrow> (int \<times> IoAppAcceptService list) res" where
  "manager_initialize listen_on r has_cluster = (let app_port = IniGetIntValue ''IO'' ''io_app_port'' 0 r in
     if app_port \<le> 0 then Inl Abort
     else if has_cluster then (case listen_on app_port of None \<Rightarrow> Inl Abort
       | Some fd \<Rightarrow> Inr (0, snd (addService (Some (IoAppAcceptService_new fd)) [])))
     else Inr (-1, []))"

section \<open>The choice of a thread\<close>

definition least :: "IoApp list \<Rightarrow> nat \<Rightarrow> bool" where
  "least ios to \<longleftrightarrow> to < length ios \<and> (\<forall>io \<in> set ios. ia_conn_count (ios ! to) \<le> ia_conn_count io) \<and>
     (\<forall>j < to. ia_conn_count (ios ! to) < ia_conn_count (ios ! j))"

lemma least_unique: "least ios a \<Longrightarrow> least ios b \<Longrightarrow> a = b"
  by (metis least_def linorder_neqE_nat linorder_not_less nth_mem)

abbreviation total_conns :: "IoApp list \<Rightarrow> int" where
  "total_conns ios \<equiv> sum_list (map ia_conn_count ios)"

lemma scan_threads_sum: "fst (scan_threads i ios (n, mn, to)) = n + total_conns ios"
  by (induction ios arbitrary: i n mn to) (simp_all add: Let_def)

lemma scan_threads_least:
  assumes "scan_threads i ios (n, mn, to) = (n', mn', to')"
  shows "mn' \<le> mn \<and> (\<forall>io \<in> set ios. mn' \<le> ia_conn_count io) \<and> (mn' = mn \<longrightarrow> to' = to) \<and>
    (mn' < mn \<longrightarrow> (\<exists>j < length ios. to' = i + j \<and> ia_conn_count (ios ! j) = mn' \<and> (\<forall>k < j. mn' < ia_conn_count (ios ! k))))"
  using assms
proof (induction ios arbitrary: i n mn to)
  case (Cons io ios)
  let ?c = "ia_conn_count io"
  show ?case
  proof (cases "?c < mn")
    case True
    then have "scan_threads (Suc i) ios (n + ?c, ?c, i) = (n', mn', to')" using Cons.prems by (simp add: Let_def)
    note h = Cons.IH[OF this]
    show ?thesis
    proof (cases "mn' = ?c")
      case eq: True
      then show ?thesis using h True by (auto intro!: exI[of _ 0])
    next
      case False
      then obtain j where j: "j < length ios" "to' = Suc i + j" "ia_conn_count (ios ! j) = mn'" "\<forall>k < j. mn' < ia_conn_count (ios ! k)" "mn' < ?c" using h by auto
      then have "\<forall>k < Suc j. mn' < ia_conn_count ((io # ios) ! k)" by (simp add: nth_Cons split: nat.splits)
      then show ?thesis using h j True by (auto intro!: exI[of _ "Suc j"])
    qed
  next
    case False
    then have "scan_threads (Suc i) ios (n + ?c, mn, to) = (n', mn', to')" using Cons.prems by (simp add: Let_def)
    note h = Cons.IH[OF this]
    have "\<exists>j < length (io # ios). to' = i + j \<and> ia_conn_count ((io # ios) ! j) = mn' \<and> (\<forall>k < j. mn' < ia_conn_count ((io # ios) ! k))" if lt: "mn' < mn"
    proof -
      obtain j where j: "j < length ios" "to' = Suc i + j" "ia_conn_count (ios ! j) = mn'" "\<forall>k < j. mn' < ia_conn_count (ios ! k)" using h lt by auto
      then have "\<forall>k < Suc j. mn' < ia_conn_count ((io # ios) ! k)" using lt False by (simp add: nth_Cons split: nat.splits)
      then show ?thesis using j by (auto intro!: exI[of _ "Suc j"])
    qed
    then show ?thesis using h False by auto
  qed
qed simp

lemma member_le_total: "\<forall>io \<in> set ios. 0 \<le> ia_conn_count io \<Longrightarrow> io \<in> set ios \<Longrightarrow> ia_conn_count io \<le> total_conns ios"
proof (induction ios)
  case (Cons a ios)
  have "0 \<le> total_conns ios" using Cons.prems(1) by (intro sum_list_nonneg) auto
  then show ?case using Cons by auto
qed simp

lemma scan_threads_ok:
  assumes "ios \<noteq> []" "\<forall>io \<in> set ios. 0 \<le> ia_conn_count io" "total_conns ios < mx"
  shows "\<exists>mn to. scan_threads 0 ios (0, mx, 0) = (total_conns ios, mn, to) \<and> least ios to"
proof -
  obtain n mn to where s: "scan_threads 0 ios (0, mx, 0) = (n, mn, to)" by (metis prod.exhaust)
  have n: "n = total_conns ios" using scan_threads_sum[of 0 ios 0 mx 0] s by simp
  have "hd ios \<in> set ios" using assms(1) by simp
  then have "ia_conn_count (hd ios) < mx" using member_le_total[OF assms(2)] assms(3) by fastforce
  then have "mn < mx" using scan_threads_least[OF s] \<open>hd ios \<in> set ios\<close> by fastforce
  then have "least ios to" using scan_threads_least[OF s] by (auto simp: least_def)
  then show ?thesis using s n by blast
qed

text \<open>The sockets that wait for each thread: descriptors and ids, in order.\<close>

definition cl_waits :: "IoAppCluster \<Rightarrow> qheap \<Rightarrow> (nat \<Rightarrow> (int \<times> 64 word) list) \<Rightarrow> bool" where
  "cl_waits cl qh W \<longleftrightarrow> heap_ok qh \<and> (\<exists>E. (\<forall>j < length (cl_core_io cl). let q = ia_sock_queue (cl_core_io cl ! j) in
       seg qe_next qh (qu_head q) (qu_tail q) (E j) \<and> map (el_at qh) (E j) = W j) \<and>
     (\<forall>i < length (cl_core_io cl). \<forall>j < length (cl_core_io cl). i \<noteq> j \<longrightarrow> set (E i) \<inter> set (E j) = {}))"

declare cl_waits_def [inv_defs]

lemma el_at_relinked: "relinked set_qnext h h' \<Longrightarrow> el_at h' a = el_at h a"
proof -
  assume "relinked set_qnext h h'"
  then have "map_option (set_qnext 0) (h_cells h' a) = map_option (set_qnext 0) (h_cells h a)" by (simp add: relinked_def)
  then show ?thesis by (cases "h_cells h' a"; cases "h_cells h a") (auto simp: el_at_def set_qnext_def dest: arg_cong[of _ _ qe_value] arg_cong[of _ _ qe_id])
qed

lemma qu_put_ok:
  assumes "heap_ok h" "seg qe_next h (qu_head q) (qu_tail q) es" "h_brk h < h_lim h"
  shows "\<exists>q' h'. qu_put v k (q, h) = Inr (q', h') \<and> heap_ok h' \<and> seg qe_next h' (qu_head q') (qu_tail q') (es @ [h_brk h]) \<and>
    el_at h' (h_brk h) = (v, k) \<and> (\<forall>a. a \<noteq> h_brk h \<longrightarrow> el_at h' a = el_at h a) \<and>
    (\<forall>a. a \<notin> set es \<longrightarrow> a \<noteq> h_brk h \<longrightarrow> h_cells h' a = h_cells h a) \<and> h_brk h' = Suc (h_brk h) \<and> h_lim h' = h_lim h"
proof -
  define e where "e = h_brk h"
  define h1 where "h1 = hnew \<lparr>qe_next = 0, qe_id = k, qe_value = v\<rparr> h"
  have e: "e \<noteq> 0" "e \<notin> set es" using assms(1) seg_live[OF assms(2)] brk_fresh[OF assms(1)] by (auto simp: e_def heap_ok_def)
  have s1: "seg qe_next h1 (qu_head q) (qu_tail q) es" by (rule seg_frame[OF assms(2)]) (use e in \<open>auto simp: h1_def e_def\<close>)
  have g: "hget h1 e = Inr \<lparr>qe_next = 0, qe_id = k, qe_value = v\<rparr>" using assms(1) by (simp add: h1_def e_def hget_hnew)
  from qel.append_one[OF s1 g _ e(2)] obtain lst h' where a: "append_at set_qnext (qu_head q) (qu_tail q) e h1 = Inr (lst, h')"
    "seg qe_next h' lst e (es @ [e])" "relinked set_qnext h1 h'" "\<forall>a. a \<notin> set es \<longrightarrow> h_cells h' a = h_cells h1 a" by auto
  have "qu_put v k (q, h) = Inr (q\<lparr>qu_head := lst, qu_tail := e\<rparr>, h')" using a(1) e assms(3) by (simp add: qu_put_def halloc_room e_def h1_def)
  moreover have "heap_ok h'" using relinked_ok[OF a(3)] assms(1) by (simp add: h1_def)
  moreover have "el_at h' b = (if b = e then (v, k) else el_at h b)" for b unfolding el_at_relinked[OF a(3)] by (simp add: el_at_def h1_def e_def)
  moreover have "h_brk h' = Suc e" "h_lim h' = h_lim h" using a(3) by (simp_all add: relinked_def h1_def e_def)
  ultimately show ?thesis using a(2,4) unfolding e_def[symmetric]
    by (intro exI[of _ "q\<lparr>qu_head := lst, qu_tail := e\<rparr>"] exI[of _ h']) (simp add: h1_def e_def)
qed

lemma dispatch_ok:
  assumes w: "cl_waits cl qh W" and room: "h_brk qh < h_lim qh" and ne: "cl_core_io cl \<noteq> []" and pos: "\<forall>io \<in> set (cl_core_io cl). 0 \<le> ia_conn_count io"
    and lim: "total_conns (cl_core_io cl) < cl_socket_max cl" and to: "least (cl_core_io cl) to"
  shows "\<exists>q qh'. dispatchConnection fd cid (cl, qh, closed) = Inr (0, cl\<lparr>cl_core_io := (cl_core_io cl)[to := ia_newNotify ((cl_core_io cl ! to)\<lparr>ia_sock_queue := q\<rparr>)]\<rparr>, qh', closed) \<and>
    cl_waits (cl\<lparr>cl_core_io := (cl_core_io cl)[to := ia_newNotify ((cl_core_io cl ! to)\<lparr>ia_sock_queue := q\<rparr>)]\<rparr>) qh' (W(to := W to @ [(fd, cid)])) \<and>
    h_brk qh' = Suc (h_brk qh) \<and> h_lim qh' = h_lim qh"
proof -
  define ios where "ios = cl_core_io cl"
  obtain mn to' where sc: "scan_threads 0 ios (0, cl_socket_max cl, 0) = (total_conns ios, mn, to')" "least ios to'"
    using scan_threads_ok[OF ne pos lim] by (auto simp: ios_def)
  have t: "to' = to" "to < length ios" using least_unique[OF sc(2)] to by (auto simp: ios_def least_def)
  obtain E where ok: "heap_ok qh" and E: "\<And>j. j < length ios \<Longrightarrow> seg qe_next qh (qu_head (ia_sock_queue (ios ! j))) (qu_tail (ia_sock_queue (ios ! j))) (E j)"
    "\<And>j. j < length ios \<Longrightarrow> map (el_at qh) (E j) = W j" and dj: "\<And>i j. i < length ios \<Longrightarrow> j < length ios \<Longrightarrow> i \<noteq> j \<Longrightarrow> set (E i) \<inter> set (E j) = {}"
    using w unfolding cl_waits_def Let_def ios_def by blast
  have nb: "h_brk qh \<notin> set (E j)" if "j < length ios" for j using seg_live[OF E(1)[OF that]] brk_fresh[OF ok] by blast
  obtain q qh' where p: "qu_put fd cid (ia_sock_queue (ios ! to), qh) = Inr (q, qh')" "heap_ok qh'" "seg qe_next qh' (qu_head q) (qu_tail q) (E to @ [h_brk qh])"
    "el_at qh' (h_brk qh) = (fd, cid)" "\<And>a. a \<noteq> h_brk qh \<Longrightarrow> el_at qh' a = el_at qh a"
    "\<And>a. a \<notin> set (E to) \<Longrightarrow> a \<noteq> h_brk qh \<Longrightarrow> h_cells qh' a = h_cells qh a" "h_brk qh' = Suc (h_brk qh)" "h_lim qh' = h_lim qh"
    using qu_put_ok[OF ok E(1)[OF t(2)] room, of fd cid] by metis
  define ios' where "ios' = ios[to := ia_newNotify ((ios ! to)\<lparr>ia_sock_queue := q\<rparr>)]"
  define E' where "E' = E(to := E to @ [h_brk qh])"
  have len: "length ios' = length ios" by (simp add: ios'_def)
  have m: "map (el_at qh') (E j) = map (el_at qh) (E j)" if "j < length ios" for j using nb[OF that] by (intro map_cong refl p(5)) auto
  have "seg qe_next qh' (qu_head (ia_sock_queue (ios' ! j))) (qu_tail (ia_sock_queue (ios' ! j))) (E' j) \<and> map (el_at qh') (E' j) = (W(to := W to @ [(fd, cid)])) j"
    if j: "j < length ios" for j
  proof (cases "j = to")
    case True
    then show ?thesis using p(3,4) m[OF t(2)] E(2)[OF t(2)] t(2) by (simp add: ios'_def E'_def ia_newNotify_def)
  next
    case False
    have "seg qe_next qh' (qu_head (ia_sock_queue (ios ! j))) (qu_tail (ia_sock_queue (ios ! j))) (E j)"
      using dj[OF j t(2) False] nb[OF j] by (intro seg_frame[OF E(1)[OF j]] p(6)) auto
    then show ?thesis using False m[OF j] E(2)[OF j] by (simp add: ios'_def E'_def)
  qed
  moreover have "set (E' i) \<inter> set (E' j) = {}" if "i < length ios" "j < length ios" "i \<noteq> j" for i j
    using dj[OF that] nb[OF that(1)] nb[OF that(2)] that(3) by (auto simp: E'_def)
  ultimately have "cl_waits (cl\<lparr>cl_core_io := ios'\<rparr>) qh' (W(to := W to @ [(fd, cid)]))"
    unfolding cl_waits_def Let_def using p(2) len by (intro conjI exI[of _ E']) simp_all
  moreover have "dispatchConnection fd cid (cl, qh, closed) = Inr (0, cl\<lparr>cl_core_io := ios'\<rparr>, qh', closed)"
    using sc(1) t lim p(1) by (simp add: dispatchConnection_def ios_def[symmetric] ios'_def)
  ultimately show ?thesis using p(7,8) unfolding ios'_def ios_def by blast
qed

lemma accept_loop_retries: "accept_loop (replicate k Accept_eintr @ evs) = accept_loop evs"
  by (induction k) simp_all

text \<open>
  C17: A socket the acceptor got, however often the call was interrupted, goes to the thread with the fewest connections, the first one if there are several: it is
  appended, with the next id, to the sockets that wait for that thread, a byte wakes the thread, and what waits for the other threads is as it was.
  Once the threads together have as many connections as the configured maximum, the socket is closed and nothing else happens.
\<close>

theorem new_socket_to_least_loaded:
  assumes "cl_waits cl qh W" "h_brk qh < h_lim qh" "cl_core_io cl \<noteq> []" "\<forall>io \<in> set (cl_core_io cl). 0 \<le> ia_conn_count io" "fd \<noteq> -1" "nonblocking_ok fd"
  shows "if total_conns (cl_core_io cl) < cl_socket_max cl
    then \<exists>to cl' qh'. least (cl_core_io cl) to \<and>
      accept_callback nonblocking_ok (replicate k Accept_eintr @ Accepted fd # evs, s, cl, qh, closed) = Inr (evs, s\<lparr>as_id := as_id s + 1\<rparr>, cl', qh', closed) \<and>
      cl_waits cl' qh' (W(to := W to @ [(fd, as_id s + 1)])) \<and>
      map ia_new_notify (cl_core_io cl') = (map ia_new_notify (cl_core_io cl))[to := Suc (ia_new_notify (cl_core_io cl ! to))]
    else accept_callback nonblocking_ok (replicate k Accept_eintr @ Accepted fd # evs, s, cl, qh, closed) =
      Inr (evs, s\<lparr>as_id := as_id s + 1\<rparr>, cl, qh, closed @ [fd])"
proof (cases "total_conns (cl_core_io cl) < cl_socket_max cl")
  case True
  obtain mn to where "least (cl_core_io cl) to" using scan_threads_ok[OF assms(3,4) True] by blast
  from dispatch_ok[OF assms(1-4) True this, of fd "as_id s + 1" closed] obtain q qh' where
    "dispatchConnection fd (as_id s + 1) (cl, qh, closed) =
      Inr (0, cl\<lparr>cl_core_io := (cl_core_io cl)[to := ia_newNotify ((cl_core_io cl ! to)\<lparr>ia_sock_queue := q\<rparr>)]\<rparr>, qh', closed)"
    "cl_waits (cl\<lparr>cl_core_io := (cl_core_io cl)[to := ia_newNotify ((cl_core_io cl ! to)\<lparr>ia_sock_queue := q\<rparr>)]\<rparr>) qh' (W(to := W to @ [(fd, as_id s + 1)]))"
    by blast
  with True assms(5,6) \<open>least (cl_core_io cl) to\<close> show ?thesis
    by (auto simp: accept_callback_def accept_socket_def service_run_def accept_loop_retries Let_def map_update ia_newNotify_def intro!: exI[of _ to])
next
  case False
  have "fst (scan_threads 0 (cl_core_io cl) (0, cl_socket_max cl, 0)) = total_conns (cl_core_io cl)" by (simp add: scan_threads_sum)
  then show ?thesis using False assms(5,6)
    by (auto simp: accept_callback_def accept_socket_def service_run_def accept_loop_retries Let_def dispatchConnection_def split: prod.splits)
qed

definition demo_cluster :: "int \<Rightarrow> IoAppCluster" where
  "demo_cluster mx = IoAppCluster_new\<lparr>cl_cluster_size := 2, cl_socket_max := mx,
     cl_core_io := [demo_io\<lparr>ia_sock_queue := qu_new, ia_conn_count := 4\<rparr>, demo_io\<lparr>ia_sock_queue := qu_new, ia_conn_count := 2\<rparr>]\<rparr>"

lemma demo_cluster_waits: "cl_waits (demo_cluster mx) (heap_empty 9) (\<lambda>_. [])"
proof -
  have "heap_ok (heap_empty 9 :: qheap)" by (simp add: heap_empty_def heap_ok_def)
  moreover have "seg qe_next (heap_empty 9) (qu_head (ia_sock_queue (cl_core_io (demo_cluster mx) ! j))) (qu_tail (ia_sock_queue (cl_core_io (demo_cluster mx) ! j))) []"
    if "j < length (cl_core_io (demo_cluster mx))" for j
    using that by (auto simp: demo_cluster_def less_Suc_eq seg_def tail_of_def qu_new_def)
  ultimately show ?thesis unfolding cl_waits_def Let_def by (intro conjI exI[of _ "\<lambda>_. []"]) simp_all
qed

lemma demo_least: "least (cl_core_io (demo_cluster mx)) to \<longleftrightarrow> to = 1"
  by (cases to) (auto simp: least_def demo_cluster_def less_Suc_eq)

theorem new_socket_to_least_loaded_witness:
  "(\<exists>cl' qh'. accept_callback (\<lambda>_. True) ([Accept_eintr, Accepted 8], \<lparr>as_listen_socket = 3, as_id = 6\<rparr>, demo_cluster 7, heap_empty 9, []) =
      Inr ([], \<lparr>as_listen_socket = 3, as_id = 7\<rparr>, cl', qh', []) \<and> cl_waits cl' qh' ((\<lambda>_. [])(1 := [(8, 7)]))) \<and>
    accept_callback (\<lambda>_. True) ([Accept_eintr, Accepted 8], \<lparr>as_listen_socket = 3, as_id = 6\<rparr>, demo_cluster 6, heap_empty 9, []) =
      Inr ([], \<lparr>as_listen_socket = 3, as_id = 7\<rparr>, demo_cluster 6, heap_empty 9, [8])"
proof -
  have f: "cl_core_io (demo_cluster mx) \<noteq> []" "\<forall>io \<in> set (cl_core_io (demo_cluster mx)). 0 \<le> ia_conn_count io" "total_conns (cl_core_io (demo_cluster mx)) = 6"
    "cl_socket_max (demo_cluster mx) = mx" for mx by (simp_all add: demo_cluster_def)
  have r: "h_brk (heap_empty 9 :: qheap) < h_lim (heap_empty 9 :: qheap)" by (simp add: heap_empty_def)
  note t = new_socket_to_least_loaded[OF demo_cluster_waits r f(1,2), of 8 "\<lambda>_. True" _ "Suc 0" "[]" "\<lparr>as_listen_socket = 3, as_id = 6\<rparr>" "[]"]
  show ?thesis using t[of 7] t[of 6] by (auto simp: f demo_least)
qed

text \<open>Both the limit and the choice look at adopted connections only, so a burst is not balanced and not limited.\<close>

primrec accept_burst :: "(int \<Rightarrow> bool) \<Rightarrow> nat \<Rightarrow> accept_ev list \<times> accept_state \<Rightarrow> (accept_ev list \<times> accept_state) res" where
  "accept_burst nonblocking_ok 0 st = Inr st"
| "accept_burst nonblocking_ok (Suc n) st = bindr (accept_callback nonblocking_ok st) (accept_burst nonblocking_ok n)"

lemma burst_ids: "zip (fd # fds) (map (\<lambda>k. (a :: 64 word) + of_nat k) [1..<Suc (length (fd # fds))]) =
  (fd, a + 1) # zip fds (map (\<lambda>k. (a + 1) + of_nat k) [1..<Suc (length fds)])"
proof -
  have "[1..<Suc (length (fd # fds))] = 1 # map Suc [1..<Suc (length fds)]" by (simp add: map_Suc_upt upt_conv_Cons del: upt_Suc)
  then show ?thesis by (simp add: comp_def algebra_simps del: upt_Suc)
qed

text \<open>
  C18: A burst of connections is neither limited nor spread. When sockets arrive faster than the io threads adopt them, every one of
  them is accepted and queued for the same thread, however many there are, as long as the connections the threads have already
  adopted are fewer than the maximum.
\<close>

theorem burst_neither_limited_nor_spread:
  assumes "cl_waits cl qh W" "h_brk qh + length fds \<le> h_lim qh" "\<forall>io \<in> set (cl_core_io cl). 0 \<le> ia_conn_count io"
    "total_conns (cl_core_io cl) < cl_socket_max cl" "least (cl_core_io cl) to" "\<forall>fd \<in> set fds. fd \<noteq> -1 \<and> nonblocking_ok fd"
  shows "\<exists>cl' qh'. accept_burst nonblocking_ok (length fds) (map Accepted fds, s, cl, qh, closed) =
      Inr ([], s\<lparr>as_id := as_id s + of_nat (length fds)\<rparr>, cl', qh', closed) \<and>
    cl_waits cl' qh' (W(to := W to @ zip fds (map (\<lambda>k. as_id s + of_nat k) [1..<Suc (length fds)])))"
  using assms
proof (induction fds arbitrary: cl qh W s)
  case Nil
  then show ?case by auto
next
  case (Cons fd fds)
  have ne: "cl_core_io cl \<noteq> []" "to < length (cl_core_io cl)" using Cons.prems(5) by (auto simp: least_def)
  have room: "h_brk qh < h_lim qh" using Cons.prems(2) by simp
  from dispatch_ok[OF Cons.prems(1) room ne(1) Cons.prems(3-5), of fd "as_id s + 1" closed] obtain q qh1 where d:
    "dispatchConnection fd (as_id s + 1) (cl, qh, closed) =
      Inr (0, cl\<lparr>cl_core_io := (cl_core_io cl)[to := ia_newNotify ((cl_core_io cl ! to)\<lparr>ia_sock_queue := q\<rparr>)]\<rparr>, qh1, closed)"
    "cl_waits (cl\<lparr>cl_core_io := (cl_core_io cl)[to := ia_newNotify ((cl_core_io cl ! to)\<lparr>ia_sock_queue := q\<rparr>)]\<rparr>) qh1 (W(to := W to @ [(fd, as_id s + 1)]))"
    "h_brk qh1 = Suc (h_brk qh)" "h_lim qh1 = h_lim qh" by blast
  define ios1 where "ios1 = (cl_core_io cl)[to := ia_newNotify ((cl_core_io cl ! to)\<lparr>ia_sock_queue := q\<rparr>)]"
  define cl1 where "cl1 = cl\<lparr>cl_core_io := ios1\<rparr>"
  define s1 where "s1 = s\<lparr>as_id := as_id s + 1\<rparr>"
  have cnt: "map ia_conn_count ios1 = map ia_conn_count (cl_core_io cl)" using ne(2) by (simp add: ios1_def map_update ia_newNotify_def list_update_same_conv)
  have len: "length ios1 = length (cl_core_io cl)" by (simp add: ios1_def)
  have nth: "ia_conn_count (ios1 ! j) = ia_conn_count (cl_core_io cl ! j)" if "j < length ios1" for j
    using cnt that len by (metis nth_map)
  have all: "(\<forall>io \<in> set ios1. P (ia_conn_count io)) = (\<forall>io \<in> set (cl_core_io cl). P (ia_conn_count io))" for P
    using arg_cong[OF cnt, of set] by (metis (no_types, lifting) image_iff set_map)
  have l1: "least ios1 to" using Cons.prems(5) len nth[of to] nth all[of "\<lambda>c. ia_conn_count (cl_core_io cl ! to) \<le> c"] unfolding least_def by auto
  have a: "accept_callback nonblocking_ok (map Accepted (fd # fds), s, cl, qh, closed) = Inr (map Accepted fds, s1, cl1, qh1, closed)"
    using Cons.prems(6) d(1) by (simp add: accept_callback_def accept_socket_def service_run_def Let_def cl1_def ios1_def s1_def)
  have f1: "cl_core_io cl1 = ios1" "cl_socket_max cl1 = cl_socket_max cl" by (simp_all add: cl1_def)
  have w1: "cl_waits cl1 qh1 (W(to := W to @ [(fd, as_id s + 1)]))" using d(2) by (simp add: cl1_def ios1_def)
  have p1: "h_brk qh1 + length fds \<le> h_lim qh1" "\<forall>io \<in> set (cl_core_io cl1). 0 \<le> ia_conn_count io" "total_conns (cl_core_io cl1) < cl_socket_max cl1"
    "least (cl_core_io cl1) to" "\<forall>fd \<in> set fds. fd \<noteq> -1 \<and> nonblocking_ok fd"
    unfolding f1 cnt using Cons.prems(2-4,6) d(3,4) all[of "\<lambda>c. 0 \<le> c"] l1 by simp_all
  from Cons.IH[OF w1 p1, of s1] obtain cl' qh' where r: "accept_burst nonblocking_ok (length fds) (map Accepted fds, s1, cl1, qh1, closed) =
      Inr ([], s1\<lparr>as_id := as_id s1 + of_nat (length fds)\<rparr>, cl', qh', closed)"
    "cl_waits cl' qh' ((W(to := W to @ [(fd, as_id s + 1)]))(to := (W(to := W to @ [(fd, as_id s + 1)])) to @ zip fds (map (\<lambda>k. as_id s1 + of_nat k) [1..<Suc (length fds)])))"
    by blast
  have "accept_burst nonblocking_ok (length (fd # fds)) (map Accepted (fd # fds), s, cl, qh, closed) =
      Inr ([], s\<lparr>as_id := as_id s + of_nat (length (fd # fds))\<rparr>, cl', qh', closed)"
    using a r(1) by (simp add: s1_def algebra_simps del: list.map)
  moreover have "cl_waits cl' qh' (W(to := W to @ zip (fd # fds) (map (\<lambda>k. as_id s + of_nat k) [1..<Suc (length (fd # fds))])))"
    using r(2) unfolding burst_ids by (simp add: s1_def)
  ultimately show ?case by blast
qed

theorem burst_neither_limited_nor_spread_witness:
  "\<exists>cl' qh'. accept_burst (\<lambda>_. True) 3 ([Accepted 8, Accepted 9, Accepted 10], \<lparr>as_listen_socket = 3, as_id = 6\<rparr>, demo_cluster 7, heap_empty 9, []) =
      Inr ([], \<lparr>as_listen_socket = 3, as_id = 9\<rparr>, cl', qh', []) \<and> cl_waits cl' qh' ((\<lambda>_. [])(1 := [(8, 7), (9, 8), (10, 9)]))"
proof -
  have f: "\<forall>io \<in> set (cl_core_io (demo_cluster 7)). 0 \<le> ia_conn_count io" "total_conns (cl_core_io (demo_cluster 7)) < cl_socket_max (demo_cluster 7)"
    by (simp_all add: demo_cluster_def)
  have r: "h_brk (heap_empty 9 :: qheap) + length [8, 9, 10 :: int] \<le> h_lim (heap_empty 9 :: qheap)" by (simp add: heap_empty_def)
  have l: "least (cl_core_io (demo_cluster 7)) 1" by (simp add: demo_least)
  have z: "zip [8, 9, 10 :: int] (map (\<lambda>k. (6 :: 64 word) + of_nat k) [1..<Suc (length [8, 9, 10 :: int])]) = [(8, 7), (9, 8), (10, 9)]"
    by (simp add: upt_rec)
  show ?thesis using burst_neither_limited_nor_spread[OF demo_cluster_waits r f l, of "\<lambda>_. True" "\<lparr>as_listen_socket = 3, as_id = 6\<rparr>" "[]"] z
    by (simp add: numeral_3_eq_3 del: accept_burst.simps)
qed

section \<open>The queues of messages\<close>

text \<open>The messages that wait for each thread.\<close>

definition cl_queues :: "IoAppCluster \<Rightarrow> mheap \<Rightarrow> (nat \<Rightarrow> addr list) \<Rightarrow> bool" where
  "cl_queues cl mh Q \<longleftrightarrow> (\<forall>j < length (cl_core_io cl). mq_holds (ia_msg_queue (cl_core_io cl ! j), mh) (Q j)) \<and>
     (\<forall>i < length (cl_core_io cl). \<forall>j < length (cl_core_io cl). i \<noteq> j \<longrightarrow> set (Q i) \<inter> set (Q j) = {})"

declare cl_queues_def [inv_defs]

lemma mq_holds_frame: "mq_holds (q, h) xs \<Longrightarrow> heap_ok h' \<Longrightarrow> (\<And>a. a \<in> set xs \<Longrightarrow> h_cells h' a = h_cells h a) \<Longrightarrow> mq_holds (q, h') xs"
  by (auto simp: mq_holds_def intro: seg_frame)

text \<open>What the threads hold apart from their queues of messages.\<close>

definition same_threads :: "IoAppCluster \<Rightarrow> IoAppCluster \<Rightarrow> bool" where
  "same_threads cl cl' \<longleftrightarrow> cl_collector cl' = cl_collector cl \<and> length (cl_core_io cl') = length (cl_core_io cl) \<and>
     (\<forall>j < length (cl_core_io cl). \<exists>q n. cl_core_io cl' ! j = (cl_core_io cl ! j)\<lparr>ia_msg_queue := q, ia_push_notify := n\<rparr>)"

lemma same_threads_refl [simp]: "same_threads cl cl"
proof -
  have "\<exists>q n. io = io\<lparr>ia_msg_queue := q, ia_push_notify := n\<rparr>" for io
    by (intro exI[of _ "ia_msg_queue io"] exI[of _ "ia_push_notify io"]) simp
  then show ?thesis unfolding same_threads_def by blast
qed

lemma same_threadsE:
  assumes "same_threads cl cl'" "j < length (cl_core_io cl)"
  obtains q n where "cl_core_io cl' ! j = (cl_core_io cl ! j)\<lparr>ia_msg_queue := q, ia_push_notify := n\<rparr>"
  using assms unfolding same_threads_def by blast

lemma same_threads_trans:
  assumes "same_threads a b" "same_threads b c"
  shows "same_threads a c"
proof -
  have "\<exists>q n. cl_core_io c ! j = (cl_core_io a ! j)\<lparr>ia_msg_queue := q, ia_push_notify := n\<rparr>" if j: "j < length (cl_core_io a)" for j
  proof -
    obtain q n where 1: "cl_core_io b ! j = (cl_core_io a ! j)\<lparr>ia_msg_queue := q, ia_push_notify := n\<rparr>" by (rule same_threadsE[OF assms(1) j])
    have "j < length (cl_core_io b)" using j assms(1) by (simp add: same_threads_def)
    then obtain q' n' where 2: "cl_core_io c ! j = (cl_core_io b ! j)\<lparr>ia_msg_queue := q', ia_push_notify := n'\<rparr>" by (rule same_threadsE[OF assms(2)])
    show ?thesis unfolding 2 1 by (intro exI[of _ q'] exI[of _ n']) simp
  qed
  then show ?thesis using assms unfolding same_threads_def by simp
qed

lemma same_threads_of:
  assumes "same_threads cl cl'" "j < length (cl_core_io cl)"
  obtains q n where "thread_of cl' j = (thread_of cl j)\<lparr>ia_msg_queue := q, ia_push_notify := n\<rparr>"
proof -
  obtain q n where "cl_core_io cl' ! j = (cl_core_io cl ! j)\<lparr>ia_msg_queue := q, ia_push_notify := n\<rparr>" by (rule same_threadsE[OF assms])
  moreover have "cl_collector cl' = cl_collector cl" using assms(1) by (simp add: same_threads_def)
  ultimately show ?thesis by (intro that[of n q]) (simp add: thread_of_def)
qed

lemma dispatchPushList_ok:
  assumes w: "cl_queues cl mh Q" and i: "i < length (cl_core_io cl)" and l: "mpath mh p ys 0" "ys \<noteq> []" and dj: "\<And>j. j < length (cl_core_io cl) \<Longrightarrow> set (Q j) \<inter> set ys = {}"
  shows "\<exists>cl' mh'. dispatchPushList i p (cl, mh) = Inr (cl', mh') \<and> cl_queues cl' mh' (Q(i := Q i @ ys)) \<and> same_threads cl cl' \<and> relinked set_next mh mh' \<and>
    (\<forall>a. a \<notin> set (Q i) \<longrightarrow> h_cells mh' a = h_cells mh a)"
proof -
  define ios where "ios = cl_core_io cl"
  note i' = i[folded ios_def]
  have q0: "mq_holds (ia_msg_queue (ios ! j), mh) (Q j)" if "j < length ios" for j using w that by (simp add: cl_queues_def ios_def)
  have qd: "set (Q a) \<inter> set (Q b) = {}" if "a < length ios" "b < length ios" "a \<noteq> b" for a b using w that unfolding cl_queues_def ios_def by blast
  from mq_put_ok[OF q0[OF i'] l dj[OF i]] obtain q mh' where p: "mq_put p (ia_msg_queue (ios ! i), mh) = Inr (q, mh')" "mq_holds (q, mh') (Q i @ ys)"
    "relinked set_next mh mh'" "\<And>a. a \<notin> set (Q i) \<Longrightarrow> h_cells mh' a = h_cells mh a" by blast
  define ios' where "ios' = ios[i := ia_pushNotify ((ios ! i)\<lparr>ia_msg_queue := q\<rparr>)]"
  have ok: "heap_ok mh'" using p(2) by (simp add: mq_holds_def)
  have "dispatchPushList i p (cl, mh) = Inr (cl\<lparr>cl_core_io := ios'\<rparr>, mh')" using i p(1) by (simp add: dispatchPushList_def ios'_def ios_def)
  moreover have "mq_holds (ia_msg_queue (ios' ! j), mh') ((Q(i := Q i @ ys)) j)" if j: "j < length ios" for j
  proof (cases "j = i")
    case True
    then show ?thesis using p(2) i' by (simp add: ios'_def ia_pushNotify_def)
  next
    case False
    have "mq_holds (ia_msg_queue (ios ! j), mh') (Q j)" using qd[OF j i' False] by (intro mq_holds_frame[OF q0[OF j] ok] p(4)) auto
    then show ?thesis using False by (simp add: ios'_def)
  qed
  moreover have "set ((Q(i := Q i @ ys)) a) \<inter> set ((Q(i := Q i @ ys)) b) = {}" if "a < length ios" "b < length ios" "a \<noteq> b" for a b
    using qd[OF that] dj[of a] dj[of b] that by (auto simp: ios_def)
  moreover have "same_threads cl (cl\<lparr>cl_core_io := ios'\<rparr>)"
  proof -
    have "\<exists>q' n. ios' ! j = (ios ! j)\<lparr>ia_msg_queue := q', ia_push_notify := n\<rparr>" if "j < length ios" for j
    proof (cases "j = i")
      case True
      then show ?thesis using i' by (intro exI[of _ q] exI[of _ "Suc (ia_push_notify (ios ! i))"]) (simp add: ios'_def ia_pushNotify_def)
    next
      case False
      then show ?thesis by (intro exI[of _ "ia_msg_queue (ios ! j)"] exI[of _ "ia_push_notify (ios ! j)"]) (simp add: ios'_def)
    qed
    then show ?thesis by (simp add: same_threads_def ios_def[symmetric] ios'_def)
  qed
  moreover have "length ios' = length ios" by (simp add: ios'_def)
  ultimately show ?thesis using p(3,4) by (intro exI[of _ "cl\<lparr>cl_core_io := ios'\<rparr>"] exI[of _ mh']) (simp add: cl_queues_def)
qed

lemma dispatch_all_ok:
  assumes "cl_queues cl mh Q" "distinct (map fst outs)" "\<And>i p. (i, p) \<in> set outs \<Longrightarrow> i < length (cl_core_io cl) \<and> mpath mh p (Y i) 0 \<and> Y i \<noteq> []"
    "\<And>i j. i \<in> fst ` set outs \<Longrightarrow> j < length (cl_core_io cl) \<Longrightarrow> set (Q j) \<inter> set (Y i) = {}" "\<And>i j. i \<noteq> j \<Longrightarrow> set (Y i) \<inter> set (Y j) = {}"
  shows "\<exists>cl' mh'. dispatch_all outs (cl, mh) = Inr (cl', mh') \<and> cl_queues cl' mh' (\<lambda>j. Q j @ (if j \<in> fst ` set outs then Y j else [])) \<and>
    same_threads cl cl' \<and> relinked set_next mh mh' \<and> (\<forall>a. (\<forall>j < length (cl_core_io cl). a \<notin> set (Q j)) \<longrightarrow> h_cells mh' a = h_cells mh a)"
proof -
  have "\<exists>cl' mh'. dispatch_all outs (cl, mh) = Inr (cl', mh') \<and> cl_queues cl' mh' (\<lambda>j. Q j @ (if j \<in> fst ` set outs then Y j else [])) \<and>
    same_threads cl cl' \<and> relinked set_next mh mh' \<and> (\<forall>a. (\<forall>j \<in> fst ` set outs. a \<notin> set (Q j)) \<longrightarrow> h_cells mh' a = h_cells mh a)"
    using assms(1-4)
  proof (induction outs arbitrary: cl mh Q)
    case Nil
    then show ?case by (auto simp: dispatch_all_def)
  next
    case (Cons ip outs)
    obtain i p where ip: "ip = (i, p)" by (cases ip)
    have i: "i < length (cl_core_io cl)" "mpath mh p (Y i) 0" "Y i \<noteq> []" using Cons.prems(3)[of i p] ip by auto
    have dq: "set (Q j) \<inter> set (Y i) = {}" if "j < length (cl_core_io cl)" for j using Cons.prems(4)[OF _ that] ip by simp
    from dispatchPushList_ok[OF Cons.prems(1) i dq] obtain cl1 mh1 where d: "dispatchPushList i p (cl, mh) = Inr (cl1, mh1)"
      "cl_queues cl1 mh1 (Q(i := Q i @ Y i))" "same_threads cl cl1" "relinked set_next mh mh1" "\<And>a. a \<notin> set (Q i) \<Longrightarrow> h_cells mh1 a = h_cells mh a" by blast
    have len: "length (cl_core_io cl1) = length (cl_core_io cl)" using d(3) by (simp add: same_threads_def)
    have ni: "i \<notin> fst ` set outs" "distinct (map fst outs)" using Cons.prems(2) ip by auto
    have 1: "j < length (cl_core_io cl1) \<and> mpath mh1 p' (Y j) 0 \<and> Y j \<noteq> []" if "(j, p') \<in> set outs" for j p'
    proof -
      have m: "mpath mh p' (Y j) 0" "j < length (cl_core_io cl)" "Y j \<noteq> []" using Cons.prems(3)[of j p'] that by auto
      have "j \<in> fst ` set (ip # outs)" using that by force
      from Cons.prems(4)[OF this i(1)] have "mpath mh1 p' (Y j) 0" by (intro path_frame[OF m(1)] d(5)) auto
      then show ?thesis using m len by simp
    qed
    have 2: "set ((Q(i := Q i @ Y i)) j) \<inter> set (Y k) = {}" if "k \<in> fst ` set outs" "j < length (cl_core_io cl1)" for j k
    proof -
      have "k \<noteq> i" "k \<in> fst ` set (ip # outs)" using that(1) ni(1) by auto
      then show ?thesis using Cons.prems(4)[of k j] assms(5)[of i k] that(2) len by auto
    qed
    from Cons.IH[OF d(2) ni(2) 1 2] obtain cl' mh' where r: "dispatch_all outs (cl1, mh1) = Inr (cl', mh')"
      "cl_queues cl' mh' (\<lambda>j. (Q(i := Q i @ Y i)) j @ (if j \<in> fst ` set outs then Y j else []))" "same_threads cl1 cl'" "relinked set_next mh1 mh'"
      "\<And>a. \<forall>j \<in> fst ` set outs. a \<notin> set ((Q(i := Q i @ Y i)) j) \<Longrightarrow> h_cells mh' a = h_cells mh1 a" by blast
    have "dispatch_all (ip # outs) (cl, mh) = Inr (cl', mh')" using d(1) r(1) by (simp add: dispatch_all_def ip)
    moreover have "(\<lambda>j. (Q(i := Q i @ Y i)) j @ (if j \<in> fst ` set outs then Y j else [])) = (\<lambda>j. Q j @ (if j \<in> fst ` set (ip # outs) then Y j else []))"
      using ni(1) by (auto simp: ip)
    moreover have "h_cells mh' a = h_cells mh a" if a: "\<forall>j \<in> fst ` set (ip # outs). a \<notin> set (Q j)" for a
    proof -
      have "h_cells mh' a = h_cells mh1 a" using a ni(1) by (intro r(5)) auto
      also have "\<dots> = h_cells mh a" using a by (intro d(5)) (simp add: ip)
      finally show ?thesis .
    qed
    ultimately show ?case using r(2) same_threads_trans[OF d(3) r(3)] relinked_trans[OF d(4) r(4)] by auto
  qed
  then show ?thesis using assms(3) by fastforce
qed

end
