(* ===== verification/Parser.thy ===== *)
theory Parser
  imports Routing
begin

text \<open>
  The packs clients and servers exchange (\<open>proto/im.proto\<close>) and the parser over them,
  \<open>message/im_message_parser.h\<close> and \<open>im_message_parser.cpp\<close>.

  A pack is a record with an option for every field that may be absent. The generated protobuf code is not
  modelled: \<open>ser\<close> stands for its serialiser and \<open>dec\<close> for \<open>ParseFromArray\<close>; that \<open>dec\<close> reads back what
  \<open>ser\<close> writes is the named hypothesis \<open>codec\<close>. \<open>ByteSize\<close> is the length of what is written.
\<close>

section \<open>Packs\<close>

datatype ImMsgLogicType = IM_REQUEST | IM_RESPONSE

datatype ImPackType = IM_UNKNOW | IM_TOUCH | IM_TOUCH_ACK | IM_MSG | IM_MSG_ACK | IM_AUTH | IM_AUTH_RESPONSE

record ImMsg =
  im_uid :: "int option"
  im_seq :: "int option"
  im_target_uid :: "int list"
  im_type :: "ImMsgLogicType option"
  im_msg_id :: "byte list option"
  im_points :: "32 word option"
  im_timeout :: "int option"
  im_text_content :: "byte list option"
  im_pic_id :: "string option"
  im_vid_id :: "string option"
  im_loc_word :: "byte list option"

record ImMsgAck =
  ack_msg_id :: "byte list option"
  ack_seq :: "int option"

record ImAuthRequest =
  req_uid :: "int option"
  req_token :: "string option"

record ImAuthResponse =
  rep_token :: "string option"
  rep_auth_success :: "bool option"

text \<open>\<open>ImTouch\<close> and \<open>ImTouchResponse\<close> have the user as their only field.\<close>

record ImPackContent =
  c_touch :: "int option option"
  c_touch_rep :: "int option option"
  c_msg :: "ImMsg option"
  c_msg_ack :: "ImMsgAck option"
  c_auth_req :: "ImAuthRequest option"
  c_auth_rep :: "ImAuthResponse option"

record ImPack =
  p_type :: "ImPackType option"
  p_content :: "ImPackContent option"
  p_ts :: "int option"

definition empty_msg :: ImMsg where
  "empty_msg = \<lparr>im_uid = None, im_seq = None, im_target_uid = [], im_type = None, im_msg_id = None, im_points = None,
     im_timeout = None, im_text_content = None, im_pic_id = None, im_vid_id = None, im_loc_word = None\<rparr>"

definition empty_content :: ImPackContent where
  "empty_content = \<lparr>c_touch = None, c_touch_rep = None, c_msg = None, c_msg_ack = None, c_auth_req = None, c_auth_rep = None\<rparr>"

text \<open>The accessors \<open>content()\<close>, \<open>msg()\<close> and so on give the default instance for an absent field.\<close>

definition content_of :: "ImPack \<Rightarrow> ImPackContent" where
  "content_of p = (case p_content p of None \<Rightarrow> empty_content | Some c \<Rightarrow> c)"

definition msg_of :: "ImPack \<Rightarrow> ImMsg" where
  "msg_of p = (case c_msg (content_of p) of None \<Rightarrow> empty_msg | Some m \<Rightarrow> m)"

definition getd :: "'a \<Rightarrow> 'a option \<Rightarrow> 'a" where
  "getd d x = (case x of None \<Rightarrow> d | Some v \<Rightarrow> v)"

text \<open>\<open>mutable_content()->mutable_msg()\<close>\<close>

definition mutable_msg :: "(ImMsg \<Rightarrow> ImMsg) \<Rightarrow> ImPack \<Rightarrow> ImPack" where
  "mutable_msg f p = p\<lparr>p_content := Some ((content_of p)\<lparr>c_msg := Some (f (msg_of p))\<rparr>)\<rparr>"

datatype IMessagePackType = UNKNOW | TOUCH | MSG | MSG_ACK | AUTH

record IMessagePack =
  pk_msg :: addr
  pk_data :: ImPack
  pk_type :: int

section \<open>Parsing\<close>

text \<open>\<open>new IMessagePack\<close> runs the constructor of the pack and leaves \<open>_type\<close> as the allocator returned it, the argument
  \<open>junk\<close>; the pack itself is deleted by the caller and never shared, so it is a value.\<close>

definition createIMessagePack :: "int \<Rightarrow> addr \<Rightarrow> ImPack \<Rightarrow> IMessagePack" where
  "createIMessagePack junk msg data = \<lparr>pk_msg = msg, pk_data = data, pk_type = junk\<rparr>"

definition parse :: "(byte list \<Rightarrow> ImPack option) \<Rightarrow> int \<Rightarrow> addr \<Rightarrow> mheap \<Rightarrow> IMessagePack option res" where
  "parse dec junk msg h = bindr (hget h msg) (\<lambda>m. bindr (load_data m) (\<lambda>bs.
     Inr (case dec bs of None \<Rightarrow> None
        | Some data \<Rightarrow> if p_type data \<noteq> None \<and> p_content data \<noteq> None
            then Some (createIMessagePack junk msg data) else None)))"

definition getMessagePackType :: "IMessagePack \<Rightarrow> IMessagePackType" where
  "getMessagePackType pack = (case getd IM_UNKNOW (p_type (pk_data pack)) of
      IM_UNKNOW \<Rightarrow> UNKNOW | IM_TOUCH \<Rightarrow> TOUCH | IM_MSG \<Rightarrow> MSG | IM_MSG_ACK \<Rightarrow> MSG_ACK | IM_AUTH \<Rightarrow> AUTH | _ \<Rightarrow> UNKNOW)"

definition TIMESTAMP_20150101000000 :: int where
  "TIMESTAMP_20150101000000 = 1420041600"

text \<open>The difference is taken in 32 bits and wraps around.\<close>

definition checkTimeStamp :: "IMessagePack \<Rightarrow> mheap \<Rightarrow> int res" where
  "checkTimeStamp pack h = bindr (hget h (pk_msg pack)) (\<lambda>m. bindr (init_of (m_gen_time m)) (\<lambda>(sec, usec).
     let pack_ts = getd 0 (p_ts (pk_data pack));
         now_ts = s32 (sec - TIMESTAMP_20150101000000)
     in Inr (if s32 (now_ts - pack_ts) > 30 then -1 else 0)))"

definition getTouchPackUid :: "IMessagePack \<Rightarrow> int" where
  "getTouchPackUid pack = (case c_touch (content_of (pk_data pack)) of Some (Some uid) \<Rightarrow> uid | _ \<Rightarrow> -1)"

definition getAuthPackUid :: "IMessagePack \<Rightarrow> int" where
  "getAuthPackUid pack = (case c_auth_req (content_of (pk_data pack)) of None \<Rightarrow> -1 | Some r \<Rightarrow> getd (-1) (req_uid r))"

definition getAuthPackToken :: "IMessagePack \<Rightarrow> string" where
  "getAuthPackToken pack = (case c_auth_req (content_of (pk_data pack)) of None \<Rightarrow> [] | Some r \<Rightarrow> getd [] (req_token r))"

definition getMsgPackUser :: "IMessagePack \<Rightarrow> int" where
  "getMsgPackUser pack = (case c_msg (content_of (pk_data pack)) of None \<Rightarrow> -1 | Some m \<Rightarrow> getd (-1) (im_uid m))"

definition getMsgPackTargetUserCount :: "IMessagePack \<Rightarrow> int" where
  "getMsgPackTargetUserCount pack = int (length (im_target_uid (msg_of (pk_data pack))))"

text \<open>The caller's array has room for \<open>cnt\<close> users; what is written is the returned prefix.\<close>

definition getMsgPackTargetUser :: "IMessagePack \<Rightarrow> int \<Rightarrow> int list \<times> int" where
  "getMsgPackTargetUser pack cnt = (let us = im_target_uid (msg_of (pk_data pack));
     n = (if int (length us) > cnt then cnt else int (length us)) in (take (nat n) us, n))"

section \<open>Building packs\<close>

definition stamp :: "int \<Rightarrow> int" where
  "stamp now = s32 (now - TIMESTAMP_20150101000000)"

definition touch_ack_pack :: "int \<Rightarrow> int \<Rightarrow> ImPack" where
  "touch_ack_pack now uid = \<lparr>p_type = Some IM_TOUCH_ACK,
     p_content = Some (empty_content\<lparr>c_touch_rep := Some (Some uid)\<rparr>), p_ts = Some (stamp now)\<rparr>"

definition auth_pack :: "int \<Rightarrow> string \<Rightarrow> ImPack" where
  "auth_pack now token = \<lparr>p_type = Some IM_AUTH_RESPONSE,
     p_content = Some (empty_content\<lparr>c_auth_rep := Some \<lparr>rep_token = Some token, rep_auth_success = Some True\<rparr>\<rparr>), p_ts = Some (stamp now)\<rparr>"

definition msg_ack_pack :: "int \<Rightarrow> byte list \<Rightarrow> int \<Rightarrow> ImPack" where
  "msg_ack_pack now msg_id seq = \<lparr>p_type = Some IM_MSG_ACK,
     p_content = Some (empty_content\<lparr>c_msg_ack := Some \<lparr>ack_msg_id = Some msg_id, ack_seq = Some seq\<rparr>\<rparr>), p_ts = Some (stamp now)\<rparr>"

text \<open>The common end of the two replies that reuse the request's message: \<open>fixIMessage\<close>, the two fields, the bytes.\<close>

definition reply_in :: "(ImPack \<Rightarrow> byte list) \<Rightarrow> ImPack \<Rightarrow> int \<Rightarrow> addr \<Rightarrow> mheap \<Rightarrow> mheap res" where
  "reply_in ser data uid msg h = bindr (fixIMessage msg (int (length (ser data))) h) (\<lambda>h.
     bindr (hmod h msg (\<lambda>m. m\<lparr>m_uid := uid, m_need_collect := False\<rparr>)) (store_data msg (ser data)))"

definition createTouchAckPack :: "(ImPack \<Rightarrow> byte list) \<Rightarrow> int \<Rightarrow> int \<Rightarrow> IMessagePack \<Rightarrow> mheap \<Rightarrow> (addr \<times> mheap) res" where
  "createTouchAckPack ser now uid pack h =
     bindr (reply_in ser (touch_ack_pack now uid) uid (pk_msg pack) h) (\<lambda>h. Inr (pk_msg pack, h))"

definition createAuthPack :: "(ImPack \<Rightarrow> byte list) \<Rightarrow> int \<Rightarrow> int \<Rightarrow> IMessagePack \<Rightarrow> mheap \<Rightarrow> (addr \<times> mheap) res" where
  "createAuthPack ser now uid pack h =
     (let token = (case c_auth_req (content_of (pk_data pack)) of None \<Rightarrow> [] | Some r \<Rightarrow> getd [] (req_token r)) in
      bindr (reply_in ser (auth_pack now token) uid (pk_msg pack) h) (\<lambda>h. Inr (pk_msg pack, h)))"

definition createMsgAckPack :: "(ImPack \<Rightarrow> byte list) \<Rightarrow> int \<Rightarrow> IMessagePack \<Rightarrow> int \<Rightarrow> byte list \<Rightarrow> mheap \<Rightarrow>
    (addr \<times> IMessagePack \<times> mheap) res" where
  "createMsgAckPack ser now pack uid msg_id h =
     (let seq = getd 0 (im_seq (msg_of (pk_data pack)));
          request = getd IM_REQUEST (im_type (msg_of (pk_data pack))) = IM_REQUEST;
          data = (if request then mutable_msg (\<lambda>m. m\<lparr>im_msg_id := Some msg_id\<rparr>) (pk_data pack) else pk_data pack);
          pack = pack\<lparr>pk_type := (if request then 1 else 2), pk_data := data\<rparr>;
          ret = msg_ack_pack now msg_id seq
      in bindr (if request then bindr (fixIMessage (pk_msg pack) (int (length (ser data))) h) (store_data (pk_msg pack) (ser data))
                else Inr h) (\<lambda>h.
         bindr (hget h (pk_msg pack)) (\<lambda>in_msg.
         bindr (createIMessage_len (int (length (ser ret))) h) (\<lambda>(msg, h).
         bindr (hmod h msg (\<lambda>m. m\<lparr>m_uid := uid, m_io := m_io in_msg, m_conn := m_conn in_msg, m_need_collect := False\<rparr>)) (\<lambda>h.
         bindr (store_data msg (ser ret) h) (\<lambda>h. Inr (msg, pack, h)))))))"

text \<open>The fields of a message for one target user.\<close>

definition address_to :: "int \<Rightarrow> int \<Rightarrow> MESSAGE_SOURCE \<Rightarrow> MESSAGE_SOURCE \<Rightarrow> IMessage \<Rightarrow> IMessage" where
  "address_to uid type from to m = m\<lparr>m_uid := uid, m_need_collect := True, m_type := word_of_int type,
     m_from := Some (source_bits from), m_to := Some (source_bits to)\<rparr>"

definition to_target :: "int \<Rightarrow> ImPack \<Rightarrow> ImPack" where
  "to_target uid = mutable_msg (\<lambda>m. m\<lparr>im_target_uid := [uid]\<rparr>)"

text \<open>A new message for one target, linked behind \<open>prev\<close> (\<open>trans\<close> in the code): the body of both fan-out loops.\<close>

definition fan_one :: "(ImPack \<Rightarrow> byte list) \<Rightarrow> ImPack \<Rightarrow> int \<Rightarrow> MESSAGE_SOURCE \<Rightarrow> int \<Rightarrow> mheap \<Rightarrow> (addr \<times> mheap) res" where
  "fan_one ser data type from uid h = (let bs = ser (to_target uid data) in
     bindr (createIMessage_len (int (length bs)) h) (\<lambda>(msg, h).
     bindr (hmod h msg (address_to uid type from APP)) (\<lambda>h.
     bindr (store_data msg bs h) (\<lambda>h. Inr (msg, h)))))"

primrec fan_loop :: "(ImPack \<Rightarrow> byte list) \<Rightarrow> ImPack \<Rightarrow> int \<Rightarrow> MESSAGE_SOURCE \<Rightarrow> int list \<Rightarrow> addr \<Rightarrow> mheap \<Rightarrow> mheap res" where
  "fan_loop ser data type from [] prev h = Inr h"
| "fan_loop ser data type from (uid # uids) prev h = bindr (fan_one ser data type from uid h) (\<lambda>(msg, h).
     bindr (hmod h prev (set_next msg)) (fan_loop ser data type from uids msg))"

text \<open>The loop of \<open>createLocalMsgPack(pack)\<close> over the indices of its array, one more message for each.\<close>

primrec local_loop :: "(ImPack \<Rightarrow> byte list) \<Rightarrow> ImPack \<Rightarrow> int \<Rightarrow> int option list \<Rightarrow> nat list \<Rightarrow> addr \<Rightarrow> mheap \<Rightarrow> mheap res" where
  "local_loop ser data type target_uid [] prev h = Inr h"
| "local_loop ser data type target_uid (i # is) prev h = bindr (arr_at target_uid i) (\<lambda>uid.
     bindr (fan_one ser data type BACKEND uid h) (\<lambda>(msg, h).
     bindr (hmod h prev (set_next msg)) (local_loop ser data type target_uid is msg)))"

text \<open>\<open>createLocalMsgPack(pack)\<close>: the targets are copied to an array of \<open>TARGET_MAX\<close> cells with no check of the bound, then the
  request's message becomes the one for the first target and the others follow in a chain. The array belongs to the
  thread and is allocated once; what an earlier call left in it is never read, so a call starts with cells of no known
  value.\<close>

definition TARGET_MAX :: nat where
  "TARGET_MAX = 1024"

definition createLocalMsgPack :: "(ImPack \<Rightarrow> byte list) \<Rightarrow> IMessagePack \<Rightarrow> mheap \<Rightarrow> (addr \<times> mheap) res" where
  "createLocalMsgPack ser pack h = (let uids = im_target_uid (msg_of (pk_data pack)); target_uid_count = length uids in
     if target_uid_count \<le> 0 then Inr (0, h)
     else bindr (arr_fill 0 uids (replicate TARGET_MAX None)) (\<lambda>target_uid.
       bindr (arr_at target_uid 0) (\<lambda>uid. let req_msg = pk_msg pack; bs = ser (to_target uid (pk_data pack)) in
       bindr (fixIMessage req_msg (int (length bs)) h) (\<lambda>h.
       bindr (hmod h req_msg (address_to uid (pk_type pack) BACKEND APP)) (\<lambda>h.
       bindr (store_data req_msg bs h) (\<lambda>h.
       bindr (local_loop ser (pk_data pack) (pk_type pack) target_uid [1..<target_uid_count] req_msg h) (\<lambda>h.
       Inr (req_msg, h))))))))"

text \<open>\<open>createLocalMsgPack(pack, uid, count, msg_id, len)\<close>: the list starts at the \<open>_next\<close> of a message on the stack; the
  caller's array is the list \<open>uids\<close>.\<close>

definition createLocalMsgPack_uids :: "(ImPack \<Rightarrow> byte list) \<Rightarrow> IMessagePack \<Rightarrow> int list \<Rightarrow> byte list \<Rightarrow> mheap \<Rightarrow> (addr \<times> mheap) res" where
  "createLocalMsgPack_uids ser pack uids msg_id h =
     (let data = mutable_msg (\<lambda>m. m\<lparr>im_msg_id := Some msg_id\<rparr>) (pk_data pack) in
      case uids of [] \<Rightarrow> Inr (0, h)
      | uid # uids \<Rightarrow> bindr (fan_one ser data (pk_type pack) APP uid h) (\<lambda>(msg, h).
          bindr (fan_loop ser data (pk_type pack) APP uids msg h) (\<lambda>h. Inr (msg, h))))"

text \<open>The message of \<open>createRemoteMsgPack\<close> keeps the user the constructor gave it.\<close>

definition createRemoteMsgPack :: "(ImPack \<Rightarrow> byte list) \<Rightarrow> IMessagePack \<Rightarrow> int list \<Rightarrow> byte list \<Rightarrow> mheap \<Rightarrow> (addr \<times> mheap) res" where
  "createRemoteMsgPack ser pack uids msg_id h =
     (let bs = ser (mutable_msg (\<lambda>m. m\<lparr>im_target_uid := uids, im_msg_id := Some msg_id\<rparr>) (pk_data pack)) in
      bindr (createIMessage_len (int (length bs)) h) (\<lambda>(msg, h).
      bindr (hmod h msg (\<lambda>m. m\<lparr>m_need_collect := True, m_type := word_of_int (pk_type pack),
         m_from := Some (source_bits APP), m_to := Some (source_bits BACKEND)\<rparr>)) (\<lambda>h.
      bindr (store_data msg bs h) (\<lambda>h. Inr (msg, h)))))"

definition createPendingMsgPack :: "(ImPack \<Rightarrow> byte list) \<Rightarrow> IMessagePack \<Rightarrow> int \<Rightarrow> byte list \<Rightarrow> mheap \<Rightarrow> (addr \<times> mheap) res" where
  "createPendingMsgPack ser pack uid msg_id h =
     (let bs = ser (mutable_msg (\<lambda>m. m\<lparr>im_target_uid := [uid], im_msg_id := Some msg_id\<rparr>) (pk_data pack)) in
      bindr (createIMessage_len (int (length bs)) h) (\<lambda>(msg, h).
      bindr (hmod h msg (address_to uid (pk_type pack) APP MESSAGE_SOURCE.UNKNOWN)) (\<lambda>h.
      bindr (store_data msg bs h) (\<lambda>h. Inr (msg, h)))))"

end
