(* ===== verification/Util.thy ===== *)
theory Util
  imports Prelude
begin

unbundle bit_operations_syntax

text \<open>
  The helpers of \<open>framework/lib/util.h\<close> and \<open>util.cpp\<close>: the counter and the identifier layout of messages, the two hash functions, the
  host address and the service identifier built from it, and the decimal printing of 64 bit integers.

  The network interfaces the system reports are an argument of \<open>gethost\<close>.
\<close>

section \<open>Message identifiers\<close>

record MessageIdDetail =
  id_time :: "32 word"
  id_rand1 :: "12 word"
  id_tid :: "20 word"
  id_host_id :: "32 word"
  id_counter :: "16 word"
  id_rand2 :: "16 word"

text \<open>The bytes of the union \<open>MessageId\<close>; the bit fields fill each 32 bit unit from its low end.\<close>

definition le_bytes :: "32 word \<Rightarrow> byte list" where
  "le_bytes w = [ucast w, ucast (drop_bit 8 w), ucast (drop_bit 16 w), ucast (drop_bit 24 w)]"

definition MessageId_bytes :: "MessageIdDetail \<Rightarrow> byte list" where
  "MessageId_bytes d = le_bytes (id_time d) @ le_bytes (ucast (id_rand1 d) OR push_bit 12 (ucast (id_tid d))) @
     le_bytes (id_host_id d) @ le_bytes (ucast (id_counter d) OR push_bit 16 (ucast (id_rand2 d)))"

record Counter =
  ct_count :: "32 word"
  ct_second :: int

definition Counter_new :: "int \<Rightarrow> Counter" where
  "Counter_new now = \<lparr>ct_count = 0, ct_second = now\<rparr>"

definition Counter_get :: "int \<Rightarrow> Counter \<Rightarrow> 32 word \<times> Counter" where
  "Counter_get t c = (if t \<noteq> ct_second c then (1, \<lparr>ct_count = 1, ct_second = t\<rparr>)
     else (ct_count c + 1, c\<lparr>ct_count := ct_count c + 1\<rparr>))"

section \<open>Hash functions\<close>

text \<open>\<open>char\<close> is signed: the byte is sign extended before it is added.\<close>

definition bkdrHash :: "byte list \<Rightarrow> 32 word" where
  "bkdrHash str = fold (\<lambda>c hash. hash * 131 + scast c) str 0 AND 0x7FFFFFFF"

definition murmur_m :: "32 word" where
  "murmur_m = 0x5bd1e995"

definition murmur_mix :: "32 word \<Rightarrow> 32 word" where
  "murmur_mix k = (let k = k * murmur_m; k = k XOR drop_bit 24 k in k * murmur_m)"

definition rd_word :: "byte list \<Rightarrow> 32 word" where
  "rd_word bs = ucast (bs ! 0) OR push_bit 8 (ucast (bs ! 1)) OR push_bit 16 (ucast (bs ! 2)) OR push_bit 24 (ucast (bs ! 3))"

text \<open>The loop takes eight bytes a round; the bytes at \<open>data\<close> are the rest of the key.\<close>

fun murmur_loop :: "byte list \<Rightarrow> 32 word \<times> 32 word \<Rightarrow> byte list \<times> 32 word \<times> 32 word" where
  "murmur_loop data (h1, h2) = (if 8 \<le> length data
     then murmur_loop (drop 8 data) ((h1 * murmur_m) XOR murmur_mix (rd_word data), (h2 * murmur_m) XOR murmur_mix (rd_word (drop 4 data)))
     else (data, h1, h2))"

declare murmur_loop.simps [simp del]

definition murmur_tail :: "byte list \<Rightarrow> 32 word \<Rightarrow> 32 word" where
  "murmur_tail data h2 =
    (let h2 = (if length data = 3 then h2 XOR push_bit 16 (ucast (data ! 2)) else h2);
         h2 = (if 2 \<le> length data then h2 XOR push_bit 8 (ucast (data ! 1)) else h2)
     in if 1 \<le> length data then (h2 XOR ucast (data ! 0)) * murmur_m else h2)"

definition murmurHash64B :: "byte list \<Rightarrow> 32 word \<Rightarrow> 64 word" where
  "murmurHash64B key seed =
    (let (data, h1, h2) = murmur_loop key (seed XOR word_of_nat (length key), 0);
         (data, h1) = (if 4 \<le> length data then (drop 4 data, (h1 * murmur_m) XOR murmur_mix (rd_word data)) else (data, h1));
         h2 = murmur_tail data h2;
         h1 = (h1 XOR drop_bit 18 h2) * murmur_m;
         h2 = (h2 XOR drop_bit 22 h1) * murmur_m;
         h1 = (h1 XOR drop_bit 17 h2) * murmur_m;
         h2 = (h2 XOR drop_bit 19 h1) * murmur_m
     in push_bit 32 (ucast h1) OR ucast h2)"

section \<open>Host address\<close>

text \<open>An interface has no address, an address of another family, or an IPv4 address in network order.\<close>

datatype ifaddr = No_addr | Other_family | Inet "32 word"

definition ip0 :: "32 word \<Rightarrow> byte" where
  "ip0 ip = ucast ip"

text \<open>The loop over the interfaces; \<open>addr\<close> keeps the last IPv4 address seen, and is indeterminate before the first.\<close>

primrec gethost_loop :: "ifaddr list \<Rightarrow> 32 word option \<Rightarrow> 32 word option res" where
  "gethost_loop [] addr = Inr addr"
| "gethost_loop (i # is) addr = (case i of No_addr \<Rightarrow> Inl Null_deref
     | Other_family \<Rightarrow> gethost_loop is addr
     | Inet ip \<Rightarrow> if ip0 ip \<noteq> 127 then Inr (Some ip) else gethost_loop is (Some ip))"

text \<open>\<open>eth\<close> is \<open>None\<close> for the null pointer, otherwise the result of the \<open>ioctl\<close> on the named interface.\<close>

definition gethost :: "32 word option option \<Rightarrow> ifaddr list \<Rightarrow> 32 word res" where
  "gethost eth ifs = (case eth of Some r \<Rightarrow> init_of r
     | None \<Rightarrow> bindr (gethost_loop ifs None) init_of)"

definition buildServiceID :: "32 word \<Rightarrow> 16 word \<Rightarrow> 64 word" where
  "buildServiceID ip port = push_bit 32 (ucast ip) + ucast port"

section \<open>Decimal printing\<close>

text \<open>\<open>Uint64ToString\<close> writes the digits from the least significant one and turns them round; \<open>k\<close> is the room left in the array.\<close>

primrec u64_loop :: "nat \<Rightarrow> 64 word \<Rightarrow> char list \<Rightarrow> char list res" where
  "u64_loop 0 i out = Inl Out_of_bounds"
| "u64_loop (Suc k) i out = (let lsd = i mod 10; i = i div 10; out = out @ [char_of (48 + unat lsd)] in
     if i \<noteq> 0 then u64_loop k i out else Inr out)"

definition Uint64ToString :: "64 word \<Rightarrow> string res" where
  "Uint64ToString value = bindr (u64_loop 31 value []) (\<lambda>out. Inr (rev out))"

definition s64 :: "int \<Rightarrow> int" where
  "s64 v = (v + 2 ^ 63) mod 2 ^ 64 - 2 ^ 63"

definition quot10 :: "int \<Rightarrow> int" where
  "quot10 v = (if 0 \<le> v then v div 10 else - ((- v) div 10))"

text \<open>\<open>LLToStr\<close> writes backwards from the end of the array, a character is an 8 bit value.\<close>

primrec LLToStr :: "nat \<Rightarrow> int \<Rightarrow> string \<Rightarrow> string res" where
  "LLToStr 0 value ptr = Inl Out_of_bounds"
| "LLToStr (Suc k) value ptr = (let t = quot10 value; ptr = char_of (nat ((48 + value - 10 * t) mod 256)) # ptr in
     if t \<noteq> 0 then LLToStr k t ptr else Inr ptr)"

text \<open>The negation of the smallest value wraps around.\<close>

definition Int64ToString :: "int \<Rightarrow> string res" where
  "Int64ToString value = (if 0 \<le> value then LLToStr 31 value []
     else bindr (LLToStr 31 (s64 (- value)) []) (\<lambda>s. Inr (CHR ''-'' # s)))"

section \<open>Reading decimals\<close>

definition digit :: "char \<Rightarrow> bool" where
  "digit c \<longleftrightarrow> 48 \<le> (of_char c :: nat) \<and> (of_char c :: nat) \<le> 57"

definition dec_val :: "string \<Rightarrow> nat" where
  "dec_val s = fold (\<lambda>c n. 10 * n + (of_char c - 48)) s 0"

fun read_int :: "string \<Rightarrow> int option" where
  "read_int (c # s) = (if c = CHR ''-'' then (if s \<noteq> [] \<and> list_all digit s then Some (- int (dec_val s)) else None)
     else if list_all digit (c # s) then Some (int (dec_val (c # s))) else None)"
| "read_int [] = None"

fun dec :: "nat \<Rightarrow> string" where
  "dec n = (if n < 10 then [char_of (48 + n)] else dec (n div 10) @ [char_of (48 + n mod 10)])"

declare dec.simps [simp del]

lemma dec_ne [simp]: "dec n \<noteq> []"
  by (subst dec.simps) simp

lemma of_char_digit: "d < 10 \<Longrightarrow> (of_char (char_of (48 + d) :: char) :: nat) = 48 + d"
  by simp

lemma digit_char: "d < 10 \<Longrightarrow> digit (char_of (48 + d :: nat))"
  by (simp add: digit_def)

lemma dec_digits: "list_all digit (dec n)"
proof (induction n rule: dec.induct)
  case (1 n)
  then show ?case by (subst dec.simps) (auto intro: digit_char)
qed

lemma dec_val_dec: "dec_val (dec n) = n"
proof (induction n rule: dec.induct)
  case (1 n)
  show ?case
  proof (cases "n < 10")
    case True
    then show ?thesis by (subst dec.simps) (simp add: dec_val_def of_char_digit)
  next
    case False
    have "n mod 10 < 10" by simp
    moreover have "dec_val (dec (n div 10)) = n div 10" using 1 False by simp
    ultimately show ?thesis using False by (subst dec.simps) (simp add: dec_val_def of_char_digit)
  qed
qed

lemma dec_length: "n < 10 ^ k \<Longrightarrow> 0 < k \<Longrightarrow> length (dec n) \<le> k"
proof (induction k arbitrary: n)
  case (Suc k)
  show ?case
  proof (cases "n < 10")
    case False
    then have "0 < k" using Suc.prems(1) by (cases k) auto
    moreover have "n div 10 < 10 ^ k" using Suc.prems(1) by (simp add: less_mult_imp_div_less mult.commute)
    ultimately have "length (dec (n div 10)) \<le> k" using Suc.IH by blast
    then show ?thesis using False by (subst dec.simps) simp
  qed (subst dec.simps, simp)
qed simp

lemma dec_head: "hd (dec n) \<noteq> CHR ''-''"
proof -
  have "digit (hd (dec n))" using dec_digits[of n] dec_ne[of n] by (cases "dec n") auto
  then show ?thesis by (auto simp: digit_def)
qed

lemma read_dec: "read_int (dec n) = Some (int n)" "read_int (CHR ''-'' # dec n) = Some (- int n)"
proof -
  obtain c s where d: "dec n = c # s" using dec_ne[of n] by (cases "dec n") auto
  then show "read_int (dec n) = Some (int n)" using dec_digits[of n] dec_val_dec[of n] dec_head[of n] by simp
  show "read_int (CHR ''-'' # dec n) = Some (- int n)" using dec_digits[of n] dec_val_dec[of n] by simp
qed

lemma u64_loop_dec: "unat i < 10 ^ n \<Longrightarrow> 0 < n \<Longrightarrow> n \<le> k \<Longrightarrow> u64_loop k i out = Inr (out @ rev (dec (unat i)))"
proof (induction n arbitrary: k i out)
  case (Suc n)
  then obtain k' where k: "k = Suc k'" by (cases k) auto
  have u: "unat (i div 10) = unat i div 10" "unat (i mod 10) = unat i mod 10" by (simp_all add: unat_div unat_mod)
  show ?case
  proof (cases "unat i < 10")
    case True
    then have "i div 10 = 0" using u(1) by (simp add: unat_eq_zero[symmetric])
    then show ?thesis using True k u by (simp add: dec.simps[of "unat i"])
  next
    case False
    then have "0 < n" using Suc.prems(1) by (cases n) auto
    moreover have "unat (i div 10) < 10 ^ n" using Suc.prems(1) u(1) by (simp add: less_mult_imp_div_less mult.commute)
    moreover have "i div 10 \<noteq> 0" using False u(1) by (auto simp: unat_eq_zero[symmetric])
    ultimately show ?thesis using Suc.IH[of "i div 10" k'] Suc.prems(3) k False u by (simp add: dec.simps[of "unat i"])
  qed
qed simp

lemma LLToStr_dec: "n < 10 ^ m \<Longrightarrow> 0 < m \<Longrightarrow> m \<le> k \<Longrightarrow> LLToStr k (int n) ptr = Inr (dec n @ ptr)"
proof (induction m arbitrary: k n ptr)
  case (Suc m)
  then obtain k' where k: "k = Suc k'" by (cases k) auto
  have q: "quot10 (int n) = int (n div 10)" by (simp add: quot10_def zdiv_int)
  have "48 + int n - 10 * int (n div 10) = int (48 + n mod 10)" by (simp add: zdiv_int zmod_int minus_mult_div_eq_mod)
  moreover have "int (48 + n mod 10) mod 256 = int (48 + n mod 10)" by (intro mod_pos_pos_trivial) simp_all
  ultimately have c: "nat ((48 + int n - 10 * quot10 (int n)) mod 256) = 48 + n mod 10" unfolding q by (simp only: nat_int)
  show ?case
  proof (cases "n < 10")
    case True
    then show ?thesis using k c q by (simp add: dec.simps[of n])
  next
    case False
    then have "0 < m" using Suc.prems(1) by (cases m) auto
    moreover have "n div 10 < 10 ^ m" using Suc.prems(1) by (simp add: less_mult_imp_div_less mult.commute)
    moreover have "n div 10 \<noteq> 0" using False by simp
    ultimately show ?thesis using Suc.IH[of "n div 10" k'] Suc.prems(3) k False c q by (simp add: dec.simps[of n])
  qed
qed simp

section \<open>Properties\<close>

text \<open>
  printing and reading back. The decimal string of an unsigned 64 bit integer, and of a signed one other than the smallest, fits the
  array with its terminator, has at most 20 characters and reads back as the integer.
\<close>

lemma decimal_roundtrip:
  assumes "- (2 ^ 63) < v" "v < 2 ^ 63"
  shows "(\<exists>s. Uint64ToString w = Inr s \<and> read_int s = Some (uint w) \<and> length s \<le> 20) \<and>
    (\<exists>s. Int64ToString v = Inr s \<and> read_int s = Some v \<and> length s \<le> 20)"
proof -
  have w: "unat w < 10 ^ 20" using unsigned_less[of w, where ?'a = nat] by simp
  have "Uint64ToString w = Inr (dec (unat w))" using u64_loop_dec[OF w, of 31 "[]"] by (simp add: Uint64ToString_def)
  moreover have "length (dec (unat w)) \<le> 20" by (rule dec_length[OF w]) simp
  moreover have "read_int (dec (unat w)) = Some (uint w)" by (simp add: read_dec)
  moreover have "\<exists>s. Int64ToString v = Inr s \<and> read_int s = Some v \<and> length s \<le> 20"
  proof (cases "0 \<le> v")
    case True
    then have n: "nat v < 10 ^ 19" using assms(2) by simp
    have "Int64ToString v = Inr (dec (nat v))" using LLToStr_dec[OF n, of 31 "[]"] True by (simp add: Int64ToString_def)
    then show ?thesis using True dec_length[OF n] by (simp add: read_dec)
  next
    case False
    then have n: "nat (- v) < 10 ^ 19" using assms(1) by simp
    have "s64 (- v) = int (nat (- v))" using assms(1) False by (simp add: s64_def)
    then have "Int64ToString v = Inr (CHR ''-'' # dec (nat (- v)))" using LLToStr_dec[OF n, of 31 "[]"] False by (simp add: Int64ToString_def)
    then show ?thesis using False dec_length[OF n] read_dec(2)[of "nat (- v)"] by auto
  qed
  ultimately show ?thesis by blast
qed

text \<open>
  the smallest signed 64 bit integer is not printed as a number: its negation wraps to itself, every remainder is negative, and the
  characters lie below the digit zero.
\<close>

lemma Int64ToString_smallest:
  "Int64ToString (- (2 ^ 63)) = Inr (CHR ''-'' # map (\<lambda>d. char_of (48 - d :: nat)) [9, 2, 2, 3, 3, 7, 2, 0, 3, 6, 8, 5, 4, 7, 7, 5, 8, 0, 8]) \<and>
   read_int (CHR ''-'' # map (\<lambda>d. char_of (48 - d :: nat)) [9, 2, 2, 3, 3, 7, 2, 0, 3, 6, 8, 5, 4, 7, 7, 5, 8, 0, 8]) = None"
  by code_simp

text \<open>
  the identifier of a service determines its address and port, and the host address is found: with at least one interface that has a
  non-loopback IPv4 address, and an address on every interface before it, the first such address is used.
\<close>

lemma service_id_identifies_host:
  assumes "No_addr \<notin> set pre" "\<forall>ip'. Inet ip' \<in> set pre \<longrightarrow> ip0 ip' = 127" "ip0 ip \<noteq> 127"
  shows "gethost None (pre @ Inet ip # rest) = Inr ip \<and>
    (buildServiceID ip port = buildServiceID ip2 port2) = (ip = ip2 \<and> port = port2)"
proof
  have "gethost_loop (pre @ Inet ip # rest) a = Inr (Some ip)" for a
    using assms by (induction pre arbitrary: a) (auto split: ifaddr.splits)
  then show "gethost None (pre @ Inet ip # rest) = Inr ip" by (simp add: gethost_def)
  have b: "buildServiceID x p = push_bit 32 (ucast x) OR ucast p" for x p
    unfolding buildServiceID_def by (rule disjunctive_add) (auto simp: bit_simps dest: bit_imp_le_length)
  have np: "\<not> bit p (32 + n)" for p :: "16 word" and n using bit_imp_le_length[of p "32 + n"] by auto
  have "ucast (drop_bit 32 (buildServiceID x p)) = x" "ucast (buildServiceID x p) = p" for x p
    unfolding b by (auto intro!: bit_word_eqI simp: bit_simps np)
  then show "(buildServiceID ip port = buildServiceID ip2 port2) = (ip = ip2 \<and> port = port2)" by metis
qed

end
