(* ===== verification/RpcPool.thy ===== *)
theory RpcPool
  imports LinkedList PushList "HOL-Library.Word" "HOL-Library.Multiset"
begin

text \<open>
  The client side of remote calls, \<open>thrift/pilot\<close>: a pool of connections for each replica of a service
  (\<open>conn_pool.inl\<close> over \<open>unsafe_wait_list.h\<close>), the table of replicas that follows the registry
  (\<open>pooled_client.inl\<close>) and the calls made through it (\<open>thrift_proxy.h\<close>).

  Clients are objects of a heap. Opening a transport succeeds or fails as the world says: the list of outcomes \<open>rw_opens\<close>, and failure
  when the list is used up. What the registry answers and what a call returns are arguments. A region under a
  lock is one step.
\<close>

section \<open>Clients\<close>

record ThriftClient =
  tc_replica :: "string \<times> int"
  tc_open :: bool

record rpc_world =
  rw_clients :: "ThriftClient heap"
  rw_opens :: "bool list"
  rw_now :: "int \<times> int"

definition open_service :: "addr \<Rightarrow> rpc_world \<Rightarrow> (int \<times> rpc_world) res" where
  "open_service c w = bindr (hget (rw_clients w) c) (\<lambda>t. if tc_open t then Inr (0, w)
     else case rw_opens w of [] \<Rightarrow> Inr (-1, w)
       | b # bs \<Rightarrow> if b then Inr (0, w\<lparr>rw_clients := hset (rw_clients w) c (t\<lparr>tc_open := True\<rparr>), rw_opens := bs\<rparr>)
                   else Inr (-1, w\<lparr>rw_opens := bs\<rparr>))"

definition close_service :: "addr \<Rightarrow> rpc_world \<Rightarrow> rpc_world res" where
  "close_service c w = bindr (hmod (rw_clients w) c (\<lambda>t. t\<lparr>tc_open := False\<rparr>)) (\<lambda>h. Inr (w\<lparr>rw_clients := h\<rparr>))"

definition delete_client :: "addr \<Rightarrow> rpc_world \<Rightarrow> rpc_world res" where
  "delete_client c w = bindr (hfree c (rw_clients w)) (\<lambda>h. Inr (w\<lparr>rw_clients := h\<rparr>))"

section \<open>The list of a pool\<close>

text \<open>The sentinel of the list is at the address 1.\<close>

record unsafe_wait_list =
  uw_links :: links
  uw_alive :: bool
  uw_num :: int

definition uw_new :: "links \<Rightarrow> unsafe_wait_list" where
  "uw_new L = \<lparr>uw_links = lk_init 1 L, uw_alive = True, uw_num = 0\<rparr>"

definition uw_len :: "unsafe_wait_list \<Rightarrow> int" where
  "uw_len l = uw_num l"

definition uw_put :: "addr \<Rightarrow> unsafe_wait_list \<Rightarrow> unsafe_wait_list" where
  "uw_put node l = (if uw_alive l then l\<lparr>uw_links := lk_add 1 node (uw_links l), uw_num := uw_num l + 1\<rparr> else l)"

definition uw_try_get :: "unsafe_wait_list \<Rightarrow> addr \<times> unsafe_wait_list" where
  "uw_try_get l = (if uw_alive l \<and> \<not> lk_is_empty 1 (uw_links l)
     then let r = ln_prev (uw_links l) 1 in (r, l\<lparr>uw_links := lk_del r (uw_links l), uw_num := uw_num l - 1\<rparr>) else (0, l))"

definition uw_try_get_from_head :: "unsafe_wait_list \<Rightarrow> addr \<times> unsafe_wait_list" where
  "uw_try_get_from_head l = (if uw_alive l \<and> \<not> lk_is_empty 1 (uw_links l)
     then let r = ln_next (uw_links l) 1 in (r, l\<lparr>uw_links := lk_del r (uw_links l), uw_num := uw_num l - 1\<rparr>) else (0, l))"

definition uw_flush :: "unsafe_wait_list \<Rightarrow> unsafe_wait_list" where
  "uw_flush l = l\<lparr>uw_alive := False\<rparr>"

section \<open>The pool of one replica\<close>

datatype HealthyStatus = HEALTHY | NOT_HEALTHY_BUT_CAN_HAVEATRY | NOT_HEALTHY_AND_CANNOT_BE_USED_TEMP | DEAD

text \<open>A node of the list holds the address of a client; the time of the last error is indeterminate until there is one.\<close>

record ConnPool =
  cp_replica :: "string \<times> int"
  cp_conn_num :: int
  cp_conn_list :: unsafe_wait_list
  cp_data :: "addr \<Rightarrow> addr"
  cp_node_brk :: addr
  cp_error_cnt :: int
  cp_last_err :: "(int \<times> int) option"

definition MAX_ERROR_CNT_THRESHOLD :: int where
  "MAX_ERROR_CNT_THRESHOLD = 10"

definition release_client :: "addr \<Rightarrow> ConnPool \<times> rpc_world \<Rightarrow> (ConnPool \<times> rpc_world) res" where
  "release_client c = (\<lambda>(p, w). let nodep = cp_node_brk p; p = p\<lparr>cp_data := (cp_data p)(nodep := c), cp_node_brk := Suc nodep\<rparr> in
     if uw_len (cp_conn_list p) > cp_conn_num p then bindr (delete_client c w) (\<lambda>w. Inr (p, w))
     else Inr (p\<lparr>cp_conn_list := uw_put nodep (cp_conn_list p)\<rparr>, w))"

definition acquire_client :: "ConnPool \<Rightarrow> addr \<times> ConnPool" where
  "acquire_client p = (case uw_try_get (cp_conn_list p) of (nodep, l) \<Rightarrow>
     if nodep \<noteq> 0 then (cp_data p nodep, p\<lparr>cp_conn_list := l\<rparr>) else (0, p))"

definition init_one_conn :: "ConnPool \<times> rpc_world \<Rightarrow> (int \<times> ConnPool \<times> rpc_world) res" where
  "init_one_conn = (\<lambda>(p, w). case halloc \<lparr>tc_replica = cp_replica p, tc_open = False\<rparr> (rw_clients w) of (conn, h) \<Rightarrow>
     if conn = 0 then Inl Abort
     else bindr (open_service conn (w\<lparr>rw_clients := h\<rparr>)) (\<lambda>(ret, w).
       bindr (if ret = 0 then release_client conn (p, w) else bindr (delete_client conn w) (\<lambda>w. Inr (p, w))) (\<lambda>(p, w).
       Inr (uw_len (cp_conn_list p), p, w))))"

primrec init_conns :: "nat \<Rightarrow> int \<Rightarrow> ConnPool \<times> rpc_world \<Rightarrow> (int \<times> ConnPool \<times> rpc_world) res" where
  "init_conns 0 conn_num s = Inr (conn_num, s)"
| "init_conns (Suc n) conn_num s = bindr (init_one_conn s) (\<lambda>(conn_num, s). init_conns n conn_num s)"

definition init_pool :: "ConnPool \<times> rpc_world \<Rightarrow> (int \<times> ConnPool \<times> rpc_world) res" where
  "init_pool = (\<lambda>(p, w). init_conns (nat (cp_conn_num p)) 0 (p, w))"

text \<open>The loop of \<open>clear_\<close>; the fuel is the number of node addresses.\<close>

primrec clear_conns :: "nat \<Rightarrow> ConnPool \<times> rpc_world \<Rightarrow> (ConnPool \<times> rpc_world) res" where
  "clear_conns 0 s = (case uw_try_get (cp_conn_list (fst s)) of (nodep, _) \<Rightarrow> if nodep = 0 then Inr s else Inl Diverge)"
| "clear_conns (Suc k) s = (case s of (p, w) \<Rightarrow> case uw_try_get (cp_conn_list p) of (nodep, l) \<Rightarrow>
     if nodep = 0 then Inr (p, w)
     else bindr (delete_client (cp_data p nodep) w) (\<lambda>w. clear_conns k (p\<lparr>cp_conn_list := l\<rparr>, w)))"

definition clear_pool :: "ConnPool \<times> rpc_world \<Rightarrow> (ConnPool \<times> rpc_world) res" where
  "clear_pool = (\<lambda>(p, w). clear_conns (cp_node_brk p) (p, w))"

definition refresh_pool :: "ConnPool \<times> rpc_world \<Rightarrow> (bool \<times> ConnPool \<times> rpc_world) res" where
  "refresh_pool s = bindr (clear_pool s) (\<lambda>s. bindr (init_pool s) (\<lambda>(n, s). Inr (n > 0, s)))"

definition ConnPool_new :: "links \<Rightarrow> (addr \<Rightarrow> addr) \<Rightarrow> string \<times> int \<Rightarrow> int \<Rightarrow> rpc_world \<Rightarrow> (ConnPool \<times> rpc_world) res" where
  "ConnPool_new L D replica num w = bindr (init_pool (\<lparr>cp_replica = replica, cp_conn_num = num, cp_conn_list = uw_new L, cp_data = D,
       cp_node_brk = 2, cp_error_cnt = 0, cp_last_err = None\<rparr>, w)) (\<lambda>(_, s). Inr s)"

definition pool_size :: "ConnPool \<Rightarrow> int" where
  "pool_size p = uw_len (cp_conn_list p)"

definition timeval_add :: "int \<times> int \<Rightarrow> int \<times> int \<Rightarrow> int \<times> int" where
  "timeval_add t u = (let s = fst t + fst u; us = snd t + snd u in if us \<ge> 1000000 then (s + 1, us - 1000000) else (s, us))"

definition is_healthy :: "int \<times> int \<Rightarrow> ConnPool \<Rightarrow> HealthyStatus res" where
  "is_healthy now p = (if cp_error_cnt p = 0 then Inr HEALTHY
     else if cp_error_cnt p > MAX_ERROR_CNT_THRESHOLD then Inr DEAD
     else bindr (init_of (cp_last_err p)) (\<lambda>last_ts.
       let tscmp = timeval_add last_ts (cp_error_cnt p * cp_error_cnt p, 0) in
       if fst tscmp > fst now \<or> (fst tscmp = fst now \<and> snd tscmp > snd now) then Inr NOT_HEALTHY_AND_CANNOT_BE_USED_TEMP
       else Inr NOT_HEALTHY_BUT_CAN_HAVEATRY))"

definition report_error :: "int \<times> int \<Rightarrow> ConnPool \<Rightarrow> ConnPool" where
  "report_error now p = p\<lparr>cp_error_cnt := cp_error_cnt p + 1, cp_last_err := Some now\<rparr>"

definition clear_error :: "int \<times> int \<Rightarrow> ConnPool \<Rightarrow> ConnPool res" where
  "clear_error now p = bindr (is_healthy now p) (\<lambda>s. Inr (if s = HEALTHY then p else p\<lparr>cp_error_cnt := 0\<rparr>))"

section \<open>The table of replicas\<close>

datatype ConnErrorStatus = CONN_OK | CONN_DROP | CONN_RECONNECT

record ReplicaInfo =
  ri_replica :: "string \<times> int"
  ri_replica_id :: "64 word"
  ri_protocol :: string
  ri_status :: int

record ReplicaConnPool =
  rcp_backend_replica :: "string \<times> int"
  rcp_replica_id :: "64 word"
  rcp_index :: int
  rcp_protocol :: string
  rcp_status :: int
  rcp_conn_pool :: ConnPool

record PooledClient =
  pc_conn_pool_vec :: "ReplicaConnPool list"
  pc_replica_map :: "64 word \<rightharpoonup> int"
  pc_num_clients_per_replica :: int
  pc_cur_replica_index :: int
  pc_path :: string

type_synonym pc_state = "PooledClient \<times> rpc_world"

text \<open>\<open>inet_pton\<close> gives the address of a host in binary. The port goes from \<open>int\<close> to 64 bits with its sign.\<close>

definition genReplicId :: "(string \<Rightarrow> 32 word option) \<Rightarrow> string \<Rightarrow> int \<Rightarrow> 64 word" where
  "genReplicId inet_pton host port = (case inet_pton host of None \<Rightarrow> 0
     | Some ip \<Rightarrow> or (push_bit 32 (ucast ip)) (word_of_int port))"

definition json_parse :: "(string \<Rightarrow> 32 word option) \<Rightarrow> (string \<Rightarrow> (string \<times> int \<times> string \<times> int) option) \<Rightarrow> string \<Rightarrow> ReplicaInfo option" where
  "json_parse inet_pton parse src = (case parse src of None \<Rightarrow> None
     | Some (host, port, protocol, status) \<Rightarrow> let rid = genReplicId inet_pton host port in
         if rid = 0 then None else Some \<lparr>ri_replica = (host, port), ri_replica_id = rid, ri_protocol = protocol, ri_status = status\<rparr>)"

text \<open>\<open>values\<close>: the values of the nodes below the path, \<open>None\<close> where the registry fails.\<close>

fun collect_replicas :: "(string \<Rightarrow> ReplicaInfo option) \<Rightarrow> string option list \<Rightarrow> ReplicaInfo list option" where
  "collect_replicas parse [] = Some []"
| "collect_replicas parse (None # vs) = None"
| "collect_replicas parse (Some v # vs) = map_option (\<lambda>riv. case parse v of None \<Rightarrow> riv | Some ri \<Rightarrow> ri # riv) (collect_replicas parse vs)"

definition get_all_replicas :: "(string \<Rightarrow> ReplicaInfo option) \<Rightarrow> bool \<Rightarrow> string option list option \<Rightarrow> ReplicaInfo list option" where
  "get_all_replicas parse exists children = (if \<not> exists then None else case children of None \<Rightarrow> None | Some vs \<Rightarrow> collect_replicas parse vs)"

definition get_one_replica :: "(string \<Rightarrow> ReplicaInfo option) \<Rightarrow> bool \<Rightarrow> string option \<Rightarrow> ReplicaInfo option" where
  "get_one_replica parse exists node_value = (if \<not> exists then None
     else case node_value of None \<Rightarrow> None | Some v \<Rightarrow> if v = [] then None else parse v)"

text \<open>One pool of the vector, changed in place.\<close>

definition set_pool :: "nat \<Rightarrow> ConnPool \<Rightarrow> PooledClient \<Rightarrow> PooledClient" where
  "set_pool k p pc = pc\<lparr>pc_conn_pool_vec := (pc_conn_pool_vec pc)[k := (pc_conn_pool_vec pc ! k)\<lparr>rcp_conn_pool := p\<rparr>]\<rparr>"

text \<open>Trying one replica: the body of the loop from the health check on. The result is 0 where the loop goes on.\<close>

definition try_replica :: "ConnPool \<times> rpc_world \<Rightarrow> (addr \<times> ConnPool \<times> rpc_world) res" where
  "try_replica = (\<lambda>(p, w). bindr (is_healthy (rw_now w) p) (\<lambda>status.
     if status \<noteq> HEALTHY \<and> status \<noteq> NOT_HEALTHY_BUT_CAN_HAVEATRY then Inr (0, p, w)
     else bindr (if status = NOT_HEALTHY_BUT_CAN_HAVEATRY
         then bindr (refresh_pool (p, w)) (\<lambda>(ok, p, w). Inr (if ok then p else report_error (rw_now w) p, w)) else Inr (p, w)) (\<lambda>(p, w).
       case acquire_client p of (clientp, p) \<Rightarrow>
       if clientp = 0 then Inr (0, p, w)
       else bindr (open_service clientp w) (\<lambda>(ret, w).
         if ret = 0 then Inr (clientp, p, w)
         else bindr (open_service clientp w) (\<lambda>(_, w). bindr (release_client clientp (p, w)) (\<lambda>(p, w). Inr (0, p, w)))))))"

text \<open>The replica whose turn it is: the counter, an \<open>int\<close>, becomes an unsigned 64 bit number for the remainder.\<close>

definition next_index :: "PooledClient \<Rightarrow> nat" where
  "next_index pc = nat ((pc_cur_replica_index pc mod 2 ^ 64) mod int (length (pc_conn_pool_vec pc)))"

primrec acquire_loop :: "nat \<Rightarrow> pc_state \<Rightarrow> (addr \<times> pc_state) res" where
  "acquire_loop 0 s = Inr (0, s)"
| "acquire_loop (Suc n) s = (case s of (pc, w) \<Rightarrow>
     let k = next_index pc; pc = pc\<lparr>pc_cur_replica_index := s32 (pc_cur_replica_index pc + 1)\<rparr>; rcp = pc_conn_pool_vec pc ! k in
     if rcp_status rcp = 0 then acquire_loop n (pc, w)
     else bindr (try_replica (rcp_conn_pool rcp, w)) (\<lambda>(c, p, w).
       if c \<noteq> 0 then Inr (c, set_pool k p pc, w) else acquire_loop n (set_pool k p pc, w)))"

definition acquire_thrift_client :: "pc_state \<Rightarrow> (addr \<times> pc_state) res" where
  "acquire_thrift_client s = acquire_loop (length (pc_conn_pool_vec (fst s))) s"

definition acquire_thrift_client_by_id :: "64 word \<Rightarrow> pc_state \<Rightarrow> (addr \<times> pc_state) res" where
  "acquire_thrift_client_by_id replica_id = (\<lambda>(pc, w). case pc_replica_map pc replica_id of None \<Rightarrow> Inr (0, pc, w)
     | Some i \<Rightarrow> if i < 0 \<or> int (length (pc_conn_pool_vec pc)) \<le> i then Inl Out_of_bounds
       else let k = nat i; rcp = pc_conn_pool_vec pc ! k in
         if rcp_replica_id rcp \<noteq> replica_id \<or> rcp_status rcp \<noteq> 1 then Inr (0, pc, w)
         else bindr (is_healthy (rw_now w) (rcp_conn_pool rcp)) (\<lambda>status.
           bindr (if status = NOT_HEALTHY_BUT_CAN_HAVEATRY
             then bindr (refresh_pool (rcp_conn_pool rcp, w)) (\<lambda>(ok, p, w).
               let p = (if ok then p else report_error (rw_now w) p) in bindr (is_healthy (rw_now w) p) (\<lambda>status. Inr (status, p, w)))
             else Inr (status, rcp_conn_pool rcp, w)) (\<lambda>(status, p, w).
           if status \<noteq> HEALTHY then Inr (0, set_pool k p pc, w)
           else case acquire_client p of (clientp, p) \<Rightarrow>
             if clientp = 0 then Inr (0, set_pool k p pc, w)
             else bindr (open_service clientp w) (\<lambda>(ret, w).
               if ret = 0 then Inr (clientp, set_pool k p pc, w)
               else bindr (open_service clientp w) (\<lambda>(_, w).
                 bindr (release_client clientp (p, w)) (\<lambda>(p, w). Inr (0, set_pool k p pc, w)))))))"

text \<open>\<open>release_thrift_client\<close>: the first pool with the replica of the client.\<close>

fun find_pool :: "(ReplicaConnPool \<Rightarrow> bool) \<Rightarrow> ReplicaConnPool list \<Rightarrow> nat option" where
  "find_pool P [] = None"
| "find_pool P (r # rs) = (if P r then Some 0 else map_option Suc (find_pool P rs))"

definition reopen :: "addr \<Rightarrow> rpc_world \<Rightarrow> rpc_world res" where
  "reopen c w = bindr (close_service c w) (\<lambda>w. bindr (open_service c w) (\<lambda>(_, w). Inr w))"

definition give_back :: "addr \<Rightarrow> ConnErrorStatus \<Rightarrow> ConnPool \<times> rpc_world \<Rightarrow> (ConnPool \<times> rpc_world) res" where
  "give_back c err = (\<lambda>(p, w). case err of
     CONN_OK \<Rightarrow> bindr (clear_error (rw_now w) p) (\<lambda>p. release_client c (p, w))
   | CONN_DROP \<Rightarrow> let p = report_error (rw_now w) p in bindr (delete_client c w) (\<lambda>w. Inr (p, w))
   | CONN_RECONNECT \<Rightarrow> bindr (reopen c w) (\<lambda>w. release_client c (p, w)))"

definition release_thrift_client :: "addr \<Rightarrow> ConnErrorStatus \<Rightarrow> pc_state \<Rightarrow> (bool \<times> pc_state) res" where
  "release_thrift_client c err = (\<lambda>(pc, w). if c = 0 then Inr (True, pc, w)
     else bindr (hget (rw_clients w) c) (\<lambda>t.
       case find_pool (\<lambda>r. rcp_backend_replica r = tc_replica t) (pc_conn_pool_vec pc) of
         Some k \<Rightarrow> bindr (give_back c err (rcp_conn_pool (pc_conn_pool_vec pc ! k), w)) (\<lambda>(p, w). Inr (True, set_pool k p pc, w))
       | None \<Rightarrow> bindr (delete_client c w) (\<lambda>w. Inr (False, pc, w))))"

definition release_thrift_client_by_id :: "64 word \<Rightarrow> addr \<Rightarrow> ConnErrorStatus \<Rightarrow> pc_state \<Rightarrow> (bool \<times> pc_state) res" where
  "release_thrift_client_by_id replica_id c err = (\<lambda>(pc, w). if c = 0 then Inr (True, pc, w)
     else case pc_replica_map pc replica_id of
       None \<Rightarrow> bindr (delete_client c w) (\<lambda>w. Inr (False, pc, w))
     | Some i \<Rightarrow> if i < 0 \<or> int (length (pc_conn_pool_vec pc)) \<le> i then Inl Out_of_bounds
       else let k = nat i; rcp = pc_conn_pool_vec pc ! k in bindr (hget (rw_clients w) c) (\<lambda>t.
         if rcp_replica_id rcp = replica_id \<and> rcp_backend_replica rcp = tc_replica t
         then bindr (give_back c (if err = CONN_OK then CONN_OK else CONN_RECONNECT) (rcp_conn_pool rcp, w)) (\<lambda>(p, w). Inr (True, set_pool k p pc, w))
         else bindr (delete_client c w) (\<lambda>w. Inr (False, pc, w))))"

section \<open>Following the registry\<close>

definition same_replica :: "ReplicaInfo \<Rightarrow> ReplicaConnPool \<Rightarrow> bool" where
  "same_replica ri r \<longleftrightarrow> rcp_backend_replica r = ri_replica ri \<and> rcp_protocol r = ri_protocol ri \<and> rcp_status r = ri_status ri"

text \<open>Dropping an entry destroys its pool, and with it the clients in it.\<close>

definition drop_pool :: "ReplicaConnPool \<Rightarrow> rpc_world \<Rightarrow> rpc_world res" where
  "drop_pool r w = bindr (clear_pool (rcp_conn_pool r, w)) (\<lambda>(_, w). Inr w)"

fun drop_pools :: "ReplicaConnPool list \<Rightarrow> rpc_world \<Rightarrow> rpc_world res" where
  "drop_pools [] w = Inr w"
| "drop_pools (r # rs) w = bindr (drop_pool r w) (drop_pools rs)"

fun erase_gone :: "ReplicaInfo list \<Rightarrow> ReplicaConnPool list \<Rightarrow> (64 word \<rightharpoonup> int) \<times> rpc_world \<Rightarrow> (ReplicaConnPool list \<times> (64 word \<rightharpoonup> int) \<times> rpc_world) res" where
  "erase_gone riv [] s = Inr ([], s)"
| "erase_gone riv (r # rs) (m, w) = (if \<exists>ri \<in> set riv. same_replica ri r
     then bindr (erase_gone riv rs (m, w)) (\<lambda>(vec, s). Inr (r # vec, s))
     else bindr (drop_pool r w) (\<lambda>w. erase_gone riv rs (m(rcp_replica_id r := None), w)))"

text \<open>A pool for a new replica is kept when it has a connection. \<open>L\<close> and \<open>D\<close> are what the memory of the new list and nodes held.\<close>

definition add_replica :: "links \<Rightarrow> (addr \<Rightarrow> addr) \<Rightarrow> ReplicaInfo \<Rightarrow> pc_state \<Rightarrow> pc_state res" where
  "add_replica L D ri = (\<lambda>(pc, w). bindr (ConnPool_new L D (ri_replica ri) (pc_num_clients_per_replica pc) w) (\<lambda>(p, w).
     let rcp = \<lparr>rcp_backend_replica = ri_replica ri, rcp_replica_id = ri_replica_id ri, rcp_index = int (length (pc_conn_pool_vec pc)),
       rcp_protocol = ri_protocol ri, rcp_status = ri_status ri, rcp_conn_pool = p\<rparr> in
     if pool_size p > 0 then Inr (pc\<lparr>pc_replica_map := (pc_replica_map pc)(rcp_replica_id rcp \<mapsto> rcp_index rcp),
         pc_conn_pool_vec := pc_conn_pool_vec pc @ [rcp]\<rparr>, w)
     else bindr (drop_pool rcp w) (\<lambda>w. Inr (pc, w))))"

fun add_new :: "links \<Rightarrow> (addr \<Rightarrow> addr) \<Rightarrow> ReplicaInfo list \<Rightarrow> pc_state \<Rightarrow> pc_state res" where
  "add_new L D [] s = Inr s"
| "add_new L D (ri # riv) s = (if \<exists>r \<in> set (pc_conn_pool_vec (fst s)). same_replica ri r then add_new L D riv s
     else bindr (add_replica L D ri s) (add_new L D riv))"

datatype update_task = REFRESH_ALL | TIMED_REFRESH_ALL | SESSION_EXPIRED string | NODE_CREATED string | CHILD_CHANGED string | NODE_VALUE_CHANGED string | NODE_DELETED string | EXIT

definition clear_table :: "pc_state \<Rightarrow> pc_state res" where
  "clear_table = (\<lambda>(pc, w). bindr (drop_pools (pc_conn_pool_vec pc) w) (\<lambda>w. Inr (pc\<lparr>pc_conn_pool_vec := [], pc_replica_map := Map.empty\<rparr>, w)))"

definition refresh_all :: "links \<Rightarrow> (addr \<Rightarrow> addr) \<Rightarrow> ReplicaInfo list option \<Rightarrow> pc_state \<Rightarrow> pc_state res" where
  "refresh_all L D replicas = (\<lambda>(pc, w). case replicas of None \<Rightarrow> Inr (pc, w)
     | Some riv \<Rightarrow> let riv = filter (\<lambda>ri. ri_status ri \<noteq> 0) riv in
       if riv = [] then clear_table (pc, w)
       else bindr (erase_gone riv (pc_conn_pool_vec pc) (pc_replica_map pc, w)) (\<lambda>(vec, m, w).
         add_new L D riv (pc\<lparr>pc_conn_pool_vec := vec, pc_replica_map := m\<rparr>, w)))"

definition node_changed :: "links \<Rightarrow> (addr \<Rightarrow> addr) \<Rightarrow> ReplicaInfo \<Rightarrow> pc_state \<Rightarrow> pc_state res" where
  "node_changed L D ri = (\<lambda>(pc, w). let vec = pc_conn_pool_vec pc in
     bindr (case find_pool (\<lambda>r. rcp_backend_replica r = ri_replica ri \<and> rcp_protocol r = ri_protocol ri) vec of
         None \<Rightarrow> Inr (pc, w)
       | Some k \<Rightarrow> bindr (drop_pool (vec ! k) w) (\<lambda>w. Inr (pc\<lparr>pc_replica_map := (pc_replica_map pc)(rcp_replica_id (vec ! k) := None),
           pc_conn_pool_vec := take k vec @ drop (Suc k) vec\<rparr>, w))) (\<lambda>s.
     if ri_status ri = 1 then add_replica L D ri s else Inr s))"

text \<open>The answers of the registry are arguments; the result has the tasks that are put into the queue again.\<close>

definition process_update_task :: "links \<Rightarrow> (addr \<Rightarrow> addr) \<Rightarrow> ReplicaInfo list option \<Rightarrow> (string \<Rightarrow> ReplicaInfo option) \<Rightarrow> update_task \<Rightarrow> pc_state \<Rightarrow>
    (update_task list \<times> pc_state) res" where
  "process_update_task L D replicas one task s = (case task of
     REFRESH_ALL \<Rightarrow> bindr (refresh_all L D replicas s) (\<lambda>s. Inr ([], s))
   | NODE_CREATED arg \<Rightarrow> Inr (if arg = [] \<or> arg \<noteq> pc_path (fst s) then [] else [REFRESH_ALL], s)
   | CHILD_CHANGED arg \<Rightarrow> Inr (if arg = [] \<or> arg \<noteq> pc_path (fst s) then [] else [REFRESH_ALL], s)
   | NODE_VALUE_CHANGED arg \<Rightarrow> if arg = [] \<or> arg = pc_path (fst s) then Inr ([], s)
       else (case one arg of None \<Rightarrow> Inr ([], s) | Some ri \<Rightarrow> bindr (node_changed L D ri s) (\<lambda>s. Inr ([], s)))
   | NODE_DELETED arg \<Rightarrow> Inr ([], s)
   | EXIT \<Rightarrow> Inr ([], s)
   | _ \<Rightarrow> Inr ([], s))"

text \<open>The path of a service in the registry.\<close>

definition fixpath :: "string \<Rightarrow> string" where
  "fixpath s = (if s = [] then s
     else ''/jdns'' @ (if hd s = CHR ''/'' then s else ''/'' @ s) @ (if last s = CHR ''/'' then ''rpc'' else ''/rpc''))"

section \<open>Calls\<close>

text \<open>What a call on a client ends with, and what the caller sees.\<close>

datatype 'r call_end = Returns 'r | Timed_out | Not_open | Transport_error | Application_error | Other_error

datatype tz_error = TZE_NOSERVICE | TZE_NET_TIMEOUT | TZE_NET_PEERRESET | TZE_NET_OTHER | TZE_APP | TZE_OTHER

fun error_of :: "'r call_end \<Rightarrow> ConnErrorStatus" where
  "error_of (Returns r) = CONN_OK"
| "error_of Timed_out = CONN_RECONNECT"
| "error_of Not_open = CONN_DROP"
| "error_of Transport_error = CONN_RECONNECT"
| "error_of Application_error = CONN_OK"
| "error_of Other_error = CONN_RECONNECT"

fun outcome_of :: "'r call_end \<Rightarrow> tz_error + 'r" where
  "outcome_of (Returns r) = Inr r"
| "outcome_of Timed_out = Inl TZE_NET_TIMEOUT"
| "outcome_of Not_open = Inl TZE_NET_PEERRESET"
| "outcome_of Transport_error = Inl TZE_NET_OTHER"
| "outcome_of Application_error = Inl TZE_APP"
| "outcome_of Other_error = Inl TZE_OTHER"

text \<open>\<open>INVOKE_AND_RETURN_WITHIN_3_ATTEMPTS\<close>: \<open>call k c\<close> is what the call on client \<open>c\<close> ends with when \<open>k\<close> attempts are left. The destructor of
  the helper gives the client back. Besides what the caller sees, the result has what the calls that were made ended with: an attempt that gets no client
  makes none.\<close>

primrec invoke :: "nat \<Rightarrow> (nat \<Rightarrow> addr \<Rightarrow> 'r call_end) \<Rightarrow> pc_state \<Rightarrow> ((tz_error + 'r) \<times> 'r call_end list \<times> pc_state) res" where
  "invoke 0 call s = Inl Uninit"
| "invoke (Suc retry) call s = bindr (acquire_thrift_client s) (\<lambda>(c, s).
     if c = 0 then (if retry = 0 then Inr (Inl TZE_NOSERVICE, [], s) else invoke retry call s)
     else let e = call retry c in bindr (release_thrift_client c (error_of e) s) (\<lambda>(_, s).
       if retry = 0 \<or> \<not> isl (outcome_of e) then Inr (outcome_of e, [e], s)
       else bindr (invoke retry call s) (\<lambda>(res, es, s). Inr (res, e # es, s))))"

definition invoke_within_3_attempts :: "(nat \<Rightarrow> addr \<Rightarrow> 'r call_end) \<Rightarrow> pc_state \<Rightarrow> ((tz_error + 'r) \<times> 'r call_end list \<times> pc_state) res" where
  "invoke_within_3_attempts = invoke 3"

section \<open>One pool\<close>

text \<open>\<open>pool_holds p cs\<close>: the pool has the clients \<open>cs\<close>, the next to be taken first.\<close>

definition pool_holds :: "ConnPool \<Rightarrow> addr list \<Rightarrow> bool" where
  "pool_holds p cs \<longleftrightarrow> (let l = cp_conn_list p in \<exists>ns. ring (uw_links l) 1 ns \<and> uw_alive l \<and> uw_num l = int (length ns) \<and>
     map (cp_data p) (rev ns) = cs \<and> (\<forall>n \<in> set ns. n < cp_node_brk p) \<and> 1 < cp_node_brk p)"

declare pool_holds_def [inv_defs]

lemma pool_holds_len: "pool_holds p cs \<Longrightarrow> uw_len (cp_conn_list p) = int (length cs)"
  by (auto simp: pool_holds_def uw_len_def Let_def)

lemma pool_holds_fuel: "pool_holds p cs \<Longrightarrow> length cs \<le> cp_node_brk p"
proof -
  assume "pool_holds p cs"
  then obtain ns where n: "ring (uw_links (cp_conn_list p)) 1 ns" "cs = map (cp_data p) (rev ns)" "set ns \<subseteq> {..<cp_node_brk p}"
    by (auto simp: pool_holds_def Let_def)
  have "card (set ns) = length ns" using n(1) by (intro distinct_card) (simp add: ring_def)
  then show ?thesis using card_mono[OF _ n(3)] n(2) by simp
qed

lemma pool_holds_fields: "pool_holds (p\<lparr>cp_error_cnt := e, cp_last_err := t\<rparr>) cs = pool_holds p cs" "pool_holds (p\<lparr>cp_error_cnt := e\<rparr>) cs = pool_holds p cs"
  by (simp_all add: pool_holds_def)

lemma try_get_ok:
  assumes "pool_holds p cs"
  shows "cs = [] \<Longrightarrow> uw_try_get (cp_conn_list p) = (0, cp_conn_list p)"
    "cs = c # ds \<Longrightarrow> \<exists>n l. uw_try_get (cp_conn_list p) = (n, l) \<and> n \<noteq> 0 \<and> cp_data p n = c \<and> pool_holds (p\<lparr>cp_conn_list := l\<rparr>) ds"
proof -
  define l where "l = cp_conn_list p"
  obtain ns where n: "ring (uw_links l) 1 ns" "uw_alive l" "uw_num l = int (length ns)" "map (cp_data p) (rev ns) = cs" "\<forall>n \<in> set ns. n < cp_node_brk p" "1 < cp_node_brk p"
    using assms by (auto simp: pool_holds_def Let_def l_def)
  have emp: "lk_is_empty 1 (uw_links l) \<longleftrightarrow> ns = []" using n(1) by (cases ns) (auto simp: lk_is_empty_def ring_def)
  show "uw_try_get (cp_conn_list p) = (0, cp_conn_list p)" if "cs = []" using that n(4) emp by (simp add: uw_try_get_def l_def[symmetric])
  assume cs: "cs = c # ds"
  then obtain a xs where a: "ns = xs @ [a]" using n(4) by (cases ns rule: rev_cases) auto
  have pr: "ln_prev (uw_links l) 1 = a" using n(1) a dseg_prev[of "uw_links l" 1 ns 1] by (simp add: ring_def)
  have r: "ring (lk_del a (uw_links l)) 1 xs" using pilot_list.del_law[of "uw_links l" 1 xs a "[]"] n(1) a by simp
  define l' where "l' = l\<lparr>uw_links := lk_del a (uw_links l), uw_num := uw_num l - 1\<rparr>"
  have "uw_try_get l = (a, l')" using n(2) emp a pr by (simp add: uw_try_get_def l'_def Let_def)
  moreover have "a \<noteq> 0" using n(1) a by (simp add: ring_def)
  moreover have "cp_data p a = c" "map (cp_data p) (rev xs) = ds" using n(4) a cs by simp_all
  ultimately show "\<exists>n l. uw_try_get (cp_conn_list p) = (n, l) \<and> n \<noteq> 0 \<and> cp_data p n = c \<and> pool_holds (p\<lparr>cp_conn_list := l\<rparr>) ds"
    using n r a unfolding l_def[symmetric]
    by (intro exI[of _ a] exI[of _ l']) (simp add: pool_holds_def l'_def Let_def, intro exI[of _ xs], simp)
qed

lemma acquire_client_ok:
  assumes "pool_holds p cs"
  shows "cs = [] \<Longrightarrow> acquire_client p = (0, p)"
    "cs = c # ds \<Longrightarrow> \<exists>l. acquire_client p = (c, p\<lparr>cp_conn_list := l\<rparr>) \<and> pool_holds (p\<lparr>cp_conn_list := l\<rparr>) ds"
proof -
  show "acquire_client p = (0, p)" if "cs = []" using try_get_ok(1)[OF assms that] by (simp add: acquire_client_def)
  show "\<exists>l. acquire_client p = (c, p\<lparr>cp_conn_list := l\<rparr>) \<and> pool_holds (p\<lparr>cp_conn_list := l\<rparr>) ds" if "cs = c # ds"
    using try_get_ok(2)[OF assms that] by (auto simp: acquire_client_def)
qed

text \<open>The parts of a pool that taking and giving back do not change.\<close>

definition same_pool :: "ConnPool \<Rightarrow> ConnPool \<Rightarrow> bool" where
  "same_pool p p' \<longleftrightarrow> cp_replica p' = cp_replica p \<and> cp_conn_num p' = cp_conn_num p \<and> cp_error_cnt p' = cp_error_cnt p \<and> cp_last_err p' = cp_last_err p"

lemma same_pool_refl [simp]: "same_pool p p" "same_pool p (p\<lparr>cp_conn_list := l\<rparr>)"
  by (simp_all add: same_pool_def)

lemma same_pool_trans: "same_pool a b \<Longrightarrow> same_pool b c \<Longrightarrow> same_pool a c"
  by (simp add: same_pool_def)

lemma release_client_ok:
  assumes "pool_holds p cs"
  shows "\<exists>p'. same_pool p p' \<and> (if int (length cs) > cp_conn_num p
    then release_client c (p, w) = bindr (delete_client c w) (\<lambda>w. Inr (p', w)) \<and> pool_holds p' cs
    else release_client c (p, w) = Inr (p', w) \<and> pool_holds p' (cs @ [c]))"
proof -
  define l where "l = cp_conn_list p"
  obtain ns where n: "ring (uw_links l) 1 ns" "uw_alive l" "uw_num l = int (length ns)" "map (cp_data p) (rev ns) = cs" "\<forall>n \<in> set ns. n < cp_node_brk p" "1 < cp_node_brk p"
    using assms by (auto simp: pool_holds_def Let_def l_def)
  define a where "a = cp_node_brk p"
  define p1 where "p1 = p\<lparr>cp_data := (cp_data p)(a := c), cp_node_brk := Suc a\<rparr>"
  have na: "a \<notin> set (1 # ns)" "a \<noteq> 0" using n(5,6) by (auto simp: a_def)
  have d: "map (cp_data p1) (rev ns) = cs" using n(4) na(1) by (auto simp: p1_def)
  have h1: "pool_holds p1 cs" using n d by (simp add: pool_holds_def p1_def l_def[symmetric] a_def Let_def) (rule exI[of _ ns], auto)
  have r: "ring (lk_add 1 a (uw_links l)) 1 (a # ns)" by (rule pilot_list.push_law[OF n(1) na])
  define p2 where "p2 = p1\<lparr>cp_conn_list := uw_put a l\<rparr>"
  have "map (cp_data p2) (rev (a # ns)) = cs @ [c]" using d by (simp add: p2_def p1_def)
  then have h2: "pool_holds p2 (cs @ [c])" using n r unfolding pool_holds_def Let_def
    by (intro exI[of _ "a # ns"]) (auto simp: p2_def p1_def uw_put_def a_def)
  have len: "uw_len l = int (length cs)" using pool_holds_len[OF assms] by (simp add: l_def)
  show ?thesis
  proof (cases "int (length cs) > cp_conn_num p")
    case True
    then show ?thesis using h1 len by (intro exI[of _ p1]) (simp add: release_client_def Let_def a_def[symmetric] l_def[symmetric] p1_def same_pool_def)
  next
    case False
    then show ?thesis using h2 len by (intro exI[of _ p2]) (simp add: release_client_def Let_def a_def[symmetric] l_def[symmetric] p1_def p2_def same_pool_def)
  qed
qed

section \<open>The clients\<close>

abbreviation lives :: "rpc_world \<Rightarrow> addr set" where
  "lives w \<equiv> {a. live (rw_clients w) a}"

text \<open>\<open>moved w cs w' cs' n\<close>: on the way from \<open>w\<close> to \<open>w'\<close> the clients \<open>cs\<close> became \<open>cs'\<close>, of which at most \<open>n\<close> are new, and no other client was touched.\<close>

definition moved :: "rpc_world \<Rightarrow> addr list \<Rightarrow> rpc_world \<Rightarrow> addr list \<Rightarrow> nat \<Rightarrow> bool" where
  "moved w cs w' cs' n \<longleftrightarrow> (let h = rw_clients w; h' = rw_clients w' in heap_ok h' \<and> h_lim h' = h_lim h \<and> h_brk h \<le> h_brk h' \<and> h_brk h' \<le> h_brk h + n \<and>
     rw_now w' = rw_now w \<and> (\<forall>a. a \<notin> set cs \<longrightarrow> a < h_brk h \<longrightarrow> h_cells h' a = h_cells h a) \<and>
     lives w' = (lives w - set cs) \<union> set cs' \<and> set cs' \<subseteq> set cs \<union> {a. h_brk h \<le> a} \<and> distinct cs')"

lemma moved_refl: "heap_ok (rw_clients w) \<Longrightarrow> distinct cs \<Longrightarrow> set cs \<subseteq> lives w \<Longrightarrow> moved w cs w cs 0"
  by (auto simp: moved_def Let_def)

lemma moved_mono: "moved w cs w' cs' n \<Longrightarrow> n \<le> m \<Longrightarrow> moved w cs w' cs' m"
  by (auto simp: moved_def Let_def)

lemma moved_trans:
  assumes ok: "heap_ok (rw_clients w)" and 1: "moved w cs w1 cs1 n" and 2: "moved w1 cs1 w2 cs2 m"
  shows "moved w cs w2 cs2 (n + m)"
proof -
  note a = 1[unfolded moved_def Let_def] and b = 2[unfolded moved_def Let_def]
  have fresh: "a < h_brk (rw_clients w)" if "live (rw_clients w) a" for a using live_lt_brk[OF ok] that by blast
  have "(lives w - set cs) \<inter> set cs1 = {}" using a fresh by force
  then have "lives w2 = (lives w - set cs) \<union> set cs2" using a b by auto
  moreover have "set cs2 \<subseteq> set cs \<union> {a. h_brk (rw_clients w) \<le> a}" using a b by force
  moreover have "h_cells (rw_clients w2) x = h_cells (rw_clients w) x" if "x \<notin> set cs" "x < h_brk (rw_clients w)" for x
  proof -
    have "x \<notin> set cs1" using a that by force
    then show ?thesis using a b that by simp
  qed
  ultimately show ?thesis using a b unfolding moved_def Let_def by simp
qed

text \<open>Clients that stay where they are can be added on both sides.\<close>

lemma moved_frame:
  assumes ok: "heap_ok (rw_clients w)" and m: "moved w cs w' cs' n" and d: "distinct ds" "set ds \<subseteq> lives w" "set cs \<inter> set ds = {}"
  shows "moved w (cs @ ds) w' (cs' @ ds) n" "set cs' \<inter> set ds = {}"
proof -
  note a = m[unfolded moved_def Let_def]
  have fresh: "x < h_brk (rw_clients w)" if "x \<in> set ds" for x using live_lt_brk[OF ok] that d(2) by blast
  show i: "set cs' \<inter> set ds = {}"
  proof -
    have "x \<notin> set ds" if "x \<in> set cs'" for x using that a fresh[of x] d(3) by force
    then show ?thesis by blast
  qed
  have "lives w' = (lives w - set (cs @ ds)) \<union> set (cs' @ ds)" using a d(2,3) by auto
  then show "moved w (cs @ ds) w' (cs' @ ds) n" using a d(1) i unfolding moved_def Let_def by auto
qed

text \<open>The clients are clients of the replica.\<close>

definition clients_of :: "rpc_world \<Rightarrow> string \<times> int \<Rightarrow> addr list \<Rightarrow> bool" where
  "clients_of w r cs \<longleftrightarrow> distinct cs \<and> (\<forall>c \<in> set cs. \<exists>t. hget (rw_clients w) c = Inr t \<and> tc_replica t = r)"

lemma clients_of_live: "clients_of w r cs \<Longrightarrow> set cs \<subseteq> lives w"
  by (auto simp: clients_of_def live_iff_hget)

lemma clients_of_Nil [simp]: "clients_of w r []"
  by (simp add: clients_of_def)

lemma clients_of_moved:
  assumes "heap_ok (rw_clients w)" "moved w cs w' cs' n" "clients_of w r ds" "set cs \<inter> set ds = {}"
  shows "clients_of w' r ds"
proof -
  have "h_cells (rw_clients w') a = h_cells (rw_clients w) a" if "a \<in> set ds" for a
  proof -
    have "live (rw_clients w) a" using clients_of_live[OF assms(3)] that by blast
    then have "a < h_brk (rw_clients w)" by (rule live_lt_brk[OF assms(1)])
    moreover have "a \<notin> set cs" using that assms(4) by blast
    ultimately show ?thesis using assms(2) by (simp add: moved_def Let_def)
  qed
  then show ?thesis using assms(3) by (simp add: clients_of_def hget_Inr)
qed

lemma delete_client_ok:
  assumes "heap_ok (rw_clients w)" "live (rw_clients w) c"
  shows "\<exists>w'. delete_client c w = Inr w' \<and> moved w [c] w' [] 0"
proof -
  let ?w = "w\<lparr>rw_clients := freed (rw_clients w) {c}\<rparr>"
  have "delete_client c w = Inr ?w" using assms by (simp add: delete_client_def hfree_freed)
  moreover have "moved w [c] ?w [] 0" using assms by (auto simp: moved_def Let_def live_def)
  ultimately show ?thesis by blast
qed

lemma open_service_ok:
  assumes "heap_ok (rw_clients w)" "clients_of w r [c]"
  shows "\<exists>ret w' t. open_service c w = Inr (ret, w') \<and> moved w [c] w' [c] 0 \<and> hget (rw_clients w') c = Inr t \<and> tc_replica t = r \<and> (ret = 0 \<longrightarrow> tc_open t)"
proof -
  obtain t where t: "hget (rw_clients w) c = Inr t" "tc_replica t = r" using assms(2) by (auto simp: clients_of_def)
  have l: "live (rw_clients w) c" "c \<noteq> 0" using t(1) by (auto simp: live_iff_hget hget_def split: if_splits)
  have stay: "moved w [c] (w\<lparr>rw_opens := bs\<rparr>) [c] 0" for bs using assms(1) l by (auto simp: moved_def Let_def)
  have up: "moved w [c] (w\<lparr>rw_clients := hset (rw_clients w) c (t\<lparr>tc_open := True\<rparr>), rw_opens := bs\<rparr>) [c] 0" for bs
    using assms(1) l by (auto simp: moved_def Let_def live_hset)
  show ?thesis
  proof (cases "tc_open t")
    case True
    moreover have "moved w [c] w [c] 0" using assms(1) l by (intro moved_refl) auto
    ultimately show ?thesis using t by (simp add: open_service_def)
  next
    case False
    show ?thesis
    proof (cases "rw_opens w")
      case Nil
      have "moved w [c] w [c] 0" using assms(1) l by (intro moved_refl) auto
      then show ?thesis using Nil False t by (simp add: open_service_def)
    next
      case (Cons b bs)
      then show ?thesis using False t stay[of bs] up[of bs] l(2) by (cases b) (simp_all add: open_service_def hget_hset)
    qed
  qed
qed

lemma close_service_ok:
  assumes "heap_ok (rw_clients w)" "clients_of w r [c]"
  shows "\<exists>w'. close_service c w = Inr w' \<and> moved w [c] w' [c] 0 \<and> clients_of w' r [c]"
proof -
  obtain t where t: "hget (rw_clients w) c = Inr t" "tc_replica t = r" using assms(2) by (auto simp: clients_of_def)
  have l: "live (rw_clients w) c" "c \<noteq> 0" using t(1) by (auto simp: live_iff_hget hget_def split: if_splits)
  let ?w = "w\<lparr>rw_clients := hset (rw_clients w) c (t\<lparr>tc_open := False\<rparr>)\<rparr>"
  have "close_service c w = Inr ?w" using t(1) by (simp add: close_service_def hmod_def)
  moreover have "moved w [c] ?w [c] 0" using assms(1) l by (auto simp: moved_def Let_def live_hset)
  ultimately show ?thesis using t(2) l(2) by (auto simp: clients_of_def hget_hset)
qed

text \<open>A pool and its clients; the time of the last error is known once there is an error.\<close>

definition pool_ok :: "ConnPool \<Rightarrow> rpc_world \<Rightarrow> addr list \<Rightarrow> bool" where
  "pool_ok p w cs \<longleftrightarrow> pool_holds p cs \<and> clients_of w (cp_replica p) cs \<and> (cp_error_cnt p = 0 \<or> cp_last_err p \<noteq> None)"

declare pool_ok_def [inv_defs]

lemma same_pool_ok: "same_pool p p' \<Longrightarrow> pool_ok p w cs \<Longrightarrow> pool_holds p' ds \<Longrightarrow> clients_of w' (cp_replica p) ds \<Longrightarrow> pool_ok p' w' ds"
  by (simp add: pool_ok_def same_pool_def)

lemma clear_conns_ok:
  assumes "pool_ok p w cs" "heap_ok (rw_clients w)" "length cs \<le> k"
  shows "\<exists>p' w'. clear_conns k (p, w) = Inr (p', w') \<and> same_pool p p' \<and> pool_ok p' w' [] \<and> moved w cs w' [] 0"
  using assms
proof (induction cs arbitrary: p w k)
  case Nil
  have h: "pool_holds p []" using Nil(1) by (simp add: pool_ok_def)
  have "clear_conns k (p, w) = Inr (p, w)" using try_get_ok(1)[OF h] by (cases k) simp_all
  then show ?case using Nil moved_refl[OF Nil(2), of "[]"] by auto
next
  case (Cons c cs)
  then obtain k' where k: "k = Suc k'" by (cases k) auto
  have h: "pool_holds p (c # cs)" and cl: "clients_of w (cp_replica p) (c # cs)" using Cons.prems(1) by (simp_all add: pool_ok_def)
  obtain n l where g: "uw_try_get (cp_conn_list p) = (n, l)" "n \<noteq> 0" "cp_data p n = c" "pool_holds (p\<lparr>cp_conn_list := l\<rparr>) cs"
    using try_get_ok(2)[OF h refl] by blast
  have lv: "live (rw_clients w) c" using clients_of_live[OF cl] by simp
  obtain w1 where w1: "delete_client c w = Inr w1" "moved w [c] w1 [] 0" using delete_client_ok[OF Cons.prems(2) lv] by blast
  have ok1: "heap_ok (rw_clients w1)" using w1(2) by (simp add: moved_def Let_def)
  have d: "distinct cs" "set cs \<subseteq> lives w" "set [c] \<inter> set cs = {}" using cl clients_of_live[OF cl] by (auto simp: clients_of_def)
  have cs: "clients_of w (cp_replica p) cs" using cl by (simp add: clients_of_def)
  have c1: "clients_of w1 (cp_replica p) cs" by (rule clients_of_moved[OF Cons.prems(2) w1(2) cs d(3)])
  have p1: "pool_ok (p\<lparr>cp_conn_list := l\<rparr>) w1 cs" by (rule same_pool_ok[OF same_pool_refl(2) Cons.prems(1) g(4) c1])
  from Cons.IH[OF p1 ok1, of k'] Cons.prems(3) k obtain p' w' where r: "clear_conns k' (p\<lparr>cp_conn_list := l\<rparr>, w1) = Inr (p', w')"
    "same_pool (p\<lparr>cp_conn_list := l\<rparr>) p'" "pool_ok p' w' []" "moved w1 cs w' [] 0" by auto
  have "moved w ([c] @ cs) w1 ([] @ cs) 0" by (rule moved_frame(1)[OF Cons.prems(2) w1(2) d])
  from moved_trans[OF Cons.prems(2) this, of w' "[]" 0] r(4) have "moved w (c # cs) w' [] 0" by simp
  then show ?case using k g w1(1) r same_pool_trans[OF same_pool_refl(2) r(2)] by auto
qed

lemma init_one_ok:
  assumes "pool_ok p w cs" "heap_ok (rw_clients w)" "h_brk (rw_clients w) < h_lim (rw_clients w)"
  shows "\<exists>p' w' cs'. init_one_conn (p, w) = Inr (int (length cs'), p', w') \<and> same_pool p p' \<and> pool_ok p' w' cs' \<and> moved w cs w' cs' 1"
proof -
  let ?c = "h_brk (rw_clients w)" and ?t = "\<lparr>tc_replica = cp_replica p, tc_open = False\<rparr>"
  define w1 where "w1 = w\<lparr>rw_clients := hnew ?t (rw_clients w)\<rparr>"
  have h: "pool_holds p cs" and cl: "clients_of w (cp_replica p) cs" using assms(1) by (simp_all add: pool_ok_def)
  have c0: "?c \<noteq> 0" "\<not> live (rw_clients w) ?c" using assms(2) brk_fresh by (auto simp: heap_ok_def)
  have nc: "?c \<notin> set cs" using clients_of_live[OF cl] c0(2) by blast
  have al: "halloc ?t (rw_clients w) = (?c, rw_clients w1)" using assms(3) by (simp add: halloc_room w1_def)
  have ok1: "heap_ok (rw_clients w1)" using assms(2) by (simp add: w1_def)
  have m1: "moved w [] w1 [?c] 1" using assms(2) c0 by (auto simp: moved_def Let_def w1_def live_def)
  have cl1: "clients_of w1 (cp_replica p) [?c]" using assms(2) by (simp add: clients_of_def w1_def hget_hnew)
  obtain ret w2 t where o: "open_service ?c w1 = Inr (ret, w2)" "moved w1 [?c] w2 [?c] 0" "hget (rw_clients w2) ?c = Inr t" "tc_replica t = cp_replica p"
    using open_service_ok[OF ok1 cl1] by blast
  have m2: "moved w [] w2 [?c] 1" using moved_trans[OF assms(2) m1 o(2)] by simp
  have ok2: "heap_ok (rw_clients w2)" using o(2) by (simp add: moved_def Let_def)
  have d: "distinct cs" "set cs \<subseteq> lives w" "set [] \<inter> set cs = {}" using cl clients_of_live[OF cl] by (auto simp: clients_of_def)
  have m2': "moved w cs w2 ([?c] @ cs) 1" using moved_frame(1)[OF assms(2) m2 d] by simp
  then have perm: "moved w cs w2 (cs @ [?c]) 1" by (auto simp: moved_def Let_def)
  have cl2: "clients_of w2 (cp_replica p) cs" by (rule clients_of_moved[OF assms(2) m2 cl]) simp
  have lv: "live (rw_clients w2) ?c" using o(3) by (auto simp: live_iff_hget)
  obtain w3 where w3: "delete_client ?c w2 = Inr w3" "moved w2 [?c] w3 [] 0" using delete_client_ok[OF ok2 lv] by blast
  have m3: "moved w cs w3 cs 1"
  proof -
    have "distinct cs" "set cs \<subseteq> lives w2" "set [?c] \<inter> set cs = {}" using d clients_of_live[OF cl2] nc by auto
    from moved_frame(1)[OF ok2 w3(2) this] moved_trans[OF assms(2) m2', of w3 cs 0] show ?thesis by simp
  qed
  have cl3: "clients_of w3 (cp_replica p) cs" using clients_of_moved[OF ok2 w3(2) cl2] nc by simp
  obtain p' where p': "same_pool p p'" "if int (length cs) > cp_conn_num p
    then release_client ?c (p, w2) = bindr (delete_client ?c w2) (\<lambda>w. Inr (p', w)) \<and> pool_holds p' cs
    else release_client ?c (p, w2) = Inr (p', w2) \<and> pool_holds p' (cs @ [?c])" using release_client_ok[OF h, of ?c w2] by blast
  show ?thesis
  proof (cases "ret = 0")
    case False
    then have "init_one_conn (p, w) = Inr (int (length cs), p, w3)" using al c0 o(1) w3(1) pool_holds_len[OF h] by (simp add: init_one_conn_def w1_def)
    then show ?thesis using m3 same_pool_ok[OF same_pool_refl(1) assms(1) h cl3] by (intro exI[of _ p] exI[of _ w3] exI[of _ cs]) simp
  next
    case True
    show ?thesis
    proof (cases "int (length cs) > cp_conn_num p")
      case big: True
      then have r: "release_client ?c (p, w2) = Inr (p', w3)" "pool_holds p' cs" using p'(2) w3(1) by simp_all
      then have "init_one_conn (p, w) = Inr (int (length cs), p', w3)" using al c0 o(1) True pool_holds_len[OF r(2)] by (simp add: init_one_conn_def w1_def)
      then show ?thesis using m3 p'(1) same_pool_ok[OF p'(1) assms(1) r(2) cl3] by blast
    next
      case small: False
      then have r: "release_client ?c (p, w2) = Inr (p', w2)" "pool_holds p' (cs @ [?c])" using p'(2) by simp_all
      have "clients_of w2 (cp_replica p) (cs @ [?c])" using cl2 nc o(3,4) by (auto simp: clients_of_def)
      moreover have "init_one_conn (p, w) = Inr (int (length (cs @ [?c])), p', w2)" using al c0 o(1) True r(1) pool_holds_len[OF r(2)] by (simp add: init_one_conn_def w1_def)
      ultimately show ?thesis using perm p'(1) same_pool_ok[OF p'(1) assms(1) r(2)] by blast
    qed
  qed
qed

lemma init_conns_ok:
  assumes "pool_ok p w cs" "heap_ok (rw_clients w)" "h_brk (rw_clients w) + n \<le> h_lim (rw_clients w)"
  shows "\<exists>r p' w' cs'. init_conns n r0 (p, w) = Inr (r, p', w') \<and> same_pool p p' \<and> pool_ok p' w' cs' \<and> moved w cs w' cs' n"
  using assms
proof (induction n arbitrary: p w cs r0)
  case 0
  have "distinct cs" "set cs \<subseteq> lives w" using 0(1) clients_of_live[of w "cp_replica p" cs] by (auto simp: pool_ok_def clients_of_def)
  then show ?case using 0 moved_refl by auto
next
  case (Suc n)
  then obtain p1 w1 cs1 where i: "init_one_conn (p, w) = Inr (int (length cs1), p1, w1)" "same_pool p p1" "pool_ok p1 w1 cs1" "moved w cs w1 cs1 1"
    using init_one_ok[of p w cs] by auto
  have "heap_ok (rw_clients w1)" "h_brk (rw_clients w1) + n \<le> h_lim (rw_clients w1)" using i(4) Suc.prems(3) by (auto simp: moved_def Let_def)
  from Suc.IH[OF i(3) this, of "int (length cs1)"] obtain r p' w' cs' where r: "init_conns n (int (length cs1)) (p1, w1) = Inr (r, p', w')" "same_pool p1 p'" "pool_ok p' w' cs'" "moved w1 cs1 w' cs' n" by blast
  have "moved w cs w' cs' (Suc n)" using moved_trans[OF Suc.prems(2) i(4) r(4)] by simp
  then show ?case using i(1) r(1,3) same_pool_trans[OF i(2) r(2)] by auto
qed

lemma refresh_pool_ok:
  assumes "pool_ok p w cs" "heap_ok (rw_clients w)" "h_brk (rw_clients w) + nat (cp_conn_num p) \<le> h_lim (rw_clients w)"
  shows "\<exists>ok p' w' cs'. refresh_pool (p, w) = Inr (ok, p', w') \<and> same_pool p p' \<and> pool_ok p' w' cs' \<and> moved w cs w' cs' (nat (cp_conn_num p))"
proof -
  have "length cs \<le> cp_node_brk p" using assms(1) pool_holds_fuel by (auto simp: pool_ok_def)
  from clear_conns_ok[OF assms(1,2) this] obtain p1 w1 where c: "clear_conns (cp_node_brk p) (p, w) = Inr (p1, w1)" "same_pool p p1" "pool_ok p1 w1 []" "moved w cs w1 [] 0" by blast
  have n: "cp_conn_num p1 = cp_conn_num p" using c(2) by (simp add: same_pool_def)
  have "heap_ok (rw_clients w1)" "h_brk (rw_clients w1) + nat (cp_conn_num p) \<le> h_lim (rw_clients w1)" using c(4) assms(3) by (auto simp: moved_def Let_def)
  from init_conns_ok[OF c(3) this, of 0] obtain r p' w' cs' where i: "init_conns (nat (cp_conn_num p)) 0 (p1, w1) = Inr (r, p', w')" "same_pool p1 p'" "pool_ok p' w' cs'"
    "moved w1 [] w' cs' (nat (cp_conn_num p))" by blast
  have "refresh_pool (p, w) = Inr (r > 0, p', w')" using c(1) i(1) n by (simp add: refresh_pool_def clear_pool_def init_pool_def)
  then show ?thesis using moved_trans[OF assms(2) c(4) i(4)] i(3) same_pool_trans[OF c(2) i(2)] by auto
qed

lemma release_back_ok:
  assumes "pool_ok p w cs" "heap_ok (rw_clients w)" "clients_of w (cp_replica p) [c]" "c \<notin> set cs"
  shows "\<exists>p' w' cs'. release_client c (p, w) = Inr (p', w') \<and> same_pool p p' \<and> pool_ok p' w' cs' \<and> moved w (c # cs) w' cs' 0"
proof -
  have h: "pool_holds p cs" and cl: "clients_of w (cp_replica p) cs" using assms(1) by (simp_all add: pool_ok_def)
  have d: "distinct cs" "set cs \<subseteq> lives w" "set [c] \<inter> set cs = {}" using cl clients_of_live[OF cl] assms(4) by (auto simp: clients_of_def)
  have lv: "live (rw_clients w) c" using clients_of_live[OF assms(3)] by simp
  obtain p' where p': "same_pool p p'" "if int (length cs) > cp_conn_num p
    then release_client c (p, w) = bindr (delete_client c w) (\<lambda>w. Inr (p', w)) \<and> pool_holds p' cs
    else release_client c (p, w) = Inr (p', w) \<and> pool_holds p' (cs @ [c])" using release_client_ok[OF h, of c w] by blast
  show ?thesis
  proof (cases "int (length cs) > cp_conn_num p")
    case True
    obtain w' where w': "delete_client c w = Inr w'" "moved w [c] w' [] 0" using delete_client_ok[OF assms(2) lv] by blast
    have cl': "clients_of w' (cp_replica p) cs" by (rule clients_of_moved[OF assms(2) w'(2) cl d(3)])
    show ?thesis using True p' w'(1) moved_frame(1)[OF assms(2) w'(2) d] same_pool_ok[OF p'(1) assms(1) _ cl']
      by (intro exI[of _ p'] exI[of _ w'] exI[of _ cs]) simp
  next
    case False
    have "clients_of w (cp_replica p) (cs @ [c])" using cl assms(3,4) by (auto simp: clients_of_def)
    moreover have "moved w (c # cs) w (cs @ [c]) 0" using assms(2,4) d lv by (auto simp: moved_def Let_def)
    ultimately show ?thesis using False p' same_pool_ok[OF p'(1) assms(1), of "cs @ [c]" w]
      by (intro exI[of _ p'] exI[of _ w] exI[of _ "cs @ [c]"]) simp
  qed
qed

text \<open>The client a caller has in hand, if any.\<close>

definition hand :: "addr \<Rightarrow> addr list" where
  "hand c = (if c = 0 then [] else [c])"

definition same_base :: "ConnPool \<Rightarrow> ConnPool \<Rightarrow> bool" where
  "same_base p p' \<longleftrightarrow> cp_replica p' = cp_replica p \<and> cp_conn_num p' = cp_conn_num p"

lemma same_pool_base: "same_pool p p' \<Longrightarrow> same_base p p'"
  by (simp add: same_pool_def same_base_def)

lemma same_base_trans: "same_base a b \<Longrightarrow> same_base b c \<Longrightarrow> same_base a c"
  by (simp add: same_base_def)

lemma pool_ok_report: "pool_ok p w cs \<Longrightarrow> pool_ok (report_error t p) w cs" "same_base p (report_error t p)"
  by (simp_all add: pool_ok_def report_error_def pool_holds_fields same_base_def)

lemma pool_ok_healthy: "pool_ok p w cs \<Longrightarrow> \<exists>st. is_healthy now p = Inr st"
  by (auto simp: pool_ok_def is_healthy_def Let_def)

text \<open>Taking a client out of a pool and opening it, or putting it back.\<close>

definition take_open :: "ConnPool \<times> rpc_world \<Rightarrow> (addr \<times> ConnPool \<times> rpc_world) res" where
  "take_open = (\<lambda>(p, w). case acquire_client p of (clientp, p) \<Rightarrow>
     if clientp = 0 then Inr (0, p, w)
     else bindr (open_service clientp w) (\<lambda>(ret, w).
       if ret = 0 then Inr (clientp, p, w)
       else bindr (open_service clientp w) (\<lambda>(_, w). bindr (release_client clientp (p, w)) (\<lambda>(p, w). Inr (0, p, w)))))"

lemma take_open_ok:
  assumes "pool_ok p w cs" "heap_ok (rw_clients w)"
  shows "\<exists>r p' w' cs'. take_open (p, w) = Inr (r, p', w') \<and> same_base p p' \<and> pool_ok p' w' cs' \<and> moved w cs w' (hand r @ cs') 0 \<and>
    (r \<noteq> 0 \<longrightarrow> (\<exists>t. hget (rw_clients w') r = Inr t \<and> tc_open t \<and> tc_replica t = cp_replica p))"
proof (cases cs)
  case Nil
  have "pool_holds p []" using assms(1) Nil by (simp add: pool_ok_def)
  then have "take_open (p, w) = Inr (0, p, w)" using acquire_client_ok(1)[of p "[]"] by (simp add: take_open_def)
  then show ?thesis using assms Nil moved_refl[OF assms(2), of "[]"] by (auto simp: hand_def same_base_def)
next
  case (Cons c ds)
  have h: "pool_holds p (c # ds)" and cl: "clients_of w (cp_replica p) (c # ds)" using assms(1) Cons by (simp_all add: pool_ok_def)
  obtain l where a: "acquire_client p = (c, p\<lparr>cp_conn_list := l\<rparr>)" "pool_holds (p\<lparr>cp_conn_list := l\<rparr>) ds" using acquire_client_ok(2)[OF h refl] by blast
  define p1 where "p1 = p\<lparr>cp_conn_list := l\<rparr>"
  have c1: "clients_of w (cp_replica p) [c]" and cd: "clients_of w (cp_replica p) ds" using cl by (simp_all add: clients_of_def)
  have c0: "c \<noteq> 0" using c1 by (auto simp: clients_of_def hget_def split: if_splits)
  have d: "distinct ds" "set ds \<subseteq> lives w" "set [c] \<inter> set ds = {}" using cl clients_of_live[OF cl] by (auto simp: clients_of_def)
  obtain ret w1 t where o: "open_service c w = Inr (ret, w1)" "moved w [c] w1 [c] 0" "hget (rw_clients w1) c = Inr t" "tc_replica t = cp_replica p" "ret = 0 \<longrightarrow> tc_open t"
    using open_service_ok[OF assms(2) c1] by blast
  have ok1: "heap_ok (rw_clients w1)" using o(2) by (simp add: moved_def Let_def)
  have m1: "moved w (c # ds) w1 (c # ds) 0" using moved_frame(1)[OF assms(2) o(2) d] by simp
  have cd1: "clients_of w1 (cp_replica p) ds" by (rule clients_of_moved[OF assms(2) o(2) cd d(3)])
  have cc1: "clients_of w1 (cp_replica p) [c]" using o(3,4) by (simp add: clients_of_def)
  show ?thesis
  proof (cases "ret = 0")
    case True
    then have "take_open (p, w) = Inr (c, p1, w1)" using a(1) c0 o(1) by (simp add: take_open_def p1_def)
    moreover have "pool_ok p1 w1 ds" using same_pool_ok[OF same_pool_refl(2) assms(1) a(2) cd1] by (simp add: p1_def)
    moreover have "same_base p p1" by (simp add: p1_def same_base_def)
    moreover have "moved w cs w1 (hand c @ ds) 0" using m1 Cons c0 by (simp add: hand_def)
    ultimately show ?thesis using o(3,4,5) True by blast
  next
    case False
    obtain ret2 w2 t2 where o2: "open_service c w1 = Inr (ret2, w2)" "moved w1 [c] w2 [c] 0" "hget (rw_clients w2) c = Inr t2" "tc_replica t2 = cp_replica p"
      using open_service_ok[OF ok1 cc1] by blast
    have ok2: "heap_ok (rw_clients w2)" using o2(2) by (simp add: moved_def Let_def)
    have d1: "distinct ds" "set ds \<subseteq> lives w1" "set [c] \<inter> set ds = {}" using d clients_of_live[OF cd1] by auto
    have m2: "moved w1 (c # ds) w2 (c # ds) 0" using moved_frame(1)[OF ok1 o2(2) d1] by simp
    have cd2: "clients_of w2 (cp_replica p1) ds" using clients_of_moved[OF ok1 o2(2) cd1 d(3)] by (simp add: p1_def)
    have p2: "pool_ok p1 w2 ds" using same_pool_ok[OF same_pool_refl(2) assms(1) a(2), of w2] cd2 by (simp add: p1_def)
    have cc2: "clients_of w2 (cp_replica p1) [c]" using o2(3,4) by (simp add: clients_of_def p1_def)
    obtain p3 w3 cs3 where r: "release_client c (p1, w2) = Inr (p3, w3)" "same_pool p1 p3" "pool_ok p3 w3 cs3" "moved w2 (c # ds) w3 cs3 0"
      using release_back_ok[OF p2 ok2 cc2] d(3) by auto
    have "take_open (p, w) = Inr (0, p3, w3)" using a(1) c0 o(1) False o2(1) r(1) by (simp add: take_open_def p1_def)
    moreover have "moved w cs w3 (hand 0 @ cs3) 0" using moved_trans[OF assms(2) moved_trans[OF assms(2) m1 m2] r(4)] Cons by (simp add: hand_def)
    moreover have "same_base p p3" using r(2) by (simp add: p1_def same_pool_def same_base_def)
    ultimately show ?thesis using r(3) by blast
  qed
qed

lemma try_replica_ok:
  assumes "pool_ok p w cs" "heap_ok (rw_clients w)" "h_brk (rw_clients w) + nat (cp_conn_num p) \<le> h_lim (rw_clients w)"
  shows "\<exists>r p' w' cs'. try_replica (p, w) = Inr (r, p', w') \<and> same_base p p' \<and> pool_ok p' w' cs' \<and> moved w cs w' (hand r @ cs') (nat (cp_conn_num p)) \<and>
    (r \<noteq> 0 \<longrightarrow> (\<exists>t. hget (rw_clients w') r = Inr t \<and> tc_open t \<and> tc_replica t = cp_replica p))"
proof -
  obtain st where st: "is_healthy (rw_now w) p = Inr st" using pool_ok_healthy[OF assms(1)] by blast
  have live: "distinct cs" "set cs \<subseteq> lives w" using assms(1) clients_of_live[of w "cp_replica p" cs] by (auto simp: pool_ok_def clients_of_def)
  have m0: "moved w cs w cs (nat (cp_conn_num p))" by (rule moved_mono[OF moved_refl[OF assms(2) live]]) simp
  have go: ?thesis if e: "try_replica (p, w) = take_open (p1, w1)" "same_base p p1" "pool_ok p1 w1 cs1" "moved w cs w1 cs1 (nat (cp_conn_num p))" for p1 w1 cs1
  proof -
    have ok1: "heap_ok (rw_clients w1)" using e(4) by (simp add: moved_def Let_def)
    obtain r p' w' cs' where t: "take_open (p1, w1) = Inr (r, p', w')" "same_base p1 p'" "pool_ok p' w' cs'" "moved w1 cs1 w' (hand r @ cs') 0"
      "r \<noteq> 0 \<longrightarrow> (\<exists>t. hget (rw_clients w') r = Inr t \<and> tc_open t \<and> tc_replica t = cp_replica p1)" using take_open_ok[OF e(3) ok1] by blast
    have "cp_replica p1 = cp_replica p" using e(2) by (simp add: same_base_def)
    then show ?thesis using t e(1) same_base_trans[OF e(2) t(2)] moved_trans[OF assms(2) e(4) t(4)] by auto
  qed
  have tr: "try_replica (p, w) = (if st \<noteq> HEALTHY \<and> st \<noteq> NOT_HEALTHY_BUT_CAN_HAVEATRY then Inr (0, p, w)
     else bindr (if st = NOT_HEALTHY_BUT_CAN_HAVEATRY
         then bindr (refresh_pool (p, w)) (\<lambda>(ok, p, w). Inr (if ok then p else report_error (rw_now w) p, w)) else Inr (p, w)) take_open)"
    using st by (simp add: try_replica_def take_open_def)
  show ?thesis
  proof (cases st)
    case HEALTHY
    then show ?thesis using go[of p w cs] tr assms(1) m0 by (simp add: same_base_def)
  next
    case NOT_HEALTHY_BUT_CAN_HAVEATRY
    obtain ok p1 w1 cs1 where r: "refresh_pool (p, w) = Inr (ok, p1, w1)" "same_pool p p1" "pool_ok p1 w1 cs1" "moved w cs w1 cs1 (nat (cp_conn_num p))"
      using refresh_pool_ok[OF assms] by blast
    define p2 where "p2 = (if ok then p1 else report_error (rw_now w1) p1)"
    have "pool_ok p2 w1 cs1" "same_base p p2" using r(2,3) pool_ok_report(1)[of p1 w1 cs1 "rw_now w1"] pool_ok_report(2)[of p1 "rw_now w1"] same_base_trans[OF same_pool_base[OF r(2)]]
      by (auto simp: p2_def same_pool_base)
    then show ?thesis using go[of p2 w1 cs1] tr r(1,4) NOT_HEALTHY_BUT_CAN_HAVEATRY by (simp add: p2_def)
  next
    case NOT_HEALTHY_AND_CANNOT_BE_USED_TEMP
    then show ?thesis using tr assms(1) m0 by (intro exI[of _ 0] exI[of _ p] exI[of _ w] exI[of _ cs]) (simp add: same_base_def hand_def)
  next
    case DEAD
    then show ?thesis using tr assms(1) m0 by (intro exI[of _ 0] exI[of _ p] exI[of _ w] exI[of _ cs]) (simp add: same_base_def hand_def)
  qed
qed

section \<open>The table\<close>

definition pc_ok :: "PooledClient \<Rightarrow> rpc_world \<Rightarrow> addr list list \<Rightarrow> bool" where
  "pc_ok pc w C \<longleftrightarrow> (let vec = pc_conn_pool_vec pc in length C = length vec \<and> heap_ok (rw_clients w) \<and> distinct (concat C) \<and>
     (\<forall>k < length vec. pool_ok (rcp_conn_pool (vec ! k)) w (C ! k) \<and> cp_replica (rcp_conn_pool (vec ! k)) = rcp_backend_replica (vec ! k) \<and>
        cp_conn_num (rcp_conn_pool (vec ! k)) = pc_num_clients_per_replica pc))"

declare pc_ok_def [inv_defs]

definition same_table :: "PooledClient \<Rightarrow> PooledClient \<Rightarrow> bool" where
  "same_table pc pc' \<longleftrightarrow> pc_num_clients_per_replica pc' = pc_num_clients_per_replica pc \<and> pc_replica_map pc' = pc_replica_map pc \<and>
     map (\<lambda>r. (rcp_backend_replica r, rcp_replica_id r, rcp_status r)) (pc_conn_pool_vec pc') =
     map (\<lambda>r. (rcp_backend_replica r, rcp_replica_id r, rcp_status r)) (pc_conn_pool_vec pc)"

lemma same_table_refl [simp]: "same_table pc pc" "same_table pc (pc\<lparr>pc_cur_replica_index := i\<rparr>)"
  by (simp_all add: same_table_def)

lemma same_table_trans: "same_table a b \<Longrightarrow> same_table b c \<Longrightarrow> same_table a c"
  by (simp add: same_table_def)

lemma same_table_length: "same_table a b \<Longrightarrow> length (pc_conn_pool_vec b) = length (pc_conn_pool_vec a)"
proof -
  assume "same_table a b"
  then have "length (map (\<lambda>r. (rcp_backend_replica r, rcp_replica_id r, rcp_status r)) (pc_conn_pool_vec b)) =
      length (map (\<lambda>r. (rcp_backend_replica r, rcp_replica_id r, rcp_status r)) (pc_conn_pool_vec a))" by (simp only: same_table_def)
  then show ?thesis by simp
qed

lemma same_table_set_pool: "same_table pc (set_pool k p pc)"
  unfolding same_table_def set_pool_def by (cases "k < length (pc_conn_pool_vec pc)") (simp_all add: map_update list_update_same_conv list_update_beyond)

lemma moved_perm: "moved w cs w' cs' n \<Longrightarrow> set ds = set cs \<Longrightarrow> mset ds' = mset cs' \<Longrightarrow> moved w ds w' ds' n"
  using mset_eq_setD[of ds' cs'] mset_eq_imp_distinct_iff[of ds' cs'] by (simp add: moved_def)

lemma concat_split: "k < length C \<Longrightarrow> mset (concat C) = mset (C ! k @ concat (take k C @ drop (Suc k) C))"
  "k < length C \<Longrightarrow> mset (concat (C[k := xs])) = mset (xs @ concat (take k C @ drop (Suc k) C))"
proof -
  assume k: "k < length C"
  show "mset (concat C) = mset (C ! k @ concat (take k C @ drop (Suc k) C))" by (subst (1) id_take_nth_drop[OF k]) simp
  show "mset (concat (C[k := xs])) = mset (xs @ concat (take k C @ drop (Suc k) C))" by (subst upd_conv_take_nth_drop[OF k]) simp
qed

lemma pc_okD:
  assumes "pc_ok pc w C"
  shows "length C = length (pc_conn_pool_vec pc)" "heap_ok (rw_clients w)" "distinct (concat C)"
    "k < length (pc_conn_pool_vec pc) \<Longrightarrow> pool_ok (rcp_conn_pool (pc_conn_pool_vec pc ! k)) w (C ! k)"
    "k < length (pc_conn_pool_vec pc) \<Longrightarrow> cp_replica (rcp_conn_pool (pc_conn_pool_vec pc ! k)) = rcp_backend_replica (pc_conn_pool_vec pc ! k)"
    "k < length (pc_conn_pool_vec pc) \<Longrightarrow> cp_conn_num (rcp_conn_pool (pc_conn_pool_vec pc ! k)) = pc_num_clients_per_replica pc"
  using assms unfolding pc_ok_def Let_def by blast+

lemma pool_ok_live: "pool_ok p w cs \<Longrightarrow> set cs \<subseteq> lives w"
  unfolding pool_ok_def by (intro clients_of_live) blast

lemma pc_ok_live:
  assumes "pc_ok pc w C"
  shows "set (concat C) \<subseteq> lives w"
proof
  fix x assume "x \<in> set (concat C)"
  then obtain j where j: "j < length C" "x \<in> set (C ! j)" by (metis UN_E in_set_conv_nth set_concat)
  then show "x \<in> lives w" using pool_ok_live[OF pc_okD(4)[OF assms, of j]] pc_okD(1)[OF assms] by auto
qed

lemma nth_in_others: "j < length C \<Longrightarrow> j \<noteq> k \<Longrightarrow> C ! j \<in> set (take k C @ drop (Suc k) C)"
proof (cases "j < k")
  case True
  assume "j < length C"
  then have "take k C ! j \<in> set (take k C)" using True by (intro nth_mem) simp
  then show ?thesis using True by simp
next
  case False
  assume j: "j < length C" "j \<noteq> k"
  then have "drop (Suc k) C ! (j - Suc k) \<in> set (drop (Suc k) C)" using False by (intro nth_mem) simp
  then show ?thesis using False j by simp
qed

text \<open>One pool of the table is used; \<open>h\<close> and \<open>h'\<close> are the clients in hand.\<close>

lemma table_step:
  assumes t: "pc_ok pc w C" and k: "k < length (pc_conn_pool_vec pc)" and p: "pool_ok p' w' cs'" "same_base (rcp_conn_pool (pc_conn_pool_vec pc ! k)) p'"
    and h: "distinct h" "set h \<subseteq> lives w" "set h \<inter> set (concat C) = {}" and m: "moved w (h @ C ! k) w' (h' @ cs') n"
  shows "pc_ok (set_pool k p' pc) w' (C[k := cs'])" "moved w (h @ concat C) w' (h' @ concat (C[k := cs'])) n" "same_table pc (set_pool k p' pc)"
proof -
  define vec where "vec = pc_conn_pool_vec pc"
  define ds where "ds = concat (take k C @ drop (Suc k) C)"
  have len: "length C = length vec" and ok: "heap_ok (rw_clients w)" and dc: "distinct (concat C)" using pc_okD(1-3)[OF t] by (simp_all add: vec_def)
  have po: "pool_ok (rcp_conn_pool (vec ! j)) w (C ! j)" "cp_replica (rcp_conn_pool (vec ! j)) = rcp_backend_replica (vec ! j)"
    "cp_conn_num (rcp_conn_pool (vec ! j)) = pc_num_clients_per_replica pc" if "j < length vec" for j using pc_okD(4-6)[OF t] that by (simp_all add: vec_def)
  have kC: "k < length C" using k len by (simp add: vec_def)
  note sp = concat_split(1)[OF kC, folded ds_def] concat_split(2)[OF kC, of cs', folded ds_def]
  have set: "set (concat C) = set (C ! k) \<union> set ds" using mset_eq_setD[OF sp(1)] by simp
  have dd: "distinct ds" "set (C ! k) \<inter> set ds = {}" using dc mset_eq_imp_distinct_iff[OF sp(1)] by auto
  have live: "set (concat C) \<subseteq> lives w" by (rule pc_ok_live[OF t])
  have dl: "set ds \<subseteq> lives w" "set (h @ C ! k) \<inter> set ds = {}" using live set dd(2) h(3) by auto
  note fr = moved_frame[OF ok m dd(1) dl]
  show mv: "moved w (h @ concat C) w' (h' @ concat (C[k := cs'])) n"
    by (rule moved_perm[OF fr(1)]) (use set sp(2) in auto)
  show "same_table pc (set_pool k p' pc)" by (rule same_table_set_pool)
  have ok': "heap_ok (rw_clients w')" and dist: "distinct (concat (C[k := cs']))" using mv by (simp_all add: moved_def Let_def)
  have "pool_ok (rcp_conn_pool (vec ! j)) w' (C ! j)" if j: "j < length vec" "j \<noteq> k" for j
  proof -
    have "set (C ! j) \<subseteq> set ds" using nth_in_others[of j C k] j len unfolding ds_def by auto
    then have "set (h @ C ! k) \<inter> set (C ! j) = {}" using dl(2) by blast
    then show ?thesis using po(1)[OF j(1)] clients_of_moved[OF ok m] by (simp add: pool_ok_def)
  qed
  moreover have "cp_replica p' = rcp_backend_replica (vec ! k)" "cp_conn_num p' = pc_num_clients_per_replica pc"
    using p(2) po(2,3)[of k] k by (simp_all add: same_base_def vec_def)
  ultimately show "pc_ok (set_pool k p' pc) w' (C[k := cs'])"
    using po(2,3) ok' dist len p(1) k unfolding pc_ok_def Let_def set_pool_def vec_def[symmetric] by (auto simp: nth_list_update)
qed

lemma pc_ok_index [simp]: "pc_ok (pc\<lparr>pc_cur_replica_index := i\<rparr>) w C = pc_ok pc w C"
  by (simp add: pc_ok_def)

text \<open>A client that is open, of a replica that is not off line.\<close>

definition open_client :: "PooledClient \<Rightarrow> rpc_world \<Rightarrow> addr \<Rightarrow> bool" where
  "open_client pc w r \<longleftrightarrow> (\<exists>t. hget (rw_clients w) r = Inr t \<and> tc_open t \<and>
     (\<exists>v \<in> set (pc_conn_pool_vec pc). rcp_status v \<noteq> 0 \<and> rcp_backend_replica v = tc_replica t))"

lemma open_client_table:
  assumes "same_table pc pc2" "open_client pc2 w r"
  shows "open_client pc w r"
proof -
  obtain t v where t: "hget (rw_clients w) r = Inr t" "tc_open t" "v \<in> set (pc_conn_pool_vec pc2)" "rcp_status v \<noteq> 0" "rcp_backend_replica v = tc_replica t"
    using assms(2) by (auto simp: open_client_def)
  have "set (map (\<lambda>r. (rcp_backend_replica r, rcp_replica_id r, rcp_status r)) (pc_conn_pool_vec pc2)) =
      set (map (\<lambda>r. (rcp_backend_replica r, rcp_replica_id r, rcp_status r)) (pc_conn_pool_vec pc))" using assms(1) by (simp only: same_table_def)
  moreover have "(rcp_backend_replica v, rcp_replica_id v, rcp_status v) \<in> set (map (\<lambda>r. (rcp_backend_replica r, rcp_replica_id r, rcp_status r)) (pc_conn_pool_vec pc2))"
    using t(3) by simp
  ultimately obtain v' where "v' \<in> set (pc_conn_pool_vec pc)" "rcp_backend_replica v' = rcp_backend_replica v" "rcp_status v' = rcp_status v" by auto
  then show ?thesis using t unfolding open_client_def by (intro exI[of _ t] conjI bexI[of _ v']) simp_all
qed

lemma next_index_less: "0 < length (pc_conn_pool_vec pc) \<Longrightarrow> next_index pc < length (pc_conn_pool_vec pc)"
proof -
  assume "0 < length (pc_conn_pool_vec pc)"
  then have "x mod int (length (pc_conn_pool_vec pc)) < int (length (pc_conn_pool_vec pc)) \<and> 0 \<le> x mod int (length (pc_conn_pool_vec pc))" for x
    by (simp add: pos_mod_bound pos_mod_sign)
  then show ?thesis unfolding next_index_def by (simp add: nat_less_iff)
qed

lemma acquire_loop_ok:
  assumes "pc_ok pc w C" "h_brk (rw_clients w) + n * nat (pc_num_clients_per_replica pc) \<le> h_lim (rw_clients w)" "n \<le> length (pc_conn_pool_vec pc)"
  shows "\<exists>r pc' w' C'. acquire_loop n (pc, w) = Inr (r, pc', w') \<and> pc_ok pc' w' C' \<and> same_table pc pc' \<and>
    moved w (concat C) w' (hand r @ concat C') (n * nat (pc_num_clients_per_replica pc)) \<and>
    (r \<noteq> 0 \<longrightarrow> open_client pc w' r)"
  using assms
proof (induction n arbitrary: pc w C)
  case 0
  have "heap_ok (rw_clients w)" "distinct (concat C)" using 0(1) by (simp_all add: pc_ok_def Let_def)
  from moved_refl[OF this pc_ok_live[OF 0(1)]] show ?case using 0(1) by (auto simp: hand_def)
next
  case (Suc n)
  define N where "N = nat (pc_num_clients_per_replica pc)"
  define pc1 where "pc1 = pc\<lparr>pc_cur_replica_index := s32 (pc_cur_replica_index pc + 1)\<rparr>"
  define vec where "vec = pc_conn_pool_vec pc"
  define k where "k = next_index pc"
  have ln: "0 < length vec" using Suc.prems(3) unfolding vec_def by linarith
  have k: "k < length vec" using next_index_less[of pc] ln by (simp add: k_def vec_def)
  have ok: "heap_ok (rw_clients w)" and len: "length C = length vec" using pc_okD(1,2)[OF Suc.prems(1)] by (simp_all add: vec_def)
  have t1: "pc_ok pc1 w C" "pc_conn_pool_vec pc1 = vec" "same_table pc pc1" "pc_num_clients_per_replica pc1 = pc_num_clients_per_replica pc"
    using Suc.prems(1) by (simp_all add: pc1_def vec_def)
  have room: "h_brk (rw_clients w) + (N + n * N) \<le> h_lim (rw_clients w)" using Suc.prems(2) by (simp add: N_def)
  have al: "acquire_loop (Suc n) (pc, w) = (if rcp_status (vec ! k) = 0 then acquire_loop n (pc1, w)
     else bindr (try_replica (rcp_conn_pool (vec ! k), w)) (\<lambda>(c, p, w).
       if c \<noteq> 0 then Inr (c, set_pool k p pc1, w) else acquire_loop n (set_pool k p pc1, w)))"
    unfolding acquire_loop.simps prod.case Let_def k_def[symmetric] pc1_def[symmetric] t1(2) by (rule refl)
  show ?case
  proof (cases "rcp_status (vec ! k) = 0")
    case True
    have "h_brk (rw_clients w) + n * nat (pc_num_clients_per_replica pc1) \<le> h_lim (rw_clients w)" "n \<le> length (pc_conn_pool_vec pc1)"
      using room Suc.prems(3) t1 by (simp_all add: N_def vec_def)
    from Suc.IH[OF t1(1) this] obtain r pc' w' C' where r: "acquire_loop n (pc1, w) = Inr (r, pc', w')" "pc_ok pc' w' C'" "same_table pc1 pc'"
      "moved w (concat C) w' (hand r @ concat C') (n * N)"
      "r \<noteq> 0 \<longrightarrow> open_client pc1 w' r"
      unfolding t1(4) N_def by blast
    have "moved w (concat C) w' (hand r @ concat C') (Suc n * N)" by (rule moved_mono[OF r(4)]) simp
    moreover have "r \<noteq> 0 \<longrightarrow> open_client pc w' r" using r(5) open_client_table[OF t1(3)] by blast
    ultimately show ?thesis using True al r(1,2) same_table_trans[OF t1(3) r(3)] unfolding N_def
      by (intro exI[of _ r] exI[of _ pc'] exI[of _ w'] exI[of _ C'] conjI) simp_all
  next
    case False
    let ?p = "rcp_conn_pool (vec ! k)"
    have p0: "pool_ok ?p w (C ! k)" "cp_conn_num ?p = pc_num_clients_per_replica pc" "cp_replica ?p = rcp_backend_replica (vec ! k)"
      using pc_okD(4-6)[OF Suc.prems(1)] k by (simp_all add: vec_def)
    have "h_brk (rw_clients w) + nat (cp_conn_num ?p) \<le> h_lim (rw_clients w)" using room p0(2) by (simp add: N_def)
    from try_replica_ok[OF p0(1) ok this] obtain r p' w1 cs1 where t: "try_replica (?p, w) = Inr (r, p', w1)" "same_base ?p p'" "pool_ok p' w1 cs1"
      "moved w (C ! k) w1 (hand r @ cs1) N" "r \<noteq> 0 \<longrightarrow> (\<exists>t. hget (rw_clients w1) r = Inr t \<and> tc_open t \<and> tc_replica t = rcp_backend_replica (vec ! k))"
      unfolding p0(2,3) N_def by blast
    have k1: "k < length (pc_conn_pool_vec pc1)" "same_base (rcp_conn_pool (pc_conn_pool_vec pc1 ! k)) p'" using k t(2) by (simp_all add: t1(2))
    have "distinct ([] :: addr list)" "set [] \<subseteq> lives w" "set [] \<inter> set (concat C) = {}" "moved w ([] @ C ! k) w1 (hand r @ cs1) N" using t(4) by simp_all
    note st = table_step[OF t1(1) k1(1) t(3) k1(2) this]
    define pc2 where "pc2 = set_pool k p' pc1"
    have st': "pc_ok pc2 w1 (C[k := cs1])" "moved w (concat C) w1 (hand r @ concat (C[k := cs1])) N" "same_table pc pc2"
      using st same_table_trans[OF t1(3) st(3)] by (simp_all add: pc2_def)
    show ?thesis
    proof (cases "r = 0")
      case r0: False
      have "acquire_loop (Suc n) (pc, w) = Inr (r, pc2, w1)" using al False t(1) r0 by (simp add: pc2_def)
      moreover have "moved w (concat C) w1 (hand r @ concat (C[k := cs1])) (Suc n * N)" by (rule moved_mono[OF st'(2)]) simp
      moreover have "open_client pc w1 r"
      proof -
        obtain t where "hget (rw_clients w1) r = Inr t" "tc_open t" "tc_replica t = rcp_backend_replica (vec ! k)" using t(5) r0 by blast
        then show ?thesis using k False unfolding open_client_def vec_def by (intro exI[of _ t] conjI bexI[of _ "pc_conn_pool_vec pc ! k"]) simp_all
      qed
      ultimately show ?thesis using st'(1,3) unfolding N_def
        by (intro exI[of _ r] exI[of _ pc2] exI[of _ w1] exI[of _ "C[k := cs1]"] conjI) simp_all
    next
      case r0: True
      have e: "acquire_loop (Suc n) (pc, w) = acquire_loop n (pc2, w1)" using al False t(1) r0 by (simp add: pc2_def)
      have m1: "moved w (concat C) w1 (concat (C[k := cs1])) N" using st'(2) r0 by (simp add: hand_def)
      have num: "pc_num_clients_per_replica pc2 = pc_num_clients_per_replica pc" using st'(3) by (simp add: same_table_def)
      have ln2: "length (pc_conn_pool_vec pc2) = length vec" using same_table_length[OF st'(3)] by (simp add: vec_def)
      have "h_brk (rw_clients w1) + n * nat (pc_num_clients_per_replica pc2) \<le> h_lim (rw_clients w1)" "n \<le> length (pc_conn_pool_vec pc2)"
        using room m1 Suc.prems(3) num ln2 by (auto simp: moved_def Let_def N_def vec_def)
      from Suc.IH[OF st'(1) this] obtain r' pc' w' C' where r: "acquire_loop n (pc2, w1) = Inr (r', pc', w')" "pc_ok pc' w' C'" "same_table pc2 pc'"
        "moved w1 (concat (C[k := cs1])) w' (hand r' @ concat C') (n * N)"
        "r' \<noteq> 0 \<longrightarrow> open_client pc2 w' r'"
        unfolding num N_def by blast
      have m2: "moved w (concat C) w' (hand r' @ concat C') (Suc n * N)" using moved_trans[OF ok m1 r(4)] by simp
      have "r' \<noteq> 0 \<longrightarrow> open_client pc w' r'" using r(5) open_client_table[OF st'(3)] by blast
      then show ?thesis using e r(1,2) same_table_trans[OF st'(3) r(3)] m2 unfolding N_def
        by (intro exI[of _ r'] exI[of _ pc'] exI[of _ w'] exI[of _ C'] conjI) simp_all
    qed
  qed
qed

lemma reopen_ok:
  assumes "heap_ok (rw_clients w)" "clients_of w r [c]"
  shows "\<exists>w'. reopen c w = Inr w' \<and> moved w [c] w' [c] 0 \<and> clients_of w' r [c]"
proof -
  obtain w1 where c: "close_service c w = Inr w1" "moved w [c] w1 [c] 0" "clients_of w1 r [c]" using close_service_ok[OF assms] by blast
  have ok1: "heap_ok (rw_clients w1)" using c(2) by (simp add: moved_def Let_def)
  obtain ret w2 t where o: "open_service c w1 = Inr (ret, w2)" "moved w1 [c] w2 [c] 0" "hget (rw_clients w2) c = Inr t" "tc_replica t = r"
    using open_service_ok[OF ok1 c(3)] by blast
  show ?thesis using c(1) o moved_trans[OF assms(1) c(2) o(2)] by (simp add: reopen_def clients_of_def)
qed

lemma give_back_ok:
  assumes "pool_ok p w cs" "heap_ok (rw_clients w)" "clients_of w (cp_replica p) [c]" "c \<notin> set cs"
  shows "\<exists>p' w' cs'. give_back c err (p, w) = Inr (p', w') \<and> same_base p p' \<and> pool_ok p' w' cs' \<and> moved w (c # cs) w' cs' 0"
proof (cases err)
  case CONN_OK
  obtain st where st: "is_healthy (rw_now w) p = Inr st" using pool_ok_healthy[OF assms(1)] by blast
  define p1 where "p1 = (if st = HEALTHY then p else p\<lparr>cp_error_cnt := 0\<rparr>)"
  have p1: "pool_ok p1 w cs" "same_base p p1" "cp_replica p1 = cp_replica p" using assms(1) by (simp_all add: p1_def pool_ok_def pool_holds_fields same_base_def)
  obtain p' w' cs' where r: "release_client c (p1, w) = Inr (p', w')" "same_pool p1 p'" "pool_ok p' w' cs'" "moved w (c # cs) w' cs' 0"
    using release_back_ok[OF p1(1) assms(2), of c] assms(3,4) p1(3) by auto
  have "give_back c err (p, w) = Inr (p', w')" using CONN_OK st r(1) by (simp add: give_back_def clear_error_def p1_def)
  then show ?thesis using r(3,4) same_base_trans[OF p1(2) same_pool_base[OF r(2)]] by blast
next
  case CONN_DROP
  have lv: "live (rw_clients w) c" using clients_of_live[OF assms(3)] by simp
  obtain w' where w': "delete_client c w = Inr w'" "moved w [c] w' [] 0" using delete_client_ok[OF assms(2) lv] by blast
  have d: "distinct cs" "set cs \<subseteq> lives w" "set [c] \<inter> set cs = {}" using assms(1,4) pool_ok_live[OF assms(1)] by (auto simp: pool_ok_def clients_of_def)
  have "clients_of w (cp_replica p) cs" using assms(1) by (simp add: pool_ok_def)
  from clients_of_moved[OF assms(2) w'(2) this d(3)] have "pool_ok p w' cs" using assms(1) by (simp add: pool_ok_def)
  from pool_ok_report(1)[OF this, of "rw_now w"] pool_ok_report(2)[of p "rw_now w"] show ?thesis
    using CONN_DROP w'(1) moved_frame(1)[OF assms(2) w'(2) d] by (auto simp: give_back_def)
next
  case CONN_RECONNECT
  obtain w1 where r: "reopen c w = Inr w1" "moved w [c] w1 [c] 0" "clients_of w1 (cp_replica p) [c]" using reopen_ok[OF assms(2,3)] by blast
  have ok1: "heap_ok (rw_clients w1)" using r(2) by (simp add: moved_def Let_def)
  have d: "distinct cs" "set cs \<subseteq> lives w" "set [c] \<inter> set cs = {}" using assms(1,4) pool_ok_live[OF assms(1)] by (auto simp: pool_ok_def clients_of_def)
  have "clients_of w (cp_replica p) cs" using assms(1) by (simp add: pool_ok_def)
  from clients_of_moved[OF assms(2) r(2) this d(3)] have p1: "pool_ok p w1 cs" using assms(1) by (simp add: pool_ok_def)
  obtain p' w' cs' where b: "release_client c (p, w1) = Inr (p', w')" "same_pool p p'" "pool_ok p' w' cs'" "moved w1 (c # cs) w' cs' 0"
    using release_back_ok[OF p1 ok1 r(3) assms(4)] by blast
  have "moved w (c # cs) w1 (c # cs) 0" using moved_frame(1)[OF assms(2) r(2) d] by simp
  from moved_trans[OF assms(2) this b(4)] show ?thesis using CONN_RECONNECT r(1) b(1,3) same_pool_base[OF b(2)] by (auto simp: give_back_def)
qed

lemma nth_concat_sub: "k < length C \<Longrightarrow> set (C ! k) \<subseteq> set (concat C)"
  using nth_mem by fastforce

lemma find_pool_Some: "find_pool P rs = Some k \<Longrightarrow> k < length rs \<and> P (rs ! k)"
  by (induction rs arbitrary: k) (auto split: if_splits)

lemma release_thrift_client_ok:
  assumes "pc_ok pc w C" "hget (rw_clients w) c = Inr t" "c \<notin> set (concat C)"
  shows "\<exists>ok pc' w' C'. release_thrift_client c err (pc, w) = Inr (ok, pc', w') \<and> pc_ok pc' w' C' \<and> same_table pc pc' \<and> moved w (c # concat C) w' (concat C') 0"
proof -
  note d = pc_okD[OF assms(1)]
  have c0: "c \<noteq> 0" "live (rw_clients w) c" using assms(2) by (auto simp: hget_def live_iff_hget split: if_splits)
  have h: "distinct [c]" "set [c] \<subseteq> lives w" "set [c] \<inter> set (concat C) = {}" using c0(2) assms(3) by auto
  show ?thesis
  proof (cases "find_pool (\<lambda>r. rcp_backend_replica r = tc_replica t) (pc_conn_pool_vec pc)")
    case None
    obtain w' where w': "delete_client c w = Inr w'" "moved w [c] w' [] 0" using delete_client_ok[OF d(2) c0(2)] by blast
    have "release_thrift_client c err (pc, w) = Inr (False, pc, w')" using None assms(2) c0(1) w'(1) by (simp add: release_thrift_client_def)
    moreover have m: "moved w (c # concat C) w' (concat C) 0" using moved_frame(1)[OF d(2) w'(2) d(3) pc_ok_live[OF assms(1)] h(3)] by simp
    moreover have "pc_ok pc w' C"
    proof -
      have "pool_ok (rcp_conn_pool (pc_conn_pool_vec pc ! k)) w' (C ! k)" if k: "k < length (pc_conn_pool_vec pc)" for k
      proof -
        have "set (C ! k) \<subseteq> set (concat C)" using k d(1) by (intro nth_concat_sub) simp
        then have "set [c] \<inter> set (C ! k) = {}" using assms(3) by auto
        then show ?thesis using d(4)[OF k] clients_of_moved[OF d(2) w'(2)] by (simp add: pool_ok_def)
      qed
      moreover have "heap_ok (rw_clients w')" using w'(2) by (simp add: moved_def Let_def)
      ultimately show ?thesis using d(1,3,5,6) unfolding pc_ok_def Let_def by blast
    qed
    ultimately show ?thesis by (intro exI[of _ False] exI[of _ pc] exI[of _ w'] exI[of _ C]) simp
  next
    case (Some k)
    let ?p = "rcp_conn_pool (pc_conn_pool_vec pc ! k)"
    have k: "k < length (pc_conn_pool_vec pc)" "rcp_backend_replica (pc_conn_pool_vec pc ! k) = tc_replica t" using find_pool_Some[OF Some] by auto
    have cl: "clients_of w (cp_replica ?p) [c]" using assms(2) d(5)[OF k(1)] k(2) by (simp add: clients_of_def)
    have "set (C ! k) \<subseteq> set (concat C)" using k(1) d(1) by (intro nth_concat_sub) simp
    then have nc: "c \<notin> set (C ! k)" using assms(3) by blast
    obtain p' w' cs' where g: "give_back c err (?p, w) = Inr (p', w')" "same_base ?p p'" "pool_ok p' w' cs'" "moved w (c # C ! k) w' cs' 0"
      using give_back_ok[OF d(4)[OF k(1)] d(2) cl nc] by blast
    have "moved w ([c] @ C ! k) w' ([] @ cs') 0" using g(4) by simp
    note st = table_step[OF assms(1) k(1) g(3,2) h this]
    have "release_thrift_client c err (pc, w) = Inr (True, set_pool k p' pc, w')" using Some assms(2) c0(1) g(1) by (simp add: release_thrift_client_def)
    then show ?thesis using st by (intro exI[of _ True] exI[of _ "set_pool k p' pc"] exI[of _ w'] exI[of _ "C[k := cs']"]) simp
  qed
qed

section \<open>Calls keep the clients\<close>

text \<open>The calls \<open>es\<close>, at most \<open>n\<close>, led to the result \<open>res\<close>: only the last can have succeeded, and the error is that of the last call or that there
  is no service.\<close>

definition calls_led_to :: "nat \<Rightarrow> 'r call_end list \<Rightarrow> tz_error + 'r \<Rightarrow> bool" where
  "calls_led_to n es res \<longleftrightarrow> length es \<le> n \<and> (\<forall>e \<in> set (butlast es). isl (outcome_of e)) \<and>
     (if isl res then (\<forall>e \<in> set es. isl (outcome_of e)) \<and> (res = Inl TZE_NOSERVICE \<or> es \<noteq> [] \<and> res = outcome_of (last es))
      else es \<noteq> [] \<and> res = outcome_of (last es))"

lemma calls_led_simps: "calls_led_to (Suc n) [] (Inl TZE_NOSERVICE)" "calls_led_to (Suc n) [e] (outcome_of e)"
  "calls_led_to n es res \<Longrightarrow> calls_led_to (Suc n) es res"
  "isl (outcome_of e) \<Longrightarrow> calls_led_to n es res \<Longrightarrow> calls_led_to (Suc n) (e # es) res"
  by (auto simp: calls_led_to_def split: if_splits)

lemma invoke_ok:
  assumes "pc_ok pc w C" "0 < n" "h_brk (rw_clients w) + n * (length (pc_conn_pool_vec pc) * nat (pc_num_clients_per_replica pc)) \<le> h_lim (rw_clients w)"
  shows "\<exists>res es pc' w' C'. invoke n call (pc, w) = Inr (res, es, pc', w') \<and> pc_ok pc' w' C' \<and> same_table pc pc' \<and>
    moved w (concat C) w' (concat C') (n * (length (pc_conn_pool_vec pc) * nat (pc_num_clients_per_replica pc))) \<and>
    calls_led_to n es res \<and> (\<forall>e \<in> set es. \<exists>k c. e = call k c)"
  using assms
proof (induction n arbitrary: pc w C)
  case (Suc n)
  define M where "M = length (pc_conn_pool_vec pc) * nat (pc_num_clients_per_replica pc)"
  note d = pc_okD[OF Suc.prems(1)]
  have room: "h_brk (rw_clients w) + (M + n * M) \<le> h_lim (rw_clients w)" using Suc.prems(3) by (simp add: M_def)
  obtain r pc1 w1 C1 where a: "acquire_thrift_client (pc, w) = Inr (r, pc1, w1)" "pc_ok pc1 w1 C1" "same_table pc pc1" "moved w (concat C) w1 (hand r @ concat C1) M"
    "r \<noteq> 0 \<longrightarrow> open_client pc w1 r"
    using acquire_loop_ok[OF Suc.prems(1), of "length (pc_conn_pool_vec pc)"] room unfolding acquire_thrift_client_def M_def by auto
  have again: ?case if e: "invoke (Suc n) call (pc, w) = bindr (invoke n call (pc2, w2)) (\<lambda>(res, es, s). Inr (res, ds @ es, s))" "0 < n" "pc_ok pc2 w2 C2"
      "same_table pc pc2" "moved w (concat C) w2 (concat C2) M" "ds = [] \<or> (\<exists>k c. ds = [call k c] \<and> isl (outcome_of (call k c)))" for ds pc2 w2 C2
  proof -
    have M2: "length (pc_conn_pool_vec pc2) * nat (pc_num_clients_per_replica pc2) = M" using same_table_length[OF e(4)] e(4) by (simp add: same_table_def M_def)
    have "h_brk (rw_clients w2) + n * M \<le> h_lim (rw_clients w2)" using room e(5) by (auto simp: moved_def Let_def)
    from Suc.IH[OF e(3,2), unfolded M2, OF this] obtain res es pc' w' C' where r: "invoke n call (pc2, w2) = Inr (res, es, pc', w')" "pc_ok pc' w' C'" "same_table pc2 pc'"
      "moved w2 (concat C2) w' (concat C') (n * M)" "calls_led_to n es res" "\<forall>e \<in> set es. \<exists>k c. e = call k c" by blast
    have "calls_led_to (Suc n) (ds @ es) res" using e(6) calls_led_simps(3)[OF r(5)] calls_led_simps(4)[OF _ r(5)] by auto
    moreover have "\<forall>e \<in> set ds. \<exists>k c. e = call k c" using e(6) by (elim disjE exE conjE) (simp, simp only: list.set, blast)
    then have "\<forall>e \<in> set (ds @ es). \<exists>k c. e = call k c" using r(6) by (simp only: set_append ball_Un)
    moreover have "moved w (concat C) w' (concat C') (Suc n * M)" using moved_trans[OF d(2) e(5) r(4)] by simp
    ultimately show ?thesis using e(1) r(1,2) same_table_trans[OF e(4) r(3)] unfolding M_def
      by (intro exI[of _ res] exI[of _ "ds @ es"] exI[of _ pc'] exI[of _ w'] exI[of _ C'] conjI) simp_all
  qed
  have stop: ?case if e: "invoke (Suc n) call (pc, w) = Inr (res, es, pc2, w2)" "pc_ok pc2 w2 C2" "same_table pc pc2" "moved w (concat C) w2 (concat C2) M"
    "calls_led_to (Suc n) es res" "\<forall>e \<in> set es. \<exists>k c. e = call k c" for res es pc2 w2 C2
  proof -
    have "moved w (concat C) w2 (concat C2) (Suc n * M)" by (rule moved_mono[OF e(4)]) simp
    then show ?thesis using e unfolding M_def by (intro exI[of _ res] exI[of _ es] exI[of _ pc2] exI[of _ w2] exI[of _ C2] conjI) simp_all
  qed
  show ?case
  proof (cases "r = 0")
    case True
    then have m1: "moved w (concat C) w1 (concat C1) M" using a(4) by (simp add: hand_def)
    show ?thesis
    proof (cases n)
      case 0
      then have "invoke (Suc n) call (pc, w) = Inr (Inl TZE_NOSERVICE, [], pc1, w1)" using a(1) True by simp
      then show ?thesis by (rule stop) (use a(2,3) m1 calls_led_simps(1) in auto)
    next
      case (Suc m)
      then have "invoke (Suc n) call (pc, w) = bindr (invoke n call (pc1, w1)) (\<lambda>(res, es, s). Inr (res, [] @ es, s))"
        using a(1) True by (cases "invoke n call (pc1, w1)") auto
      then show ?thesis by (rule again) (use Suc a(2,3) m1 in auto)
    qed
  next
    case False
    obtain t where t: "hget (rw_clients w1) r = Inr t" using a(5) False by (auto simp: open_client_def)
    have mr: "moved w (concat C) w1 (r # concat C1) M" using a(4) False by (simp add: hand_def)
    then have nr: "r \<notin> set (concat C1)" by (simp add: moved_def Let_def)
    obtain ok pc2 w2 C2 where rl: "release_thrift_client r (error_of (call n r)) (pc1, w1) = Inr (ok, pc2, w2)" "pc_ok pc2 w2 C2" "same_table pc1 pc2"
      "moved w1 (r # concat C1) w2 (concat C2) 0" using release_thrift_client_ok[OF a(2) t nr] by blast
    have m2: "moved w (concat C) w2 (concat C2) M" using moved_trans[OF d(2) mr rl(4)] by simp
    have st: "same_table pc pc2" by (rule same_table_trans[OF a(3) rl(3)])
    have i: "invoke (Suc n) call (pc, w) = (if n = 0 \<or> \<not> isl (outcome_of (call n r)) then Inr (outcome_of (call n r), [call n r], pc2, w2)
        else bindr (invoke n call (pc2, w2)) (\<lambda>(res, es, s). Inr (res, [call n r] @ es, s)))"
      using a(1) False rl(1) by (simp add: Let_def)
    show ?thesis
    proof (cases "n = 0 \<or> \<not> isl (outcome_of (call n r))")
      case True
      then have "invoke (Suc n) call (pc, w) = Inr (outcome_of (call n r), [call n r], pc2, w2)" using i by simp
      then show ?thesis by (rule stop) (use rl(2) st m2 calls_led_simps(2) in auto)
    next
      case False
      then have "invoke (Suc n) call (pc, w) = bindr (invoke n call (pc2, w2)) (\<lambda>(res, es, s). Inr (res, [call n r] @ es, s))" using i by simp
      then show ?thesis by (rule again) (use False rl(2) st m2 in auto)
    qed
  qed
qed simp

text \<open>The pools can serve \<open>n\<close> more calls: their clients are all there are, and there is memory for those they may create.\<close>

definition service_ready :: "pc_state \<Rightarrow> nat \<Rightarrow> bool" where
  "service_ready = (\<lambda>(pc, w) n. \<exists>C. pc_ok pc w C \<and> lives w = set (concat C) \<and>
     h_brk (rw_clients w) + n * (3 * (length (pc_conn_pool_vec pc) * nat (pc_num_clients_per_replica pc))) \<le> h_lim (rw_clients w))"

lemma service_ready_mono: "service_ready s n \<Longrightarrow> m \<le> n \<Longrightarrow> service_ready s m"
proof -
  assume s: "service_ready s n" and m: "m \<le> n"
  obtain pc w where p: "s = (pc, w)" by (cases s)
  let ?M = "3 * (length (pc_conn_pool_vec pc) * nat (pc_num_clients_per_replica pc))"
  obtain C where C: "pc_ok pc w C" "lives w = set (concat C)" "h_brk (rw_clients w) + n * ?M \<le> h_lim (rw_clients w)"
    using s unfolding service_ready_def p prod.case by blast
  have "m * ?M \<le> n * ?M" using m by (rule mult_le_mono1)
  then have "h_brk (rw_clients w) + m * ?M \<le> h_lim (rw_clients w)" using C(3) by linarith
  then show ?thesis unfolding service_ready_def p prod.case using C(1,2) by blast
qed

lemma invoke_3_ok:
  assumes "pc_ok pc w C" "lives w = set (concat C)"
    "h_brk (rw_clients w) + 3 * (length (pc_conn_pool_vec pc) * nat (pc_num_clients_per_replica pc)) \<le> h_lim (rw_clients w)"
  shows "\<exists>res es pc' w' C'. invoke_within_3_attempts call (pc, w) = Inr (res, es, pc', w') \<and> pc_ok pc' w' C' \<and> lives w' = set (concat C') \<and>
    same_table pc pc' \<and> h_lim (rw_clients w') = h_lim (rw_clients w) \<and>
    h_brk (rw_clients w') \<le> h_brk (rw_clients w) + 3 * (length (pc_conn_pool_vec pc) * nat (pc_num_clients_per_replica pc)) \<and>
    calls_led_to 3 es res \<and> (\<forall>e \<in> set es. \<exists>k c. e = call k c)"
proof -
  obtain res es pc' w' C' where i: "invoke 3 call (pc, w) = Inr (res, es, pc', w')" "pc_ok pc' w' C'" "same_table pc pc'"
    "moved w (concat C) w' (concat C') (3 * (length (pc_conn_pool_vec pc) * nat (pc_num_clients_per_replica pc)))"
    "calls_led_to 3 es res" "\<forall>e \<in> set es. \<exists>k c. e = call k c" using invoke_ok[OF assms(1) _ assms(3), of call] by (metis zero_less_numeral)
  have m: "lives w' = (lives w - set (concat C)) \<union> set (concat C')" "h_lim (rw_clients w') = h_lim (rw_clients w)"
    "h_brk (rw_clients w') \<le> h_brk (rw_clients w) + 3 * (length (pc_conn_pool_vec pc) * nat (pc_num_clients_per_replica pc))"
    using i(4) by (simp_all only: moved_def Let_def)
  then have "lives w' = set (concat C')" using assms(2) by blast
  then show ?thesis using i(1-3,5,6) m(2,3) unfolding invoke_within_3_attempts_def by blast
qed

lemma service_call:
  assumes "service_ready s (Suc n)"
  shows "\<exists>res es s'. invoke_within_3_attempts call s = Inr (res, es, s') \<and> calls_led_to 3 es res \<and> service_ready s' n"
proof -
  obtain pc w where s: "s = (pc, w)" by (cases s)
  define M where "M = 3 * (length (pc_conn_pool_vec pc) * nat (pc_num_clients_per_replica pc))"
  obtain C where C: "pc_ok pc w C" "lives w = set (concat C)" "h_brk (rw_clients w) + Suc n * M \<le> h_lim (rw_clients w)"
    using assms unfolding service_ready_def s prod.case M_def by blast
  then have "h_brk (rw_clients w) + M \<le> h_lim (rw_clients w)" by simp
  from invoke_3_ok[OF C(1,2) this[unfolded M_def], of call, folded M_def] obtain res es pc' w' C' where
    i: "invoke_within_3_attempts call (pc, w) = Inr (res, es, pc', w')" "pc_ok pc' w' C'" "lives w' = set (concat C')" "same_table pc pc'"
      "h_lim (rw_clients w') = h_lim (rw_clients w)" "h_brk (rw_clients w') \<le> h_brk (rw_clients w) + M" "calls_led_to 3 es res" by blast
  have M': "3 * (length (pc_conn_pool_vec pc') * nat (pc_num_clients_per_replica pc')) = M"
    using same_table_length[OF i(4)] i(4) by (simp add: same_table_def M_def)
  have "h_brk (rw_clients w') + n * M \<le> h_lim (rw_clients w')" using C(3) i(5,6) by simp
  then have "service_ready (pc', w') n" unfolding service_ready_def prod.case M' using i(2,3) by blast
  then show ?thesis using i(1,7) unfolding s by blast
qed

text \<open>
  C19: A remote call through the pools, with its three attempts, always ends: with the result of the call, with the error of the last
  attempt, or with the error that there is no service. At most three calls are made, and none after one that succeeded. Whatever the transports and the replicas do, no client
  is lost, freed twice or used after it was freed: the clients that exist before and after the call are exactly those in the pools, each
  in one pool, and each in a pool of its own replica.
\<close>

theorem calls_keep_clients:
  assumes "pc_ok pc w C" "lives w = set (concat C)"
    "h_brk (rw_clients w) + 3 * (length (pc_conn_pool_vec pc) * nat (pc_num_clients_per_replica pc)) \<le> h_lim (rw_clients w)"
  shows "\<exists>res es pc' w' C'. invoke_within_3_attempts call (pc, w) = Inr (res, es, pc', w') \<and> pc_ok pc' w' C' \<and> lives w' = set (concat C') \<and>
    calls_led_to 3 es res \<and> (res = Inl TZE_NOSERVICE \<or> (\<exists>k c. res = outcome_of (call k c)))"
proof -
  obtain res es pc' w' C' where i: "invoke_within_3_attempts call (pc, w) = Inr (res, es, pc', w')" "pc_ok pc' w' C'" "lives w' = set (concat C')"
    "calls_led_to 3 es res" "\<forall>e \<in> set es. \<exists>k c. e = call k c" using invoke_3_ok[OF assms, of call] by blast
  have "res = Inl TZE_NOSERVICE \<or> es \<noteq> [] \<and> res = outcome_of (last es)" using i(4) by (auto simp: calls_led_to_def split: if_splits)
  then have "res = Inl TZE_NOSERVICE \<or> (\<exists>k c. res = outcome_of (call k c))" using i(5) last_in_set by metis
  then show ?thesis using i(1-4) by blast
qed

definition demo_rpc_pool :: "string \<Rightarrow> ConnPool" where
  "demo_rpc_pool host = \<lparr>cp_replica = (host, 9000), cp_conn_num = 1, cp_conn_list =
     \<lparr>uw_links = lk_add 1 2 (lk_init 1 \<lparr>ln_next = \<lambda>_. 0, ln_prev = \<lambda>_. 0\<rparr>), uw_alive = True, uw_num = 1\<rparr>,
     cp_data = \<lambda>_. 1, cp_node_brk = 3, cp_error_cnt = 0, cp_last_err = None\<rparr>"

definition demo_rpc_world :: rpc_world where
  "demo_rpc_world = \<lparr>rw_clients = hnew \<lparr>tc_replica = (''10.0.0.1'', 9000), tc_open = True\<rparr> (heap_empty 9), rw_opens = [], rw_now = (5, 0)\<rparr>"

definition demo_entry :: "string \<Rightarrow> 64 word \<Rightarrow> ConnPool \<Rightarrow> ReplicaConnPool" where
  "demo_entry host k p = \<lparr>rcp_backend_replica = (host, 9000), rcp_replica_id = k, rcp_index = 0, rcp_protocol = ''TBinaryProtocol'', rcp_status = 1, rcp_conn_pool = p\<rparr>"

definition demo_pc :: "ReplicaConnPool list \<Rightarrow> (64 word \<rightharpoonup> int) \<Rightarrow> PooledClient" where
  "demo_pc vec m = \<lparr>pc_conn_pool_vec = vec, pc_replica_map = m, pc_num_clients_per_replica = 1, pc_cur_replica_index = 0, pc_path = ''/jdns/im/rpc''\<rparr>"

lemma demo_rpc_facts: "heap_ok (rw_clients demo_rpc_world)" "hget (rw_clients demo_rpc_world) 1 = Inr \<lparr>tc_replica = (''10.0.0.1'', 9000), tc_open = True\<rparr>"
  "lives demo_rpc_world = {1}" "h_brk (rw_clients demo_rpc_world) = 2" "h_lim (rw_clients demo_rpc_world) = 9"
proof -
  have h: "heap_ok (heap_empty 9 :: ThriftClient heap)" by (simp add: heap_empty_def heap_ok_def)
  then show "heap_ok (rw_clients demo_rpc_world)" "hget (rw_clients demo_rpc_world) 1 = Inr \<lparr>tc_replica = (''10.0.0.1'', 9000), tc_open = True\<rparr>"
    by (simp_all add: demo_rpc_world_def hget_hnew heap_empty_def)
  show "lives demo_rpc_world = {1}" "h_brk (rw_clients demo_rpc_world) = 2" "h_lim (rw_clients demo_rpc_world) = 9"
    by (auto simp: demo_rpc_world_def heap_empty_def live_def)
qed

lemma demo_rpc_pool_ok: "pool_ok (demo_rpc_pool ''10.0.0.1'') demo_rpc_world [1]"
proof -
  have "pool_holds (demo_rpc_pool ''10.0.0.1'') [1]" unfolding pool_holds_def Let_def
    by (rule exI[of _ "[2]"]) (simp add: demo_rpc_pool_def ring_def lk_add_def lk_init_def Let_def)
  then show ?thesis using demo_rpc_facts(2) by (simp add: pool_ok_def clients_of_def demo_rpc_pool_def)
qed

definition demo_service :: pc_state where
  "demo_service = (demo_pc [demo_entry ''10.0.0.1'' 7 (demo_rpc_pool ''10.0.0.1'')] [7 \<mapsto> 0], demo_rpc_world)"

lemma demo_pc_ok: "pc_ok (demo_pc [demo_entry ''10.0.0.1'' 7 (demo_rpc_pool ''10.0.0.1'')] [7 \<mapsto> 0]) demo_rpc_world [[1]]"
  using demo_rpc_pool_ok demo_rpc_facts(1) by (simp add: pc_ok_def demo_pc_def demo_entry_def) (simp add: demo_rpc_pool_def)

lemma demo_service_ready: "service_ready demo_service 2"
  unfolding service_ready_def demo_service_def prod.case
  by (rule exI[of _ "[[1]]"]) (use demo_pc_ok demo_rpc_facts(3) in \<open>simp add: demo_rpc_facts demo_pc_def\<close>)

theorem calls_keep_clients_witness:
  "\<exists>res es pc' w' C'. invoke_within_3_attempts (\<lambda>k c. Returns (42 :: int)) (demo_pc [demo_entry ''10.0.0.1'' 7 (demo_rpc_pool ''10.0.0.1'')] [7 \<mapsto> 0], demo_rpc_world) =
      Inr (res, es, pc', w') \<and> pc_ok pc' w' C' \<and> lives w' = set (concat C') \<and> calls_led_to 3 es res \<and> (res = Inl TZE_NOSERVICE \<or> res = Inr 42)"
proof -
  let ?pc = "demo_pc [demo_entry ''10.0.0.1'' 7 (demo_rpc_pool ''10.0.0.1'')] [7 \<mapsto> 0]"
  have "pc_ok ?pc demo_rpc_world [[1]]" by (rule demo_pc_ok)
  moreover have "lives demo_rpc_world = set (concat [[1]])" using demo_rpc_facts(3) by simp
  moreover have "h_brk (rw_clients demo_rpc_world) + 3 * (length (pc_conn_pool_vec ?pc) * nat (pc_num_clients_per_replica ?pc)) \<le> h_lim (rw_clients demo_rpc_world)"
    by (simp add: demo_rpc_facts demo_pc_def)
  ultimately show ?thesis using calls_keep_clients[of ?pc demo_rpc_world "[[1]]" "\<lambda>k c. Returns (42 :: int)"] by simp
qed

section \<open>A stale index\<close>

lemma erase_gone_all: "\<forall>r \<in> set rs. \<exists>ri \<in> set riv. same_replica ri r \<Longrightarrow> erase_gone riv rs (m, w) = Inr (rs, m, w)"
  by (induction rs) auto

lemma add_new_none: "\<forall>ri \<in> set riv. \<exists>r \<in> set (pc_conn_pool_vec pc). same_replica ri r \<Longrightarrow> add_new L D riv (pc, w) = Inr (pc, w)"
  by (induction riv) auto

text \<open>
  C20: Erasing a replica leaves stale positions. When a refresh of the table removes its first replica and keeps the others, the map from
  replica ids to positions keeps the old positions although the vector has become shorter, so that asking for a client of the replica that was
  last reads past the end of the vector.
\<close>

theorem refresh_leaves_stale_index:
  assumes "pc_ok pc w C" "pc_conn_pool_vec pc = gone # rest @ [b]" "pc_replica_map pc (rcp_replica_id b) = Some (int (length rest) + 1)"
    and "rcp_replica_id gone \<noteq> rcp_replica_id b" "riv \<noteq> []" "\<forall>ri \<in> set riv. ri_status ri \<noteq> 0 \<and> \<not> same_replica ri gone \<and> (\<exists>v \<in> set (rest @ [b]). same_replica ri v)"
    and "\<forall>v \<in> set (rest @ [b]). \<exists>ri \<in> set riv. same_replica ri v"
  shows "\<exists>pc' w'. process_update_task L D (Some riv) one REFRESH_ALL (pc, w) = Inr ([], pc', w') \<and> pc_conn_pool_vec pc' = rest @ [b] \<and>
    acquire_thrift_client_by_id (rcp_replica_id b) (pc', w') = Inl Out_of_bounds"
proof -
  have p: "pool_ok (rcp_conn_pool gone) w (C ! 0)" using pc_okD(4)[OF assms(1), of 0] assms(2) by simp
  have "length (C ! 0) \<le> cp_node_brk (rcp_conn_pool gone)" using p pool_holds_fuel by (auto simp: pool_ok_def)
  from clear_conns_ok[OF p pc_okD(2)[OF assms(1)] this] obtain p' w1 where c: "clear_conns (cp_node_brk (rcp_conn_pool gone)) (rcp_conn_pool gone, w) = Inr (p', w1)" by blast
  define m where "m = (pc_replica_map pc)(rcp_replica_id gone := None)"
  define pc' where "pc' = pc\<lparr>pc_conn_pool_vec := rest @ [b], pc_replica_map := m\<rparr>"
  have fl: "filter (\<lambda>ri. ri_status ri \<noteq> 0) riv = riv" using assms(6) by (simp add: filter_id_conv)
  have ng: "\<not> (\<exists>ri \<in> set riv. same_replica ri gone)" using assms(6) by blast
  have "erase_gone riv (rest @ [b]) (m, w1) = Inr (rest @ [b], m, w1)" by (rule erase_gone_all[OF assms(7)])
  then have e: "erase_gone riv (gone # rest @ [b]) (pc_replica_map pc, w) = Inr (rest @ [b], m, w1)"
    using ng c by (simp add: drop_pool_def clear_pool_def m_def)
  have "\<forall>ri \<in> set riv. \<exists>r \<in> set (pc_conn_pool_vec pc'). same_replica ri r" using assms(6) by (simp add: pc'_def)
  then have "add_new L D riv (pc', w1) = Inr (pc', w1)" by (rule add_new_none)
  then have "refresh_all L D (Some riv) (pc, w) = Inr (pc', w1)" using fl e assms(2,5) by (simp add: refresh_all_def Let_def pc'_def)
  then have "process_update_task L D (Some riv) one REFRESH_ALL (pc, w) = Inr ([], pc', w1)" by (simp add: process_update_task_def)
  moreover have "pc_replica_map pc' (rcp_replica_id b) = Some (int (length rest) + 1)" using assms(3,4) by (simp add: pc'_def m_def)
  then have "acquire_thrift_client_by_id (rcp_replica_id b) (pc', w1) = Inl Out_of_bounds" by (simp add: acquire_thrift_client_by_id_def pc'_def)
  ultimately show ?thesis by (intro exI[of _ pc'] exI[of _ w1]) (simp add: pc'_def)
qed

definition demo_empty_pool :: "string \<Rightarrow> ConnPool" where
  "demo_empty_pool host = (demo_rpc_pool host)\<lparr>cp_conn_list := uw_new \<lparr>ln_next = \<lambda>_. 0, ln_prev = \<lambda>_. 0\<rparr>\<rparr>"

definition demo_links :: links where
  "demo_links = \<lparr>ln_next = \<lambda>_. 0, ln_prev = \<lambda>_. 0\<rparr>"

definition demo_info :: ReplicaInfo where
  "demo_info = \<lparr>ri_replica = (''10.0.0.2'', 9000), ri_replica_id = 8, ri_protocol = ''TBinaryProtocol'', ri_status = 1\<rparr>"

definition demo_table :: PooledClient where
  "demo_table = demo_pc [demo_entry ''10.0.0.1'' 7 (demo_rpc_pool ''10.0.0.1''), demo_entry ''10.0.0.2'' 8 (demo_empty_pool ''10.0.0.2'')] [7 \<mapsto> 0, 8 \<mapsto> 1]"

lemma demo_table_ok: "pc_ok demo_table demo_rpc_world [[1], []]"
proof -
  have "pool_holds (demo_empty_pool ''10.0.0.2'') []" unfolding pool_holds_def Let_def
    by (rule exI[of _ "[]"]) (simp add: demo_empty_pool_def demo_rpc_pool_def uw_new_def ring_def lk_init_def)
  then have "pool_ok (demo_empty_pool ''10.0.0.2'') demo_rpc_world []" by (simp add: pool_ok_def demo_empty_pool_def demo_rpc_pool_def)
  then show ?thesis using demo_rpc_pool_ok demo_rpc_facts(1)
    by (simp add: pc_ok_def demo_table_def demo_pc_def demo_entry_def less_Suc_eq all_conj_distrib) (auto simp: demo_rpc_pool_def demo_empty_pool_def)
qed

theorem refresh_leaves_stale_index_witness:
  "\<exists>pc' w'. process_update_task demo_links (\<lambda>_. 0) (Some [demo_info]) (\<lambda>_. None) REFRESH_ALL (demo_table, demo_rpc_world) = Inr ([], pc', w') \<and>
    acquire_thrift_client_by_id 8 (pc', w') = Inl Out_of_bounds"
proof -
  let ?a = "demo_entry ''10.0.0.1'' 7 (demo_rpc_pool ''10.0.0.1'')" and ?b = "demo_entry ''10.0.0.2'' 8 (demo_empty_pool ''10.0.0.2'')"
  have v: "pc_conn_pool_vec demo_table = ?a # [] @ [?b]" "pc_replica_map demo_table (rcp_replica_id ?b) = Some (int (length []) + 1)" "rcp_replica_id ?b = 8"
    by (simp_all add: demo_table_def demo_pc_def demo_entry_def)
  have r: "rcp_replica_id ?a \<noteq> rcp_replica_id ?b" "same_replica demo_info ?b" "\<not> same_replica demo_info ?a" "ri_status demo_info \<noteq> 0"
    by (simp_all add: demo_entry_def same_replica_def demo_info_def)
  from refresh_leaves_stale_index[OF demo_table_ok v(1,2) r(1), of "[demo_info]" demo_links "\<lambda>_. 0" "\<lambda>_. None"] r(2-4) show ?thesis unfolding v(3) by auto
qed

end
