(* ===== verification/Processing.thy ===== *)
theory Processing
  imports Parser Util RpcPool
begin

unbundle bit_operations_syntax

text \<open>
  What the worker threads do with a message: the processors of client messages (\<open>message/im_message_processor.cpp\<close>), of
  authentication requests (\<open>im_message_auth_processor.cpp\<close>) and of messages from other servers
  (\<open>thrift/broker/message_broker_processor.cpp\<close>), the broker (\<open>thrift/broker/message_broker.cpp\<close>), the dispatcher that
  chooses between the first two (\<open>im_message_dispatcher.cpp\<close>), and the workers with their clusters.

  The broker sends its requests through the pools of connections to the remote service, the theory \<open>RpcPool\<close>. How a single
  call on a connection ends, the protobuf codec and the identity of the host are part of the configuration; the clock, the
  random numbers and the thread id are inputs of a call. The requests put on a connection and the routes published to redis
  are recorded in the state; a failure to publish is only logged by the code.
\<close>

section \<open>Configuration, inputs and state\<close>

datatype ResponseCode = Response_OK | Response_other

record MessageRequest =
  rq_msh_id :: "64 word"
  rq_msg_id :: "byte list"
  rq_msg :: "byte list"

text \<open>\<open>pc_rpc\<close> says how a call of \<open>dispatch\<close> ends, given the attempts left and the client; \<open>pc_route_publisher\<close> whether the
  publisher of routes was set up by \<open>init\<close>.\<close>

record proc_cfg =
  pc_ser :: "ImPack \<Rightarrow> byte list"
  pc_dec :: "byte list \<Rightarrow> ImPack option"
  pc_im_instance :: "64 word"
  pc_broker_instance :: "64 word"
  pc_host_id :: "32 word"
  pc_rpc :: "MessageRequest \<Rightarrow> nat \<Rightarrow> addr \<Rightarrow> ResponseCode call_end"
  pc_route_publisher :: bool

text \<open>The values one call reads from the system: times at the begin and the end, \<open>time(0)\<close> as the pack, the identifier and
  the counter read it, the two random numbers, the thread id, the indeterminate field of a new pack and the stack of
  the router.\<close>

record proc_in =
  pi_begin :: timeval
  pi_end :: timeval
  pi_now :: int
  pi_id_time :: int
  pi_counter_time :: int
  pi_rand1 :: int
  pi_rand2 :: int
  pi_tid :: int
  pi_junk :: int
  pi_stack :: IoChannel

record proc =
  pr_um :: um_state
  pr_collector :: "MsMessageBlockQueue option"
  pr_counter :: Counter
  pr_service :: pc_state
  pr_sent :: "MessageRequest list"
  pr_published :: "(int \<times> 64 word) list"

section \<open>The broker\<close>

definition genInstance :: "(string \<Rightarrow> 32 word option) \<Rightarrow> string \<Rightarrow> int \<Rightarrow> 64 word" where
  "genInstance inet_pton host port = (case inet_pton host of None \<Rightarrow> 0
     | Some ip \<Rightarrow> push_bit 32 (ucast ip) OR word_of_int port)"

text \<open>\<open>MessageBroker::dispatch\<close> calls \<open>MessageProxy::dispatch\<close>, which makes up to three attempts, each with a client of the pools. A
  response of any code counts as sent; every exception is caught and gives -1.\<close>

definition proxy_dispatch :: "proc_cfg \<Rightarrow> MessageRequest \<Rightarrow> proc \<Rightarrow> ((tz_error + ResponseCode) \<times> proc) res" where
  "proxy_dispatch cfg request s = bindr (invoke_within_3_attempts (pc_rpc cfg request) (pr_service s)) (\<lambda>(res, es, service).
     Inr (res, s\<lparr>pr_service := service, pr_sent := pr_sent s @ replicate (length es) request\<rparr>))"

definition broker_dispatch :: "proc_cfg \<Rightarrow> addr \<Rightarrow> proc \<times> mheap \<Rightarrow> (int \<times> proc) res" where
  "broker_dispatch cfg msg = (\<lambda>(s, h). bindr (hget h msg) (\<lambda>m. bindr (init_of (m_id m)) (\<lambda>mid. bindr (load_data m) (\<lambda>bs.
     let request = \<lparr>rq_msh_id = pc_broker_instance cfg, rq_msg_id = mid, rq_msg = bs\<rparr>
     in bindr (proxy_dispatch cfg request s) (\<lambda>(res, s).
       Inr (case res of Inr Response_OK \<Rightarrow> 0 | Inr Response_other \<Rightarrow> 0 | Inl _ \<Rightarrow> -1, s))))))"

text \<open>\<open>MessageHandler::dispatch\<close>, the server side: the payload becomes a message in the queue of the broker's workers. The
  result says whether the code is \<open>OK\<close>.\<close>

definition handler_dispatch :: "byte list \<Rightarrow> MsMessageBlockQueue \<times> mheap \<Rightarrow> (bool \<times> MsMessageBlockQueue \<times> mheap) res" where
  "handler_dispatch bs = (\<lambda>(q, h). if bs \<noteq> []
     then bindr (createIMessage_len (int (length bs)) h) (\<lambda>(msg, h).
       bindr (hmod h msg (\<lambda>m. m\<lparr>m_priority := 1\<rparr>)) (\<lambda>h.
       bindr (store_data msg bs h) (\<lambda>h.
       bindr (bq_put msg (q, h)) (\<lambda>(q, h). Inr (True, q, h)))))
     else Inr (False, q, h))"

section \<open>ImMessageProcessor\<close>

text \<open>The identifier: the hash of the 16 bytes of the structure, stored over its first 8 bytes.\<close>

definition le64 :: "64 word \<Rightarrow> byte list" where
  "le64 w = le_bytes (ucast w) @ le_bytes (ucast (drop_bit 32 w))"

definition genMsgId :: "32 word \<Rightarrow> proc_in \<Rightarrow> Counter \<Rightarrow> byte list \<times> Counter" where
  "genMsgId host_id i counter = (case Counter_get (pi_counter_time i) counter of (n, counter) \<Rightarrow>
     (le64 (murmurHash64B (MessageId_bytes
        \<lparr>id_time = word_of_int (pi_id_time i), id_rand1 = word_of_int (pi_rand1 i mod 4095),
         id_tid = word_of_int (pi_tid i), id_host_id = host_id,
         id_counter = ucast n, id_rand2 = word_of_int (pi_rand2 i mod 65535)\<rparr>) 0xEE6B27EB), counter))"

definition route_back :: "addr \<Rightarrow> proc \<times> mheap \<Rightarrow> (proc \<times> mheap) res" where
  "route_back msg = (\<lambda>(s, h). bindr (um_routeBack msg (pr_um s, h)) (\<lambda>(u, h). Inr (s\<lparr>pr_um := u\<rparr>, h)))"

definition processErrorPack :: "proc_in \<Rightarrow> addr \<Rightarrow> proc \<times> mheap \<Rightarrow> (proc \<times> mheap) res" where
  "processErrorPack i msg = (\<lambda>(s, h). bindr (hmod h msg (\<lambda>m. m\<lparr>m_need_collect := False, m_force_push := True,
       m_close_conn := True, m_process_end_time := Some (pi_end i)\<rparr>)) (\<lambda>h. route_back msg (s, h)))"

text \<open>The two checks every handler starts with: the timestamp, then the state of the connection (\<open>AUTH_STATE\<close> is 1,
  \<open>MSG_STATE\<close> is 2).\<close>

definition pack_admitted :: "int \<Rightarrow> IMessagePack \<Rightarrow> mheap \<Rightarrow> bool res" where
  "pack_admitted st pack h = bindr (checkTimeStamp pack h) (\<lambda>c. if c = -1 then Inr False
     else bindr (hget h (pk_msg pack)) (\<lambda>m. bindr (init_of (m_state m)) (\<lambda>v. Inr (v = st))))"

definition processTouchPack :: "proc_cfg \<Rightarrow> proc_in \<Rightarrow> IMessagePack \<Rightarrow> proc \<times> mheap \<Rightarrow> (int \<times> proc \<times> mheap) res" where
  "processTouchPack cfg i pack = (\<lambda>(s, h). bindr (pack_admitted 2 pack h) (\<lambda>ok.
     let uid = getTouchPackUid pack in
     if \<not> ok \<or> uid = -1 then Inr (-1, s, h)
     else bindr (createTouchAckPack (pc_ser cfg) (pi_now i) uid pack h) (\<lambda>(msg, h).
       bindr (um_update (pc_im_instance cfg) msg (pr_um s, h)) (\<lambda>(_, u, h).
       bindr (route_back msg (s\<lparr>pr_um := u\<rparr>, h)) (\<lambda>(s, h). Inr (0, s, h))))))"

text \<open>After the dispatch: a message the broker took is released; a failed one goes to the collector, if there is one.\<close>

definition after_dispatch :: "int \<Rightarrow> addr \<Rightarrow> proc \<times> mheap \<Rightarrow> (proc \<times> mheap) res" where
  "after_dispatch ret msg = (\<lambda>(s, h).
     if ret = 0 then bindr (releaseIMessage msg h) (\<lambda>h. Inr (s, h))
     else case pr_collector s of
         Some c \<Rightarrow> bindr (collector_collect msg (c, h)) (\<lambda>(c, h). Inr (s\<lparr>pr_collector := Some c\<rparr>, h))
       | None \<Rightarrow> bindr (releaseIMessage msg h) (\<lambda>h. Inr (s, h)))"

definition processMsgPack :: "proc_cfg \<Rightarrow> proc_in \<Rightarrow> IMessagePack \<Rightarrow> proc \<times> mheap \<Rightarrow> (int \<times> proc \<times> mheap) res" where
  "processMsgPack cfg i pack = (\<lambda>(s, h). bindr (pack_admitted 2 pack h) (\<lambda>ok.
     let uid = getMsgPackUser pack in
     if \<not> ok \<or> uid = -1 \<or> getMsgPackTargetUserCount pack \<le> 0 then Inr (-1, s, h)
     else case genMsgId (pc_host_id cfg) i (pr_counter s) of (mid, counter) \<Rightarrow>
       bindr (createMsgAckPack (pc_ser cfg) (pi_now i) pack uid mid h) (\<lambda>(msg_ack, pack, h).
       bindr (route_back msg_ack (s\<lparr>pr_counter := counter\<rparr>, h)) (\<lambda>(s, h).
       bindr (hmod h (pk_msg pack) (\<lambda>m. m\<lparr>m_uid := uid, m_id := Some mid\<rparr>)) (\<lambda>h.
       bindr (broker_dispatch cfg (pk_msg pack) (s, h)) (\<lambda>(ret, s).
       bindr (after_dispatch ret (pk_msg pack) (s, h)) (\<lambda>(s, h). Inr (0, s, h))))))))"

definition processAuthPack :: "proc_cfg \<Rightarrow> proc_in \<Rightarrow> IMessagePack \<Rightarrow> proc \<times> mheap \<Rightarrow> (int \<times> proc \<times> mheap) res" where
  "processAuthPack cfg i pack = (\<lambda>(s, h). bindr (pack_admitted 2 pack h) (\<lambda>ok.
     let uid = getAuthPackUid pack in
     if \<not> ok \<or> uid = -1 then Inr (-1, s, h)
     else bindr (createAuthPack (pc_ser cfg) (pi_now i) uid pack h) (\<lambda>(msg, h).
       bindr (route_back msg (s, h)) (\<lambda>(s, h). Inr (0, s, h)))))"

text \<open>The frame of both processors: parse, choose the handler, send the message back as an error unless it returned 0.\<close>

definition process_with :: "(IMessagePack \<Rightarrow> proc \<times> mheap \<Rightarrow> (int \<times> proc \<times> mheap) res) \<Rightarrow> proc_cfg \<Rightarrow> proc_in \<Rightarrow>
    addr \<Rightarrow> proc \<times> mheap \<Rightarrow> (int \<times> proc \<times> mheap) res" where
  "process_with handler cfg i msg = (\<lambda>(s, h).
     bindr (hmod h msg (\<lambda>m. m\<lparr>m_process_begin_time := Some (pi_begin i)\<rparr>)) (\<lambda>h.
     bindr (parse (pc_dec cfg) (pi_junk i) msg h) (\<lambda>pack. case pack of
         None \<Rightarrow> bindr (processErrorPack i msg (s, h)) (\<lambda>(s, h). Inr (-1, s, h))
       | Some pack \<Rightarrow> bindr (handler pack (s, h)) (\<lambda>(ret, s, h).
           if ret = 0 then Inr (0, s, h)
           else bindr (processErrorPack i msg (s, h)) (\<lambda>(s, h). Inr (-1, s, h))))))"

definition app_handler_of :: "proc_cfg \<Rightarrow> proc_in \<Rightarrow> IMessagePack \<Rightarrow> proc \<times> mheap \<Rightarrow> (int \<times> proc \<times> mheap) res" where
  "app_handler_of cfg i pack st = (case getMessagePackType pack of
       MSG \<Rightarrow> processMsgPack cfg i pack st
     | TOUCH \<Rightarrow> processTouchPack cfg i pack st
     | AUTH \<Rightarrow> processAuthPack cfg i pack st
     | _ \<Rightarrow> Inr (-1, st))"

definition process :: "proc_cfg \<Rightarrow> proc_in \<Rightarrow> addr \<Rightarrow> proc \<times> mheap \<Rightarrow> (int \<times> proc \<times> mheap) res" where
  "process cfg i = process_with (app_handler_of cfg i) cfg i"

section \<open>ImMessageAuthProcessor\<close>

definition auth :: "IMessagePack \<Rightarrow> int" where
  "auth pack = (if getAuthPackUid pack = -1 then -1 else if getAuthPackToken pack = [] then -1 else 0)"

text \<open>The route is published last, and only if there is a publisher; a failure of \<open>publishRouteInfo\<close> is logged and otherwise
  ignored.\<close>

definition auth_processAuthPack :: "proc_cfg \<Rightarrow> proc_in \<Rightarrow> IMessagePack \<Rightarrow> proc \<times> mheap \<Rightarrow> (int \<times> proc \<times> mheap) res" where
  "auth_processAuthPack cfg i pack = (\<lambda>(s, h). bindr (pack_admitted 1 pack h) (\<lambda>ok.
     if \<not> ok \<or> auth pack \<noteq> 0 then Inr (-1, s, h)
     else let uid = getAuthPackUid pack in
       bindr (createAuthPack (pc_ser cfg) (pi_now i) uid pack h) (\<lambda>(msg, h).
       bindr (hmod h msg (\<lambda>m. m\<lparr>m_state := Some 2, m_switch_state := Fn_switch_state_app_msg\<rparr>)) (\<lambda>h.
       bindr (um_update (pc_im_instance cfg) msg (pr_um s, h)) (\<lambda>(_, u, h).
       bindr (route_back msg (s\<lparr>pr_um := u\<rparr>, h)) (\<lambda>(s, h).
       bindr (guardr Assert_failed (pc_route_publisher cfg)) (\<lambda>_.
       Inr (0, s\<lparr>pr_published := pr_published s @ [(uid, pc_broker_instance cfg)]\<rparr>, h))))))))"

definition auth_process :: "proc_cfg \<Rightarrow> proc_in \<Rightarrow> addr \<Rightarrow> proc \<times> mheap \<Rightarrow> (int \<times> proc \<times> mheap) res" where
  "auth_process cfg i = process_with (\<lambda>pack st. case getMessagePackType pack of
       AUTH \<Rightarrow> auth_processAuthPack cfg i pack st | _ \<Rightarrow> Inr (-1, st)) cfg i"

section \<open>MessageBrokerProcessor\<close>

definition drop_or_collect :: "addr \<Rightarrow> proc \<times> mheap \<Rightarrow> (proc \<times> mheap) res" where
  "drop_or_collect pending = (\<lambda>(s, h). if pending = 0 then Inr (s, h)
     else case pr_collector s of
         Some c \<Rightarrow> bindr (collector_collectList pending (c, h)) (\<lambda>(c, h). Inr (s\<lparr>pr_collector := Some c\<rparr>, h))
       | None \<Rightarrow> bindr (nodes_of m_next h (h_brk h) pending) (\<lambda>ms. bindr (release_all ms h) (\<lambda>h. Inr (s, h))))"

definition broker_processMsgPack :: "proc_cfg \<Rightarrow> proc_in \<Rightarrow> IMessagePack \<Rightarrow> proc \<times> mheap \<Rightarrow> (int \<times> proc \<times> mheap) res" where
  "broker_processMsgPack cfg i pack = (\<lambda>(s, h). if getMsgPackUser pack = -1 then Inr (-1, s, h)
     else bindr (createLocalMsgPack (pc_ser cfg) pack h) (\<lambda>(msg, h).
       if msg \<noteq> 0 then
         bindr (um_routeList (pi_stack i) msg (pr_um s, h)) (\<lambda>(pending, u, h).
         bindr (drop_or_collect pending (s\<lparr>pr_um := u\<rparr>, h)) (\<lambda>(s, h). Inr (0, s, h)))
       else Inr (-1, s, h)))"

definition broker_process :: "proc_cfg \<Rightarrow> proc_in \<Rightarrow> addr \<Rightarrow> proc \<times> mheap \<Rightarrow> (int \<times> proc \<times> mheap) res" where
  "broker_process cfg i msg = (\<lambda>(s, h). bindr (parse (pc_dec cfg) (pi_junk i) msg h) (\<lambda>pack. case pack of
       None \<Rightarrow> bindr (releaseIMessage msg h) (\<lambda>h. Inr (-1, s, h))
     | Some pack \<Rightarrow> bindr (case getMessagePackType pack of MSG \<Rightarrow> broker_processMsgPack cfg i pack (s, h) | _ \<Rightarrow> Inr (-1, s, h))
         (\<lambda>(ret, s, h). if ret = -1 then bindr (releaseIMessage msg h) (\<lambda>h. Inr (ret, s, h)) else Inr (ret, s, h))))"

section \<open>Dispatcher and workers\<close>

text \<open>The queues of the two clusters the dispatcher feeds: \<open>schedule\<close> of the authentication workers is \<open>put\<close> on a blocking
  queue, that of the application workers \<open>put\<close> on the priority queue with two levels.\<close>

record dispatcher =
  d_auth :: MsMessageBlockQueue
  d_app :: MsMessagePriorityQueue

definition app_cluster_queue :: "int \<Rightarrow> MsMessagePriorityQueue res" where
  "app_cluster_queue cluster_size = bindr (guardr Assert_failed (0 < cluster_size)) (\<lambda>_. pq_init 2)"

definition auth_cluster_queue :: "int \<Rightarrow> MsMessageBlockQueue res" where
  "auth_cluster_queue cluster_size = bindr (guardr Assert_failed (0 < cluster_size)) (\<lambda>_. Inr bq_new)"

definition app_schedule :: "addr \<Rightarrow> MsMessagePriorityQueue \<times> mheap \<Rightarrow> (MsMessagePriorityQueue \<times> mheap) res" where
  "app_schedule msg = (\<lambda>(q, h). bindr (hget h msg) (\<lambda>m. pq_put msg (uint (m_priority m)) (q, h)))"

definition auth_schedule :: "addr \<Rightarrow> MsMessageBlockQueue \<times> mheap \<Rightarrow> (MsMessageBlockQueue \<times> mheap) res" where
  "auth_schedule = bq_put"

definition dispatcher_process :: "addr \<Rightarrow> dispatcher \<times> mheap \<Rightarrow> (int \<times> dispatcher \<times> mheap) res" where
  "dispatcher_process msg = (\<lambda>(d, h). bindr (hget h msg) (\<lambda>m. bindr (init_of (m_state m)) (\<lambda>st.
     if st = 0 \<or> st = 1 then
       bindr (auth_schedule msg (d_auth d, hset h msg (m\<lparr>m_state := Some 1, m_priority := 0\<rparr>))) (\<lambda>(q, h).
       Inr (0, d\<lparr>d_auth := q\<rparr>, h))
     else
       bindr (app_schedule msg (d_app d, hset h msg (m\<lparr>m_priority := 1\<rparr>))) (\<lambda>(q, h).
       Inr (0, d\<lparr>d_app := q\<rparr>, h)))))"

text \<open>A cluster starts its workers, numbered from 0; each runs the core, whose loop takes a message and processes it.\<close>

definition cluster_run :: "int \<Rightarrow> int \<times> int list" where
  "cluster_run cluster_size = (if cluster_size \<le> 0 then (-1, []) else (0, [0..cluster_size - 1]))"

definition auth_cluster_run :: "int \<Rightarrow> int \<times> int list" where
  "auth_cluster_run = cluster_run"

definition broker_cluster_run :: "int \<Rightarrow> int \<times> int list" where
  "broker_cluster_run = cluster_run"

definition broker_cluster_queue :: "int \<Rightarrow> MsMessageBlockQueue res" where
  "broker_cluster_queue cluster_size = bindr (guardr Assert_failed (0 < cluster_size)) (\<lambda>_. Inr bq_new)"

definition broker_schedule :: "addr \<Rightarrow> MsMessageBlockQueue \<times> mheap \<Rightarrow> (MsMessageBlockQueue \<times> mheap) res" where
  "broker_schedule = bq_put"

definition worker_turn :: "('q \<times> mheap \<Rightarrow> (addr \<times> 'q \<times> mheap) res) \<Rightarrow> (addr \<Rightarrow> 's \<times> mheap \<Rightarrow> (int \<times> 's \<times> mheap) res) \<Rightarrow>
    'q \<times> 's \<times> mheap \<Rightarrow> ('q \<times> 's \<times> mheap) res" where
  "worker_turn get proc = (\<lambda>(q, s, h). bindr (get (q, h)) (\<lambda>(msg, q, h).
     bindr (proc msg (s, h)) (\<lambda>(_, s, h). Inr (q, s, h))))"

text \<open>The first turns of the endless loop, each with its own inputs.\<close>

primrec worker_turns :: "('q \<times> mheap \<Rightarrow> (addr \<times> 'q \<times> mheap) res) \<Rightarrow>
    ('i \<Rightarrow> addr \<Rightarrow> 's \<times> mheap \<Rightarrow> (int \<times> 's \<times> mheap) res) \<Rightarrow> 'i list \<Rightarrow> 'q \<times> 's \<times> mheap \<Rightarrow> ('q \<times> 's \<times> mheap) res" where
  "worker_turns get proc [] st = Inr st"
| "worker_turns get proc (i # is) st = bindr (worker_turn get (proc i) st) (worker_turns get proc is)"

definition app_core_run :: "proc_cfg \<Rightarrow> proc_in list \<Rightarrow> MsMessagePriorityQueue \<times> proc \<times> mheap \<Rightarrow> (MsMessagePriorityQueue \<times> proc \<times> mheap) res" where
  "app_core_run cfg = worker_turns pq_get (process cfg)"

definition auth_core_run :: "proc_cfg \<Rightarrow> proc_in list \<Rightarrow> MsMessageBlockQueue \<times> proc \<times> mheap \<Rightarrow> (MsMessageBlockQueue \<times> proc \<times> mheap) res" where
  "auth_core_run cfg = worker_turns (bq_get_count 1) (auth_process cfg)"

definition broker_core_run :: "proc_cfg \<Rightarrow> proc_in list \<Rightarrow> MsMessageBlockQueue \<times> proc \<times> mheap \<Rightarrow> (MsMessageBlockQueue \<times> proc \<times> mheap) res" where
  "broker_core_run cfg = worker_turns (bq_get_count 1) (broker_process cfg)"

end
