(* ===== verification/Workers.thy ===== *)
theory Workers
  imports Processing
begin

text \<open>
  The processors as the workers see them. The locale \<open>processor\<close> is the contract of \<open>MsMessageProcessor::process\<close>: the
  message handed over is afterwards in a queue the processor feeds or released, nothing else is lost, and no fault
  occurs while memory lasts. A processor may need more than the messages: \<open>room s n\<close> says that its state has what \<open>n\<close> more calls need,
  which for the client messages is the pools of the remote service. The locale \<open>worker_queue\<close> is the contract of the queue a worker takes its messages from.
  What a worker does is proved once over both; the three kinds of workers are interpretations.
\<close>

section \<open>Messages and their payload\<close>

text \<open>A message without its buffer, and a message whose buffer holds a payload.\<close>

definition hull :: "IMessage \<Rightarrow> IMessage" where
  "hull m = m\<lparr>m_b := [], m_data := 0, m_size := 0, m_data_len := 0, m_frame_len := 0\<rparr>"

definition carries :: "byte list \<Rightarrow> IMessage \<Rightarrow> bool" where
  "carries bs m \<longleftrightarrow> msg_wf m \<and> load_frame m = Inr (frame_of bs) \<and> load_data m = Inr bs"

text \<open>An update of fields other than those of the buffer.\<close>

definition plain :: "(IMessage \<Rightarrow> IMessage) \<Rightarrow> bool" where
  "plain f \<longleftrightarrow> (\<forall>m. hull (f m) = f (hull m) \<and> m_b (f m) = m_b m \<and> m_data (f m) = m_data m \<and> m_size (f m) = m_size m \<and>
     m_data_len (f m) = m_data_len m \<and> m_frame_len (f m) = m_frame_len m)"

lemma hull_fields:
  "hull m = hull m' \<Longrightarrow> m_next m = m_next m' \<and> m_uid m = m_uid m' \<and> m_io m = m_io m' \<and> m_conn m = m_conn m' \<and>
     m_state m = m_state m' \<and> m_gen_time m = m_gen_time m' \<and> m_id m = m_id m' \<and> m_switch_state m = m_switch_state m' \<and>
     m_need_collect m = m_need_collect m' \<and> m_force_push m = m_force_push m' \<and> m_close_conn m = m_close_conn m'"
  by (cases m; cases m') (simp add: hull_def)

lemma plain_wf: "plain f \<Longrightarrow> msg_wf (f m) = msg_wf m"
  by (simp add: plain_def msg_wf_def)

lemma plain_load: "plain f \<Longrightarrow> load_data (f m) = load_data m" "plain f \<Longrightarrow> load_frame (f m) = load_frame m"
  by (simp_all add: plain_def load_data_def load_frame_def)

lemma plain_hull: "plain f \<Longrightarrow> hull (f m) = f (hull m)"
  by (simp add: plain_def)

lemma plain_carries: "plain f \<Longrightarrow> carries bs (f m) = carries bs m"
  by (simp add: carries_def plain_wf plain_load)

text \<open>\<open>fixIMessage\<close>, some fields, then the bytes: the message keeps everything else.\<close>

lemma refit_ok:
  assumes "hget h a = Inr m" "msg_wf m" "int (length bs) < 2147483640" "h_brk h < h_lim h" "plain f"
  shows "\<exists>m'. bindr (fixIMessage a (int (length bs)) h) (\<lambda>h. bindr (hmod h a f) (store_data a bs)) = Inr (hset h a m') \<and>
    carries bs m' \<and> hull m' = f (hull m)"
proof -
  have a: "a \<noteq> 0" using assms(1) by (simp add: hget_Inr)
  have "\<exists>m1. fixIMessage a (int (length bs)) h = Inr (hset h a m1) \<and> msg_wf m1 \<and> m_data_len m1 = int (length bs) \<and>
    rd_bytes (m_b m1) 0 8 = Inr (frame_header (int (length bs))) \<and> hull m1 = hull m"
  proof -
    obtain m1 where m1: "fixIMessage a (int (length bs)) h = Inr (hset h a m1)" "msg_wf m1" "m_data_len m1 = int (length bs)"
      "rd_bytes (m_b m1) 0 8 = Inr (frame_header (int (length bs)))"
      using fixIMessage_ok[OF assms(1,2) _ assms(3,4)] by auto
    have "hull (the (h_cells (hset h a m1) a)) = hull m"
      using m1(1) assms(1) by (auto simp: fixIMessage_def Let_def bindr_eq_Inr hull_def split: if_splits
        dest!: arg_cong[where f = "\<lambda>h. the (h_cells h a)"])
    then show ?thesis using m1 by auto
  qed
  then obtain m1 where m1: "fixIMessage a (int (length bs)) h = Inr (hset h a m1)" "msg_wf m1" "m_data_len m1 = int (length bs)"
    "rd_bytes (m_b m1) 0 8 = Inr (frame_header (int (length bs)))" "hull m1 = hull m" by blast
  have f: "hget (hset h a (f m1)) a = Inr (f m1)" "msg_wf (f m1)" "m_data_len (f m1) = int (length bs)"
    "rd_bytes (m_b (f m1)) 0 8 = Inr (frame_header (int (length bs)))"
    using m1 a assms(5) by (auto simp: heap_simps plain_wf plain_def)
  from store_data_ok[OF f] obtain buf where b: "store_data a bs (hset h a (f m1)) = Inr (hset h a ((f m1)\<lparr>m_b := buf\<rparr>))"
    "carries bs ((f m1)\<lparr>m_b := buf\<rparr>)" by (auto simp: carries_def)
  have "hull ((f m1)\<lparr>m_b := buf\<rparr>) = hull (f m1)" by (simp add: hull_def)
  also have "\<dots> = f (hull m)" using m1(5) assms(5) by (simp add: plain_hull)
  finally have "hull ((f m1)\<lparr>m_b := buf\<rparr>) = f (hull m)" .
  moreover have "hmod (hset h a m1) a f = Inr (hset h a (f m1))" using a by (simp add: hmod_def heap_simps)
  ultimately show ?thesis using m1(1) b by auto
qed

text \<open>The same for a new message.\<close>

definition blank :: IMessage where
  "blank = hull (new_IMessage [] 0 0 0)"

lemma create_ok:
  assumes "int (length bs) < 2147483640" "heap_ok h" "h_brk h < h_lim h" "plain f"
  shows "\<exists>m'. bindr (createIMessage_len (int (length bs)) h) (\<lambda>(msg, h). bindr (hmod h msg f) (\<lambda>h.
      bindr (store_data msg bs h) (\<lambda>h. Inr (msg, h)))) = Inr (h_brk h, hnew m' h) \<and> carries bs m' \<and> hull m' = f blank"
proof -
  define n where "n = new_IMessage (map Some (frame_header (int (length bs))) @ malloc_bytes (length bs))
    (int (length bs) + 8) (int (length bs)) (int (length bs) + 8)"
  have c: "createIMessage_len (int (length bs)) h = Inr (h_brk h, hnew n h)"
    using createIMessage_len_ok[of "int (length bs)" h] assms by (simp add: n_def)
  have b: "0 < h_brk h" using assms(2) by (simp add: heap_ok_def)
  have nb: "m_b n = map Some (frame_header (int (length bs))) @ malloc_bytes (length bs)" "msg_wf n"
    "m_data_len n = int (length bs)" "hull n = blank" by (simp_all add: n_def msg_wf_def new_IMessage_def hull_def blank_def)
  have f: "hget (hnew (f n) h) (h_brk h) = Inr (f n)" "msg_wf (f n)" "m_data_len (f n) = int (length bs)"
    "rd_bytes (m_b (f n)) 0 8 = Inr (frame_header (int (length bs)))"
    using assms(2,4) b nb by (simp_all add: heap_simps plain_wf) (simp_all add: plain_def nb rd_bytes_Some)
  from store_data_ok[OF f] obtain buf where s: "store_data (h_brk h) bs (hnew (f n) h) = Inr (hset (hnew (f n) h) (h_brk h) ((f n)\<lparr>m_b := buf\<rparr>))"
    "carries bs ((f n)\<lparr>m_b := buf\<rparr>)" by (auto simp: carries_def)
  have "hull ((f n)\<lparr>m_b := buf\<rparr>) = hull (f n)" by (simp add: hull_def)
  also have "\<dots> = f blank" using assms(4) nb(4) by (simp add: plain_hull)
  finally have "hull ((f n)\<lparr>m_b := buf\<rparr>) = f blank" .
  moreover have "hset (hnew (f n) h) (h_brk h) ((f n)\<lparr>m_b := buf\<rparr>) = hnew ((f n)\<lparr>m_b := buf\<rparr>) h"
    by (simp add: hset_def hnew_def)
  moreover have "hmod (hnew n h) (h_brk h) f = Inr (hnew (f n) h)" by (rule hmod_hnew[OF assms(2)])
  ultimately show ?thesis using c s by (intro exI[of _ "(f n)\<lparr>m_b := buf\<rparr>"]) simp
qed

section \<open>What a processor keeps\<close>

text \<open>Nothing outside \<open>A\<close> changes, new messages get new addresses.\<close>

definition keeps :: "addr set \<Rightarrow> mheap \<Rightarrow> mheap \<Rightarrow> bool" where
  "keeps A h h' \<longleftrightarrow> h_lim h' = h_lim h \<and> h_brk h \<le> h_brk h' \<and>
     (\<forall>b. b \<notin> A \<longrightarrow> b < h_brk h \<longrightarrow> h_cells h' b = h_cells h b)"

text \<open>The message \<open>a\<close> was processed: of it, of the queues' contents \<open>Q\<close> and of what was allocated, exactly the messages
  in the queues' new contents \<open>Q'\<close> are alive.\<close>

definition served :: "nat \<Rightarrow> addr \<Rightarrow> addr set \<Rightarrow> mheap \<Rightarrow> addr set \<Rightarrow> mheap \<Rightarrow> bool" where
  "served n a Q h Q' h' \<longleftrightarrow> heap_ok h' \<and> keeps (insert a Q) h h' \<and> h_brk h' \<le> h_brk h + n \<and>
     Q' \<subseteq> insert a Q \<union> {h_brk h..} \<and> (\<forall>b. b \<in> insert a Q \<or> h_brk h \<le> b \<longrightarrow> (live h' b \<longleftrightarrow> b \<in> Q'))"

lemma keeps_trans: "keeps A h h1 \<Longrightarrow> keeps B h1 h2 \<Longrightarrow> B \<subseteq> A \<union> {h_brk h..} \<Longrightarrow> keeps A h h2"
  unfolding keeps_def by (metis UnE atLeast_iff le_trans less_le_trans linorder_not_less subset_iff)

lemma keeps_hset: "a \<in> A \<Longrightarrow> keeps A h (hset h a m)"
  by (auto simp: keeps_def)

lemma keeps_hnew: "keeps A h (hnew m h)"
  by (auto simp: keeps_def)

lemma keeps_relinked: "relinked f h h' \<Longrightarrow> (\<And>b. b \<notin> A \<Longrightarrow> h_cells h' b = h_cells h b) \<Longrightarrow> keeps A h h'"
  by (simp add: keeps_def relinked_def)

lemma live_brk: "heap_ok h \<Longrightarrow> h_brk h \<le> b \<Longrightarrow> \<not> live h b"
  by (simp add: heap_ok_def live_def)

text \<open>What is alive after a message was served: the queues, and what was neither there nor handed over.\<close>

lemma served_live:
  "heap_ok h \<Longrightarrow> served n a Q h Q' h' \<Longrightarrow> live h' b \<longleftrightarrow> b \<in> Q' \<or> live h b \<and> b \<notin> insert a Q"
proof (cases "b \<in> insert a Q \<or> h_brk h \<le> b")
  case True
  assume "heap_ok h" "served n a Q h Q' h'"
  then show ?thesis using True live_brk by (auto simp: served_def)
next
  case False
  assume "heap_ok h" "served n a Q h Q' h'"
  then show ?thesis using False by (auto simp: served_def keeps_def live_def)
qed

locale processor =
  fixes owns :: "'s \<Rightarrow> mheap \<Rightarrow> addr set \<Rightarrow> bool" and accepts :: "IMessage \<Rightarrow> bool" and need :: nat
    and room :: "'s \<Rightarrow> nat \<Rightarrow> bool" and proc :: "'i \<Rightarrow> addr \<Rightarrow> 's \<times> mheap \<Rightarrow> (int \<times> 's \<times> mheap) res"
  assumes owns_frame: "owns s h Q \<Longrightarrow> heap_ok h' \<Longrightarrow> (\<And>b. b \<in> Q \<Longrightarrow> h_cells h' b = h_cells h b) \<Longrightarrow> owns s h' Q"
    and owns_live: "owns s h Q \<Longrightarrow> b \<in> Q \<Longrightarrow> live h b"
    and process_law: "owns s h Q \<Longrightarrow> heap_ok h \<Longrightarrow> h_brk h + need \<le> h_lim h \<Longrightarrow> hget h a = Inr m \<Longrightarrow> accepts m \<Longrightarrow>
      m_next m = 0 \<Longrightarrow> a \<notin> Q \<Longrightarrow> room s (Suc n) \<Longrightarrow>
      \<exists>r s' h' Q'. proc i a (s, h) = Inr (r, s', h') \<and> owns s' h' Q' \<and> served need a Q h Q' h' \<and> room s' n"

locale worker_queue =
  fixes waits :: "'q \<times> mheap \<Rightarrow> addr list \<Rightarrow> bool" and get :: "'q \<times> mheap \<Rightarrow> (addr \<times> 'q \<times> mheap) res"
  assumes waits_frame: "waits (q, h) xs \<Longrightarrow> heap_ok h' \<Longrightarrow> (\<And>b. b \<in> set xs \<Longrightarrow> h_cells h' b = h_cells h b) \<Longrightarrow> waits (q, h') xs"
    and waits_live: "waits (q, h) xs \<Longrightarrow> heap_ok h \<and> distinct xs \<and> (\<forall>x \<in> set xs. live h x)"
    and get_law: "waits (q, h) (x # xs) \<Longrightarrow> hget h x = Inr m \<Longrightarrow>
      \<exists>q'. get (q, h) = Inr (x, q', hset h x (set_next 0 m)) \<and> waits (q', hset h x (set_next 0 m)) xs"

locale worker = processor owns accepts need room proc + worker_queue waits get
  for owns :: "'s \<Rightarrow> mheap \<Rightarrow> addr set \<Rightarrow> bool" and accepts and need and room
    and proc :: "'i \<Rightarrow> addr \<Rightarrow> 's \<times> mheap \<Rightarrow> (int \<times> 's \<times> mheap) res"
    and waits :: "'q \<times> mheap \<Rightarrow> addr list \<Rightarrow> bool" and get +
  assumes accepts_next: "accepts (set_next v m) = accepts m"
begin

lemma turn_ok:
  assumes "waits (q, h) (x # xs)" "owns s h Q" "Q \<inter> set (x # xs) = {}" "h_brk h + need \<le> h_lim h" "accepts (imsg_at h x)"
    "room s (Suc n)"
  shows "\<exists>q' s' h' Q'. worker_turn get (proc i) (q, s, h) = Inr (q', s', h') \<and> waits (q', h') xs \<and> owns s' h' Q' \<and>
    served need x Q h Q' h' \<and> room s' n"
proof -
  have w: "heap_ok h" "x \<notin> set xs" "live h x" using waits_live[OF assms(1)] by auto
  then obtain m where m: "hget h x = Inr m" "imsg_at h x = m" by (auto simp: live_iff_hget hget_Inr)
  let ?h = "hset h x (set_next 0 m)"
  obtain q' where q': "get (q, h) = Inr (x, q', ?h)" "waits (q', ?h) xs" using get_law[OF assms(1) m(1)] by blast
  have ok: "heap_ok ?h" using w by simp
  have o: "owns s ?h Q" by (rule owns_frame[OF assms(2) ok]) (use assms(3) in auto)
  have g: "hget ?h x = Inr (set_next 0 m)" using w(3) by (simp add: heap_simps live_def)
  have a: "accepts (set_next 0 m)" using assms(5) m(2) by (simp add: accepts_next)
  have mem: "h_brk ?h + need \<le> h_lim ?h" using assms(4) by (simp add: hset_def)
  from process_law[OF o ok mem g a _ _ assms(6), of i] assms(3) obtain r s' h' Q' where p:
    "proc i x (s, ?h) = Inr (r, s', h')" "owns s' h' Q'" "served need x Q ?h Q' h'" "room s' n" by auto
  have ok': "heap_ok h'" using p(3) by (simp add: served_def)
  have same: "h_cells h' b = h_cells ?h b" if b: "b \<in> set xs" for b
  proof -
    have "live ?h b" using waits_live[OF q'(2)] b by blast
    then have "b < h_brk h" using live_lt_brk[OF ok] by (simp add: hset_def)
    moreover have "b \<notin> insert x Q" using b assms(3) w(2) by auto
    ultimately show ?thesis using p(3) by (simp add: served_def keeps_def hset_def)
  qed
  have "waits (q', h') xs" by (rule waits_frame[OF q'(2) ok']) (rule same)
  moreover have "served need x Q h Q' h'" using p(3) w(3) by (auto simp: served_def keeps_def hset_def)
  ultimately show ?thesis using q'(1) p(1,2,4) by (auto simp: worker_turn_def)
qed

lemma turns_drain:
  assumes "waits (q, h) xs" "owns s h Q" "Q \<inter> set xs = {}" "h_brk h + length xs * need \<le> h_lim h"
    "\<And>x. x \<in> set xs \<Longrightarrow> accepts (imsg_at h x)" "length is = length xs" "room s (length xs)"
  shows "\<exists>q' s' h' Q'. worker_turns get proc is (q, s, h) = Inr (q', s', h') \<and> waits (q', h') [] \<and> owns s' h' Q' \<and>
    (\<forall>b. live h' b \<longleftrightarrow> b \<in> Q' \<or> live h b \<and> b \<notin> Q \<union> set xs)"
  using assms
proof (induction xs arbitrary: q s h Q "is")
  case Nil
  have "live h b" if "b \<in> Q" for b using owns_live[OF Nil(2) that] .
  then show ?case using Nil by auto
next
  case (Cons x xs)
  obtain i js where js: "is = i # js" using Cons.prems(6) by (cases "is") auto
  have w: "heap_ok h" "x \<notin> set xs" "\<forall>y \<in> set (x # xs). live h y" using waits_live[OF Cons.prems(1)] by auto
  from turn_ok[OF Cons.prems(1,2,3), of "length xs" i] Cons.prems(4,5,7) obtain q1 s1 h1 Q1 where t:
    "worker_turn get (proc i) (q, s, h) = Inr (q1, s1, h1)" "waits (q1, h1) xs" "owns s1 h1 Q1" "served need x Q h Q1 h1"
    "room s1 (length xs)" by auto
  have lt: "y < h_brk h" if "y \<in> set xs" for y using w that live_lt_brk by auto
  have same: "h_cells h1 y = h_cells h y" if "y \<in> set xs" for y
    using t(4) lt[OF that] that w(2) Cons.prems(3) by (auto simp: served_def keeps_def)
  have "Q1 \<inter> set xs = {}" using t(4) Cons.prems(3) w(2) lt by (fastforce simp: served_def)
  moreover have "h_brk h1 + length xs * need \<le> h_lim h1" using t(4) Cons.prems(4) by (simp add: served_def keeps_def)
  moreover have "accepts (imsg_at h1 y)" if "y \<in> set xs" for y using Cons.prems(5)[of y] same[OF that] that by simp
  ultimately obtain q2 s2 h2 Q2 where i: "worker_turns get proc js (q1, s1, h1) = Inr (q2, s2, h2)" "waits (q2, h2) []"
    "owns s2 h2 Q2" "\<forall>b. live h2 b \<longleftrightarrow> b \<in> Q2 \<or> live h1 b \<and> b \<notin> Q1 \<union> set xs"
    using Cons.IH[OF t(2,3), of js] Cons.prems(6) t(5) js by auto
  have old: "b \<notin> Q1" if "live h b" "b \<notin> insert x Q" for b
    using t(4) that live_lt_brk[OF w(1) that(1)] by (auto simp: served_def)
  have "live h2 b \<longleftrightarrow> b \<in> Q2 \<or> live h b \<and> b \<notin> Q \<union> set (x # xs)" for b
    using i(4) served_live[OF w(1) t(4)] old[of b] by auto
  then show ?case using i(1-3) t(1) js by auto
qed

end

section \<open>The queues of the workers\<close>

interpretation bq_source: worker_queue bq_holds "bq_get_count 1"
proof
  show "bq_holds (q, h') xs" if "bq_holds (q, h) xs" "heap_ok h'" "\<And>b. b \<in> set xs \<Longrightarrow> h_cells h' b = h_cells h b" for q h h' xs
    using that by (auto simp: bq_holds_def intro: seg_frame)
  show "heap_ok h \<and> distinct xs \<and> (\<forall>x \<in> set xs. live h x)" if "bq_holds (q, h) xs" for q h xs
    using that by (auto simp: bq_holds_def seg_distinct seg_live)
  show "\<exists>q'. bq_get_count 1 (q, h) = Inr (x, q', hset h x (set_next 0 m)) \<and> bq_holds (q', hset h x (set_next 0 m)) xs"
    if a: "bq_holds (q, h) (x # xs)" "hget h x = Inr m" for q h x xs m
  proof -
    have d: "x \<notin> set xs" "heap_ok h" "live h x" using a by (auto simp: bq_holds_def live_iff_hget dest: seg_distinct)
    have p: "bq_list q = x" "mpath h (m_next m) xs 0" "bq_tail q = last (x # xs)" "bq_list_size q = 1 + int (length xs)"
      using a by (auto simp: bq_holds_def seg_def hget_Inr)
    show ?thesis
    proof (cases xs)
      case Nil
      then have "m_next m = 0" using p(2) by simp
      then have "hset h x (set_next 0 m) = h" using a(2) by (cases h) (auto simp: hset_def hget_Inr)
      then show ?thesis using a Nil p by (auto simp: bq_get_count_def bq_holds_def)
    next
      case (Cons y ys)
      have "mpath (hset h x (set_next 0 m)) (m_next m) xs 0" using p(2) d(1) by simp
      moreover have "bq_get_count 1 (q, h) = Inr (x, q\<lparr>bq_list := m_next m, bq_list_size := int (length xs)\<rparr>, hset h x (set_next 0 m))"
        using a(2) p Cons by (simp add: bq_get_count_def)
      ultimately show ?thesis using d p(3) Cons by (simp add: bq_holds_def seg_def)
    qed
  qed
qed

definition pq_waits :: "MsMessagePriorityQueue \<times> mheap \<Rightarrow> addr list \<Rightarrow> bool" where
  "pq_waits st xs \<longleftrightarrow> (\<exists>xss. pq_holds st xss \<and> xs = concat xss)"

lemma pq_holds_frame:
  assumes "pq_holds (q, h) xss" "heap_ok h'" "\<And>b. b \<in> set (concat xss) \<Longrightarrow> h_cells h' b = h_cells h b"
  shows "pq_holds (q, h') xss"
proof -
  have "list_all2 (\<lambda>u xs. uq_holds (u, h') xs) (pq_pri_queue q) xss"
    unfolding list_all2_conv_all_nth
  proof (intro conjI allI impI)
    fix i assume i: "i < length (pq_pri_queue q)"
    have "list_all2 (\<lambda>u xs. uq_holds (u, h) xs) (pq_pri_queue q) xss" using assms(1) by (simp add: pq_holds_def)
    then have u: "uq_holds (pq_pri_queue q ! i, h) (xss ! i)" "xss ! i \<in> set xss"
      using i by (auto simp: list_all2_conv_all_nth)
    then show "uq_holds (pq_pri_queue q ! i, h') (xss ! i)"
      using assms(2,3) by (auto simp: uq_holds_def intro!: seg_frame[of m_next h])
  qed (use assms(1) in \<open>auto simp: pq_holds_def list_all2_lengthD\<close>)
  then show ?thesis using assms(1,2) by (auto simp: pq_holds_def)
qed

interpretation pq_source: worker_queue pq_waits pq_get
proof
  show "pq_waits (q, h') xs" if "pq_waits (q, h) xs" "heap_ok h'" "\<And>b. b \<in> set xs \<Longrightarrow> h_cells h' b = h_cells h b" for q h h' xs
    using that pq_holds_frame[of q h _ h'] unfolding pq_waits_def by blast
  show "heap_ok h \<and> distinct xs \<and> (\<forall>x \<in> set xs. live h x)" if "pq_waits (q, h) xs" for q h xs
    using that uq_levels_live by (fastforce simp: pq_waits_def pq_holds_def)
  show "\<exists>q'. pq_get (q, h) = Inr (x, q', hset h x (set_next 0 m)) \<and> pq_waits (q', hset h x (set_next 0 m)) xs"
    if a: "pq_waits (q, h) (x # xs)" "hget h x = Inr m" for q h x xs m
  proof -
    obtain xss where x: "pq_holds (q, h) xss" "concat xss = x # xs" using a(1) by (auto simp: pq_waits_def)
    then show ?thesis using pq_get_ok[OF x(1)] a(2) concat_pop_first[of xss]
      by (auto simp: pq_waits_def)
  qed
qed

section \<open>What the processors own\<close>

definition proc_holds :: "proc \<Rightarrow> mheap \<Rightarrow> addr list \<Rightarrow> addr list \<Rightarrow> bool" where
  "proc_holds s h ys zs \<longleftrightarrow> bq_holds (snd (pr_um s), h) ys \<and>
     (case pr_collector s of None \<Rightarrow> zs = [] | Some c \<Rightarrow> bq_holds (c, h) zs) \<and> set ys \<inter> set zs = {}"

definition proc_owns :: "proc \<Rightarrow> mheap \<Rightarrow> addr set \<Rightarrow> bool" where
  "proc_owns s h Q \<longleftrightarrow> (\<exists>ys zs. proc_holds s h ys zs \<and> Q = set ys \<union> set zs)"

lemma proc_holds_frame:
  "proc_holds s h ys zs \<Longrightarrow> heap_ok h' \<Longrightarrow> (\<And>b. b \<in> set ys \<union> set zs \<Longrightarrow> h_cells h' b = h_cells h b) \<Longrightarrow> proc_holds s h' ys zs"
  by (auto simp: proc_holds_def bq_holds_def intro!: seg_frame[of m_next h] split: option.splits)

lemma proc_holds_live: "proc_holds s h ys zs \<Longrightarrow> b \<in> set ys \<union> set zs \<Longrightarrow> live h b"
  by (auto simp: proc_holds_def bq_holds_def split: option.splits dest: seg_live)

lemma proc_holds_ok: "proc_holds s h ys zs \<Longrightarrow> heap_ok h"
  by (simp add: proc_holds_def bq_holds_def)

text \<open>A message was appended to the queue of the local router; \<open>m\<close> is its final contents.\<close>

definition sent_back :: "addr \<Rightarrow> addr list \<Rightarrow> addr list \<Rightarrow> IMessage \<Rightarrow> mheap \<Rightarrow> proc \<Rightarrow> mheap \<Rightarrow> bool" where
  "sent_back a ys zs m h s' h' \<longleftrightarrow> proc_holds s' h' (ys @ [a]) zs \<and> h_cells h' a = Some m \<and>
     keeps (insert a (set ys)) h h' \<and> h_brk h' = h_brk h"

lemma route_back_ok:
  assumes "proc_holds s h ys zs" "hget h a = Inr m" "m_next m = 0" "a \<notin> set ys \<union> set zs"
  shows "\<exists>q h'. route_back a (s, h) = Inr (s\<lparr>pr_um := (fst (pr_um s), q)\<rparr>, h') \<and>
    sent_back a ys zs m h (s\<lparr>pr_um := (fst (pr_um s), q)\<rparr>) h'"
proof -
  obtain t q where u: "pr_um s = (t, q)" by (cases "pr_um s")
  have b: "bq_holds (q, h) ys" using assms(1) u by (simp add: proc_holds_def)
  have "mpath h a [a] 0" using assms(2,3) by (simp add: hget_Inr)
  from bq_putList_ok[OF b this] assms(4) obtain q' h' where h': "bq_putList a (q, h) = Inr (q', h')"
    "bq_holds (q', h') (ys @ [a])" "relinked set_next h h'" "\<forall>b. b \<notin> set ys \<longrightarrow> h_cells h' b = h_cells h b" by auto
  have "heap_ok h'" using h'(2) by (simp add: bq_holds_def)
  then have z: "case pr_collector s of None \<Rightarrow> zs = [] | Some c \<Rightarrow> bq_holds (c, h') zs"
    using assms(1) h'(4) by (auto simp: proc_holds_def bq_holds_def intro!: seg_frame[of m_next h] split: option.splits)
  have "proc_holds (s\<lparr>pr_um := (t, q')\<rparr>) h' (ys @ [a]) zs"
    using z h'(2) assms(1,4) by (auto simp: proc_holds_def)
  moreover have "keeps (insert a (set ys)) h h'" by (rule keeps_relinked[OF h'(3)]) (use h'(4) in auto)
  moreover have "h_brk h' = h_brk h" using h'(3) by (simp add: relinked_def)
  moreover have "h_cells h' a = Some m" using h'(4) assms(2,4) by (simp add: hget_Inr)
  ultimately show ?thesis using h'(1) u by (auto simp: route_back_def um_routeBack_def router_route_def sent_back_def)
qed

lemma sent_back_hset: "sent_back a ys zs m (hset h a c) s' h' \<Longrightarrow> sent_back a ys zs m h s' h'"
  by (auto simp: sent_back_def keeps_def hset_def)

lemma proc_holds_hset:
  "proc_holds s h ys zs \<Longrightarrow> live h a \<Longrightarrow> a \<notin> set ys \<union> set zs \<Longrightarrow> proc_holds s (hset h a c) ys zs"
  by (rule proc_holds_frame) (auto simp: proc_holds_ok)

lemma sent_back_served:
  assumes "sent_back a ys zs m h s' h'" "proc_holds s h ys zs" "live h a"
  shows "served n a (set ys \<union> set zs) h (insert a (set ys \<union> set zs)) h'"
proof -
  have "heap_ok h'" using assms(1) proc_holds_ok by (auto simp: sent_back_def)
  moreover have "live h' b" if "b \<in> insert a (set ys \<union> set zs)" for b
    using assms(1) that proc_holds_live[of s' h' "ys @ [a]" zs b] by (auto simp: sent_back_def)
  moreover have "\<not> live h' b" if "h_brk h \<le> b" for b
    using assms(1) that live_brk[OF \<open>heap_ok h'\<close>] by (simp add: sent_back_def)
  moreover have "b \<notin> insert a (set ys \<union> set zs)" if "h_brk h \<le> b" for b
    using that live_brk[OF proc_holds_ok[OF assms(2)], of b] proc_holds_live[OF assms(2), of b] assms(3) by auto
  ultimately show ?thesis using assms(1) by (auto simp: served_def sent_back_def keeps_def)
qed

text \<open>A message that fails is marked for closing and sent back.\<close>

definition error_mark :: "proc_in \<Rightarrow> IMessage \<Rightarrow> IMessage" where
  "error_mark i m = m\<lparr>m_need_collect := False, m_force_push := True, m_close_conn := True, m_process_end_time := Some (pi_end i)\<rparr>"

lemma processErrorPack_ok:
  assumes "proc_holds s h ys zs" "hget h a = Inr m" "m_next m = 0" "a \<notin> set ys \<union> set zs"
  shows "\<exists>q h'. processErrorPack i a (s, h) = Inr (s\<lparr>pr_um := (fst (pr_um s), q)\<rparr>, h') \<and>
    sent_back a ys zs (error_mark i m) h (s\<lparr>pr_um := (fst (pr_um s), q)\<rparr>) h'"
proof -
  have l: "live h a" using assms(2) live_iff_hget by blast
  have "hget (hset h a (error_mark i m)) a = Inr (error_mark i m)" "m_next (error_mark i m) = 0"
    using l assms(3) by (simp_all add: heap_simps live_def error_mark_def)
  from route_back_ok[OF proc_holds_hset[OF assms(1) l assms(4)] this assms(4)] obtain q h' where
    "route_back a (s, hset h a (error_mark i m)) = Inr (s\<lparr>pr_um := (fst (pr_um s), q)\<rparr>, h')"
    "sent_back a ys zs (error_mark i m) h (s\<lparr>pr_um := (fst (pr_um s), q)\<rparr>) h'" using sent_back_hset by blast
  then show ?thesis using assms(2) by (auto simp: processErrorPack_def hmod_def error_mark_def)
qed

text \<open>The guard of the handlers, as a predicate on the message and the pack.\<close>

definition admitted :: "int \<Rightarrow> ImPack \<Rightarrow> IMessage \<Rightarrow> bool" where
  "admitted st p m \<longleftrightarrow> m_state m = Some st \<and>
     (case m_gen_time m of None \<Rightarrow> False
      | Some (sec, usec) \<Rightarrow> s32 (s32 (sec - TIMESTAMP_20150101000000) - getd 0 (p_ts p)) \<le> 30)"

definition stamped :: "IMessage \<Rightarrow> bool" where
  "stamped m \<longleftrightarrow> m_state m \<noteq> None \<and> m_gen_time m \<noteq> None"

lemma pack_admitted_eq:
  "hget h (pk_msg pack) = Inr m \<Longrightarrow> stamped m \<Longrightarrow> pack_admitted st pack h = Inr (admitted st (pk_data pack) m)"
  by (cases "m_gen_time m"; cases "m_state m")
    (auto simp: pack_admitted_def checkTimeStamp_def admitted_def stamped_def Let_def not_le)

text \<open>The two replies that reuse the message.\<close>

lemma plain_reply: "plain (\<lambda>m. m\<lparr>m_uid := uid, m_need_collect := False\<rparr>)"
  by (simp add: plain_def hull_def)

lemma reply_in_ok:
  assumes "hget h a = Inr m" "msg_wf m" "int (length (ser data)) < 2147483640" "h_brk h < h_lim h"
  shows "\<exists>m'. reply_in ser data uid a h = Inr (hset h a m') \<and> carries (ser data) m' \<and>
    hull m' = (hull m)\<lparr>m_uid := uid, m_need_collect := False\<rparr>"
  unfolding reply_in_def by (rule refit_ok[OF assms plain_reply])

text \<open>Everything a handler may rely on when it is called.\<close>

definition handed :: "proc \<Rightarrow> mheap \<Rightarrow> addr list \<Rightarrow> addr list \<Rightarrow> addr \<Rightarrow> IMessage \<Rightarrow> bool" where
  "handed s h ys zs a m \<longleftrightarrow> proc_holds s h ys zs \<and> hget h a = Inr m \<and> msg_wf m \<and> m_next m = 0 \<and>
     a \<notin> set ys \<union> set zs \<and> h_brk h < h_lim h"

lemma handed_live: "handed s h ys zs a m \<Longrightarrow> live h a \<and> a \<noteq> 0 \<and> a < h_brk h"
  using live_lt_brk proc_holds_ok by (fastforce simp: handed_def live_iff_hget hget_Inr)

text \<open>A changed message is sent back.\<close>

lemma hset_route_back:
  assumes "handed s h ys zs a m" "m_next c = 0"
  shows "\<exists>q h'. route_back a (s, hset h a c) = Inr (s\<lparr>pr_um := (fst (pr_um s), q)\<rparr>, h') \<and>
    sent_back a ys zs c h (s\<lparr>pr_um := (fst (pr_um s), q)\<rparr>) h'"
proof -
  have l: "live h a" "a \<noteq> 0" and n: "a \<notin> set ys \<union> set zs" and p: "proc_holds s h ys zs"
    using handed_live[OF assms(1)] assms(1) by (auto simp: handed_def)
  have "hget (hset h a c) a = Inr c" using l by (simp add: heap_simps)
  from route_back_ok[OF proc_holds_hset[OF p l(1) n] this assms(2) n] show ?thesis using sent_back_hset by blast
qed

definition channel_to :: "64 word \<Rightarrow> int \<Rightarrow> IMessage \<Rightarrow> IoChannel" where
  "channel_to inst uid m = \<lparr>ch_uid = uid, ch_io = m_io m, ch_conn = m_conn m, ch_host = inst\<rparr>"

lemma proc_holds_table: "proc_holds (s\<lparr>pr_um := (t, snd (pr_um s))\<rparr>) h ys zs = proc_holds s h ys zs"
  by (simp add: proc_holds_def)

text \<open>The update of the table between the reply and its sending back.\<close>

lemma update_route_back:
  assumes "handed s h ys zs a m" "m_next c = 0" "m_uid c = uid" "channel_to inst uid c = ch"
  shows "um_update inst a (pr_um s, hset h a c) = Inr (0, ((fst (pr_um s))(uid \<mapsto> ch), snd (pr_um s)), hset h a c)"
    "\<exists>q h'. route_back a (s\<lparr>pr_um := ((fst (pr_um s))(uid \<mapsto> ch), snd (pr_um s))\<rparr>, hset h a c) =
      Inr (s\<lparr>pr_um := ((fst (pr_um s))(uid \<mapsto> ch), q)\<rparr>, h') \<and>
    sent_back a ys zs c h (s\<lparr>pr_um := ((fst (pr_um s))(uid \<mapsto> ch), q)\<rparr>) h'"
proof -
  let ?s = "s\<lparr>pr_um := ((fst (pr_um s))(uid \<mapsto> ch), snd (pr_um s))\<rparr>"
  have h: "handed ?s h ys zs a m" using assms(1) by (simp add: handed_def proc_holds_table)
  have a: "a \<noteq> 0" using handed_live[OF h] by simp
  then show "um_update inst a (pr_um s, hset h a c) = Inr (0, ((fst (pr_um s))(uid \<mapsto> ch), snd (pr_um s)), hset h a c)"
    using assms(3,4) by (cases "pr_um s") (auto simp: um_update_def heap_simps reg_set_def channel_to_def)
  show "\<exists>q h'. route_back a (?s, hset h a c) = Inr (s\<lparr>pr_um := ((fst (pr_um s))(uid \<mapsto> ch), q)\<rparr>, h') \<and>
    sent_back a ys zs c h (s\<lparr>pr_um := ((fst (pr_um s))(uid \<mapsto> ch), q)\<rparr>) h'"
    using hset_route_back[OF h assms(2)] by simp
qed

lemma touch_ok:
  assumes "handed s h ys zs (pk_msg pack) m" "stamped m" "admitted 2 (pk_data pack) m" "getTouchPackUid pack = uid" "uid \<noteq> -1"
    "int (length (pc_ser cfg (touch_ack_pack (pi_now i) uid))) < 2147483640"
  shows "\<exists>q h' c. processTouchPack cfg i pack (s, h) =
      Inr (0, s\<lparr>pr_um := ((fst (pr_um s))(uid \<mapsto> channel_to (pc_im_instance cfg) uid m), q)\<rparr>, h') \<and>
    sent_back (pk_msg pack) ys zs c h (s\<lparr>pr_um := ((fst (pr_um s))(uid \<mapsto> channel_to (pc_im_instance cfg) uid m), q)\<rparr>) h' \<and>
    carries (pc_ser cfg (touch_ack_pack (pi_now i) uid)) c \<and> hull c = (hull m)\<lparr>m_uid := uid, m_need_collect := False\<rparr>"
proof -
  let ?a = "pk_msg pack"
  have h: "hget h ?a = Inr m" "msg_wf m" "h_brk h < h_lim h" "m_next m = 0" using assms(1) by (auto simp: handed_def)
  obtain c where c: "reply_in (pc_ser cfg) (touch_ack_pack (pi_now i) uid) uid ?a h = Inr (hset h ?a c)"
    "carries (pc_ser cfg (touch_ack_pack (pi_now i) uid)) c" "hull c = (hull m)\<lparr>m_uid := uid, m_need_collect := False\<rparr>"
    using reply_in_ok[where ser = "pc_ser cfg" and uid = uid, OF h(1,2) assms(6) h(3)] by blast
  have "hull c = hull (m\<lparr>m_uid := uid, m_need_collect := False\<rparr>)" using c(3) by (simp add: hull_def)
  from hull_fields[OF this] have f: "m_next c = 0" "m_uid c = uid" "channel_to inst uid c = channel_to inst uid m" for inst
    using h(4) by (auto simp: channel_to_def)
  note u = update_route_back[OF assms(1) f(1) f(2) f(3)[of "pc_im_instance cfg"]]
  obtain q h' where q: "route_back ?a (s\<lparr>pr_um := ((fst (pr_um s))(uid \<mapsto> channel_to (pc_im_instance cfg) uid m), snd (pr_um s))\<rparr>, hset h ?a c) =
      Inr (s\<lparr>pr_um := ((fst (pr_um s))(uid \<mapsto> channel_to (pc_im_instance cfg) uid m), q)\<rparr>, h')"
    "sent_back ?a ys zs c h (s\<lparr>pr_um := ((fst (pr_um s))(uid \<mapsto> channel_to (pc_im_instance cfg) uid m), q)\<rparr>) h'"
    using u(2) by blast
  have "processTouchPack cfg i pack (s, h) = Inr (0, s\<lparr>pr_um := ((fst (pr_um s))(uid \<mapsto> channel_to (pc_im_instance cfg) uid m), q)\<rparr>, h')"
    using c(1) assms(4,5) u(1) q(1) by (simp add: processTouchPack_def pack_admitted_eq[OF h(1) assms(2)] assms(3) createTouchAckPack_def)
  then show ?thesis using c(2,3) q(2) by blast
qed

lemma hull_reply:
  "hull c = (hull m)\<lparr>m_uid := uid, m_need_collect := False\<rparr> \<Longrightarrow> m_next m = 0 \<Longrightarrow>
   m_next c = 0 \<and> m_uid c = uid \<and> m_io c = m_io m \<and> m_conn c = m_conn m"
  using hull_fields[of c "m\<lparr>m_uid := uid, m_need_collect := False\<rparr>"] by (simp add: hull_def)

text \<open>The acknowledgement of a login.\<close>

abbreviation auth_reply :: "proc_cfg \<Rightarrow> proc_in \<Rightarrow> IMessagePack \<Rightarrow> byte list" where
  "auth_reply cfg i pack \<equiv> pc_ser cfg (auth_pack (pi_now i) (getAuthPackToken pack))"

lemma createAuthPack_eq:
  "createAuthPack ser now uid pack h = bindr (reply_in ser (auth_pack now (getAuthPackToken pack)) uid (pk_msg pack) h) (\<lambda>h. Inr (pk_msg pack, h))"
  by (simp add: createAuthPack_def getAuthPackToken_def Let_def)

lemma relogin_ok:
  assumes "handed s h ys zs (pk_msg pack) m" "stamped m" "admitted 2 (pk_data pack) m" "getAuthPackUid pack = uid" "uid \<noteq> -1"
    "int (length (auth_reply cfg i pack)) < 2147483640"
  shows "\<exists>q h' c. processAuthPack cfg i pack (s, h) = Inr (0, s\<lparr>pr_um := (fst (pr_um s), q)\<rparr>, h') \<and>
    sent_back (pk_msg pack) ys zs c h (s\<lparr>pr_um := (fst (pr_um s), q)\<rparr>) h' \<and>
    carries (auth_reply cfg i pack) c \<and> hull c = (hull m)\<lparr>m_uid := uid, m_need_collect := False\<rparr>"
proof -
  let ?a = "pk_msg pack"
  have h: "hget h ?a = Inr m" "msg_wf m" "h_brk h < h_lim h" "m_next m = 0" using assms(1) by (auto simp: handed_def)
  obtain c where c: "reply_in (pc_ser cfg) (auth_pack (pi_now i) (getAuthPackToken pack)) uid ?a h = Inr (hset h ?a c)"
    "carries (auth_reply cfg i pack) c" "hull c = (hull m)\<lparr>m_uid := uid, m_need_collect := False\<rparr>"
    using reply_in_ok[where ser = "pc_ser cfg" and uid = uid, OF h(1,2) assms(6) h(3)] by blast
  have "m_next c = 0" using hull_reply[OF c(3) h(4)] by simp
  from hset_route_back[OF assms(1) this] obtain q h' where q: "route_back ?a (s, hset h ?a c) = Inr (s\<lparr>pr_um := (fst (pr_um s), q)\<rparr>, h')"
    "sent_back ?a ys zs c h (s\<lparr>pr_um := (fst (pr_um s), q)\<rparr>) h'" by blast
  have "processAuthPack cfg i pack (s, h) = Inr (0, s\<lparr>pr_um := (fst (pr_um s), q)\<rparr>, h')"
    using c(1) q(1) assms(4,5) by (simp add: processAuthPack_def pack_admitted_eq[OF h(1) assms(2)] assms(3) createAuthPack_eq)
  then show ?thesis using c(2,3) q(2) by blast
qed

lemma login_ok:
  assumes "handed s h ys zs (pk_msg pack) m" "stamped m" "admitted 1 (pk_data pack) m" "getAuthPackUid pack = uid" "auth pack = 0"
    "int (length (auth_reply cfg i pack)) < 2147483640" "pc_route_publisher cfg"
  shows "\<exists>q h' c s'. auth_processAuthPack cfg i pack (s, h) = Inr (0, s', h') \<and>
    s' = s\<lparr>pr_um := ((fst (pr_um s))(uid \<mapsto> channel_to (pc_im_instance cfg) uid m), q),
      pr_published := pr_published s @ [(uid, pc_broker_instance cfg)]\<rparr> \<and>
    sent_back (pk_msg pack) ys zs c h s' h' \<and> carries (auth_reply cfg i pack) c \<and>
    hull c = (hull m)\<lparr>m_uid := uid, m_need_collect := False, m_state := Some 2, m_switch_state := Fn_switch_state_app_msg\<rparr>"
proof -
  let ?a = "pk_msg pack" and ?f = "\<lambda>m. m\<lparr>m_state := Some 2, m_switch_state := Fn_switch_state_app_msg\<rparr>"
  have h: "hget h ?a = Inr m" "msg_wf m" "h_brk h < h_lim h" "m_next m = 0" using assms(1) by (auto simp: handed_def)
  have a: "?a \<noteq> 0" using h(1) by (simp add: hget_Inr)
  obtain c where c: "reply_in (pc_ser cfg) (auth_pack (pi_now i) (getAuthPackToken pack)) uid ?a h = Inr (hset h ?a c)"
    "carries (auth_reply cfg i pack) c" "hull c = (hull m)\<lparr>m_uid := uid, m_need_collect := False\<rparr>"
    using reply_in_ok[where ser = "pc_ser cfg" and uid = uid, OF h(1,2) assms(6) h(3)] by blast
  have f: "m_next (?f c) = 0" "m_uid (?f c) = uid" "channel_to inst uid (?f c) = channel_to inst uid m" for inst
    using hull_reply[OF c(3) h(4)] by (auto simp: channel_to_def)
  have pl: "plain ?f" by (simp add: plain_def hull_def)
  note u = update_route_back[OF assms(1) f(1) f(2) f(3)[of "pc_im_instance cfg"]]
  obtain q h' where q: "route_back ?a (s\<lparr>pr_um := ((fst (pr_um s))(uid \<mapsto> channel_to (pc_im_instance cfg) uid m), snd (pr_um s))\<rparr>, hset h ?a (?f c)) =
      Inr (s\<lparr>pr_um := ((fst (pr_um s))(uid \<mapsto> channel_to (pc_im_instance cfg) uid m), q)\<rparr>, h')"
    "sent_back ?a ys zs (?f c) h (s\<lparr>pr_um := ((fst (pr_um s))(uid \<mapsto> channel_to (pc_im_instance cfg) uid m), q)\<rparr>) h'"
    using u(2) by blast
  let ?s = "s\<lparr>pr_um := ((fst (pr_um s))(uid \<mapsto> channel_to (pc_im_instance cfg) uid m), q),
      pr_published := pr_published s @ [(uid, pc_broker_instance cfg)]\<rparr>"
  have "auth_processAuthPack cfg i pack (s, h) = Inr (0, ?s, h')"
    using c(1) assms(4,5,7) a u(1) q(1) by (simp add: auth_processAuthPack_def guardr_def pack_admitted_eq[OF h(1) assms(2)] assms(3)
      createAuthPack_eq hmod_def heap_simps)
  moreover have "sent_back ?a ys zs (?f c) h ?s h'" using q(2) by (simp add: sent_back_def proc_holds_def)
  moreover have "carries (auth_reply cfg i pack) (?f c)" using c(2) plain_carries[OF pl] by simp
  moreover have "hull (?f c) = (hull m)\<lparr>m_uid := uid, m_need_collect := False, m_state := Some 2, m_switch_state := Fn_switch_state_app_msg\<rparr>"
    using c(3) plain_hull[OF pl, of c] by simp
  ultimately show ?thesis by blast
qed

section \<open>Client messages\<close>

definition is_request :: "ImPack \<Rightarrow> bool" where
  "is_request p \<longleftrightarrow> getd IM_REQUEST (im_type (msg_of p)) = IM_REQUEST"

definition with_id :: "byte list \<Rightarrow> ImPack \<Rightarrow> ImPack" where
  "with_id mid p = (if is_request p then mutable_msg (\<lambda>m. m\<lparr>im_msg_id := Some mid\<rparr>) p else p)"

definition ack_of :: "proc_in \<Rightarrow> byte list \<Rightarrow> ImPack \<Rightarrow> ImPack" where
  "ack_of i mid p = msg_ack_pack (pi_now i) mid (getd 0 (im_seq (msg_of p)))"

lemma hset_same: "hget h a = Inr m \<Longrightarrow> hset h a m = h"
  by (cases h) (auto simp: hset_def hget_Inr)

lemma hmod_same: "hget h a = Inr m \<Longrightarrow> hmod h a (\<lambda>m. m) = Inr h"
  by (simp add: hmod_def hset_same)

lemma plain_id: "plain (\<lambda>m. m)"
  by (simp add: plain_def)

lemma refit_plain:
  assumes "hget h a = Inr m" "msg_wf m" "int (length bs) < 2147483640" "h_brk h < h_lim h"
  shows "\<exists>m'. bindr (fixIMessage a (int (length bs)) h) (store_data a bs) = Inr (hset h a m') \<and> carries bs m' \<and> hull m' = hull m"
proof -
  obtain m1 where "fixIMessage a (int (length bs)) h = Inr (hset h a m1)" "a \<noteq> 0"
    using fixIMessage_ok[OF assms(1,2) _ assms(3,4)] assms(1) by (auto simp: hget_Inr)
  moreover from this have "hmod (hset h a m1) a (\<lambda>m. m) = Inr (hset h a m1)"
    using hmod_same[of "hset h a m1" a m1] by (simp add: heap_simps)
  ultimately show ?thesis using refit_ok[OF assms plain_id] by simp
qed

lemma plain_ack: "plain (\<lambda>m. m\<lparr>m_uid := uid, m_io := io, m_conn := conn, m_need_collect := False\<rparr>)"
  by (simp add: plain_def hull_def)

lemma createMsgAckPack_ok:
  assumes "hget h (pk_msg pack) = Inr m" "msg_wf m" "load_data m = Inr bs" "heap_ok h" "h_brk h < h_lim h"
    "\<And>p. int (length (ser p)) < 2147483640"
  shows "\<exists>c k pack'. createMsgAckPack ser (pi_now i) pack uid mid h = Inr (h_brk h, pack', hnew k (hset h (pk_msg pack) c)) \<and>
    pk_msg pack' = pk_msg pack \<and> hull c = hull m \<and> msg_wf c \<and>
    load_data c = Inr (if is_request (pk_data pack) then ser (with_id mid (pk_data pack)) else bs) \<and>
    carries (ser (ack_of i mid (pk_data pack))) k \<and>
    hull k = blank\<lparr>m_uid := uid, m_io := m_io m, m_conn := m_conn m, m_need_collect := False\<rparr>"
proof -
  let ?a = "pk_msg pack" and ?d = "with_id mid (pk_data pack)" and ?r = "ser (ack_of i mid (pk_data pack))"
  have a: "?a \<noteq> 0" "live h ?a" using assms(1) live_iff_hget by (auto simp: hget_Inr)
  have "\<exists>c. (if is_request (pk_data pack) then bindr (fixIMessage ?a (int (length (ser ?d))) h) (store_data ?a (ser ?d)) else Inr h) = Inr (hset h ?a c) \<and>
      hull c = hull m \<and> msg_wf c \<and> load_data c = Inr (if is_request (pk_data pack) then ser ?d else bs)"
  proof (cases "is_request (pk_data pack)")
    case True
    then show ?thesis using refit_plain[OF assms(1,2) assms(6)[of ?d] assms(5)] by (auto simp: carries_def)
  next
    case False
    then show ?thesis using hset_same[OF assms(1)] assms(2,3) by (intro exI[of _ m]) simp
  qed
  then obtain c where c: "(if is_request (pk_data pack) then bindr (fixIMessage ?a (int (length (ser ?d))) h) (store_data ?a (ser ?d)) else Inr h) = Inr (hset h ?a c)"
    "hull c = hull m" "msg_wf c" "load_data c = Inr (if is_request (pk_data pack) then ser ?d else bs)" by blast
  have io: "m_io c = m_io m" "m_conn c = m_conn m" using hull_fields[OF c(2)] by auto
  have "heap_ok (hset h ?a c)" "h_brk (hset h ?a c) < h_lim (hset h ?a c)" using assms(4,5) a(2) by (auto simp: hset_def heap_ok_def live_def)
  from create_ok[OF assms(6)[of "ack_of i mid (pk_data pack)"] this plain_ack[where uid = uid and io = "m_io m" and conn = "m_conn m"]] obtain k where k:
    "bindr (createIMessage_len (int (length ?r)) (hset h ?a c)) (\<lambda>(msg, h).
       bindr (hmod h msg (\<lambda>m'. m'\<lparr>m_uid := uid, m_io := m_io m, m_conn := m_conn m, m_need_collect := False\<rparr>)) (\<lambda>h.
       bindr (store_data msg ?r h) (\<lambda>h. Inr (msg, h)))) = Inr (h_brk (hset h ?a c), hnew k (hset h ?a c))"
    "carries ?r k" "hull k = blank\<lparr>m_uid := uid, m_io := m_io m, m_conn := m_conn m, m_need_collect := False\<rparr>" by blast
  define pack' where "pack' = pack\<lparr>pk_type := (if is_request (pk_data pack) then 1 else 2), pk_data := ?d\<rparr>"
  have "createMsgAckPack ser (pi_now i) pack uid mid h =
      bindr (bindr (createIMessage_len (int (length ?r)) (hset h ?a c)) (\<lambda>(msg, h).
       bindr (hmod h msg (\<lambda>m'. m'\<lparr>m_uid := uid, m_io := m_io m, m_conn := m_conn m, m_need_collect := False\<rparr>)) (\<lambda>h.
       bindr (store_data msg ?r h) (\<lambda>h. Inr (msg, h))))) (\<lambda>(msg, h). Inr (msg, pack', h))"
  proof -
    have "createMsgAckPack ser (pi_now i) pack uid mid h =
      bindr (if is_request (pk_data pack) then bindr (fixIMessage ?a (int (length (ser ?d))) h) (store_data ?a (ser ?d)) else Inr h) (\<lambda>h.
         bindr (hget h ?a) (\<lambda>in_msg.
         bindr (createIMessage_len (int (length ?r)) h) (\<lambda>(msg, h).
         bindr (hmod h msg (\<lambda>m. m\<lparr>m_uid := uid, m_io := m_io in_msg, m_conn := m_conn in_msg, m_need_collect := False\<rparr>)) (\<lambda>h.
         bindr (store_data msg ?r h) (\<lambda>h. Inr (msg, pack', h))))))"
      unfolding createMsgAckPack_def Let_def is_request_def[symmetric] with_id_def[symmetric] ack_of_def[symmetric] pack'_def by simp
    then show ?thesis unfolding c(1) using a(1) io
      by (simp add: heap_simps bindr_assoc) (auto simp: bindr_assoc intro!: arg_cong2[where f = bindr])
  qed
  then show ?thesis using k c(2-4) by (intro exI[of _ c] exI[of _ k] exI[of _ pack']) (simp add: pack'_def hset_def)
qed

lemma servedI:
  assumes "proc_holds s' h' ys' zs'" "keeps (insert a Q) h h'" "h_brk h' \<le> h_brk h + n"
    "set ys' \<union> set zs' \<subseteq> insert a Q \<union> {h_brk h..}"
    "\<And>b. b \<in> insert a Q \<Longrightarrow> b \<notin> set ys' \<union> set zs' \<Longrightarrow> \<not> live h' b"
    "\<And>b. h_brk h \<le> b \<Longrightarrow> b < h_brk h' \<Longrightarrow> b \<notin> set ys' \<union> set zs' \<Longrightarrow> \<not> live h' b"
  shows "served n a Q h (set ys' \<union> set zs') h'"
proof -
  have "live h' b \<longleftrightarrow> b \<in> set ys' \<union> set zs'" if b: "b \<in> insert a Q \<or> h_brk h \<le> b" for b
  proof (cases "b \<in> set ys' \<union> set zs'")
    case True then show ?thesis using proc_holds_live[OF assms(1)] by simp
  next
    case False
    then show ?thesis using b assms(5,6)[of b] live_brk[OF proc_holds_ok[OF assms(1)], of b] by force
  qed
  then show ?thesis using assms(1-4) by (simp add: served_def proc_holds_ok)
qed

definition request_of :: "proc_cfg \<Rightarrow> byte list \<Rightarrow> ImPack \<Rightarrow> byte list \<Rightarrow> MessageRequest" where
  "request_of cfg mid p bs = \<lparr>rq_msh_id = pc_broker_instance cfg, rq_msg_id = mid,
     rq_msg = (if is_request p then pc_ser cfg (with_id mid p) else bs)\<rparr>"

lemma after_dispatch_ok:
  fixes ret :: int
  assumes p: "proc_holds s h ys zs" "live h a" "a \<notin> set ys \<union> set zs"
  defines "zs' \<equiv> if ret \<noteq> 0 \<and> pr_collector s \<noteq> None then zs @ [a] else zs"
  shows "\<exists>s' h'. after_dispatch ret a (s, h) = Inr (s', h') \<and> proc_holds s' h' ys zs' \<and> (live h' a \<longleftrightarrow> a \<in> set zs') \<and>
    keeps (insert a (set zs)) h h' \<and> h_brk h' = h_brk h \<and>
    pr_um s' = pr_um s \<and> pr_sent s' = pr_sent s \<and> pr_service s' = pr_service s \<and> pr_counter s' = pr_counter s \<and> pr_published s' = pr_published s"
proof (cases "ret \<noteq> 0 \<and> pr_collector s \<noteq> None")
  case True
  then obtain c where c: "pr_collector s = Some c" by auto
  then have "bq_holds (c, h) zs" using p(1) by (simp add: proc_holds_def)
  from bq_put_ok[OF this p(2)] p(3) obtain c' h' where h': "bq_put a (c, h) = Inr (c', h')" "bq_holds (c', h') (zs @ [a])"
    "relinked set_next h h'" "\<forall>b. b \<notin> set (zs @ [a]) \<longrightarrow> h_cells h' b = h_cells h b" by auto
  have ok: "heap_ok h'" using h'(2) by (simp add: bq_holds_def)
  have "bq_holds (snd (pr_um s), h') ys" using p(1,3) h'(4) ok
    by (auto simp: proc_holds_def bq_holds_def intro!: seg_frame[of m_next h])
  then have "proc_holds (s\<lparr>pr_collector := Some c'\<rparr>) h' ys zs'" using True h'(2) p(1,3) by (auto simp: proc_holds_def zs'_def)
  moreover have "keeps (insert a (set zs)) h h'" by (rule keeps_relinked[OF h'(3)]) (use h'(4) in auto)
  moreover have "live h' a" "h_brk h' = h_brk h" using relinked_live[OF h'(3)] p(2) h'(3) by (auto simp: relinked_def)
  ultimately show ?thesis using True c h'(1) by (auto simp: after_dispatch_def collector_collect_def zs'_def)
next
  case False
  let ?h = "h\<lparr>h_cells := (h_cells h)(a := None)\<rparr>"
  have e: "after_dispatch ret a (s, h) = Inr (s, ?h)"
    using False hfree_live[OF p(2)] by (auto simp: after_dispatch_def releaseIMessage_def split: option.splits)
  have "proc_holds s ?h ys zs" by (rule proc_holds_frame[OF p(1)]) (use p(3) proc_holds_ok[OF p(1)] in auto)
  then show ?thesis using e False p(3) by (auto simp: zs'_def keeps_def live_def)
qed

text \<open>After the remote call a message waits in the collector if the call ended in an error and there is a collector.\<close>

definition uncalled :: "proc \<Rightarrow> tz_error + ResponseCode \<Rightarrow> addr \<Rightarrow> addr list" where
  "uncalled s res a = (if isl res \<and> pr_collector s \<noteq> None then [a] else [])"

lemma broker_dispatch_ok:
  fixes cfg :: proc_cfg
  assumes "hget h a = Inr m" "m_id m = Some mid" "load_data m = Inr bs" "service_ready (pr_service s) (Suc n)"
  defines "rq \<equiv> \<lparr>rq_msh_id = pc_broker_instance cfg, rq_msg_id = mid, rq_msg = bs\<rparr>"
  shows "\<exists>res es service. broker_dispatch cfg a (s, h) =
      Inr (if isl res then -1 else 0, s\<lparr>pr_service := service, pr_sent := pr_sent s @ replicate (length es) rq\<rparr>) \<and>
    invoke_within_3_attempts (pc_rpc cfg rq) (pr_service s) = Inr (res, es, service) \<and> calls_led_to 3 es res \<and> service_ready service n"
proof -
  obtain res es service where i: "invoke_within_3_attempts (pc_rpc cfg rq) (pr_service s) = Inr (res, es, service)" "calls_led_to 3 es res"
    "service_ready service n" using service_call[OF assms(4)] by blast
  have "(case res of Inl _ \<Rightarrow> -1 | Inr Response_OK \<Rightarrow> 0 | Inr Response_other \<Rightarrow> 0) = (if isl res then -1 else (0 :: int))"
    by (auto split: sum.splits ResponseCode.splits)
  then have "broker_dispatch cfg a (s, h) =
      Inr (if isl res then -1 else 0, s\<lparr>pr_service := service, pr_sent := pr_sent s @ replicate (length es) rq\<rparr>)"
    using assms(1-3) i(1) by (simp add: broker_dispatch_def proxy_dispatch_def rq_def init_of_def)
  then show ?thesis using i by blast
qed

lemma msg_ok:
  assumes a: "handed s h ys zs (pk_msg pack) m" "stamped m" "admitted 2 (pk_data pack) m" "getMsgPackUser pack = uid" "uid \<noteq> -1"
    and t: "im_target_uid (msg_of (pk_data pack)) \<noteq> []" "load_data m = Inr bs" "\<And>p. int (length (pc_ser cfg p)) < 2147483640"
    and r: "service_ready (pr_service s) (Suc n)"
    and g: "genMsgId (pc_host_id cfg) i (pr_counter s) = (mid, ct)"
  defines "rq \<equiv> request_of cfg mid (pk_data pack) bs"
  shows "\<exists>s' h' k res es. processMsgPack cfg i pack (s, h) = Inr (0, s', h') \<and> proc_holds s' h' (ys @ [h_brk h]) (zs @ uncalled s res (pk_msg pack)) \<and>
    invoke_within_3_attempts (pc_rpc cfg rq) (pr_service s) = Inr (res, es, pr_service s') \<and> calls_led_to 3 es res \<and>
    service_ready (pr_service s') n \<and>
    fst (pr_um s') = fst (pr_um s) \<and> pr_sent s' = pr_sent s @ replicate (length es) rq \<and>
    h_cells h' (h_brk h) = Some k \<and> carries (pc_ser cfg (ack_of i mid (pk_data pack))) k \<and>
    hull k = blank\<lparr>m_uid := uid, m_io := m_io m, m_conn := m_conn m, m_need_collect := False\<rparr> \<and>
    served 1 (pk_msg pack) (set ys \<union> set zs) h (set (ys @ [h_brk h]) \<union> set (zs @ uncalled s res (pk_msg pack))) h'"
proof -
  let ?a = "pk_msg pack" and ?b = "h_brk h"
  have h: "hget h ?a = Inr m" "msg_wf m" "h_brk h < h_lim h" "proc_holds s h ys zs" "?a \<notin> set ys \<union> set zs" using a(1) by (auto simp: handed_def)
  have ok: "heap_ok h" using proc_holds_ok[OF h(4)] .
  have al: "live h ?a" "?a \<noteq> 0" "?a < ?b" using handed_live[OF a(1)] by auto
  obtain c k pack' where c: "createMsgAckPack (pc_ser cfg) (pi_now i) pack uid mid h = Inr (?b, pack', hnew k (hset h ?a c))"
    "pk_msg pack' = ?a" "hull c = hull m" "msg_wf c"
    "load_data c = Inr (if is_request (pk_data pack) then pc_ser cfg (with_id mid (pk_data pack)) else bs)"
    "carries (pc_ser cfg (ack_of i mid (pk_data pack))) k"
    "hull k = blank\<lparr>m_uid := uid, m_io := m_io m, m_conn := m_conn m, m_need_collect := False\<rparr>"
    using createMsgAckPack_ok[where ser = "pc_ser cfg" and i = i and uid = uid and mid = mid, OF h(1,2) t(2) ok h(3) t(3)] by blast
  let ?h1 = "hnew k (hset h ?a c)" and ?s1 = "s\<lparr>pr_counter := ct\<rparr>"
  have b: "?b \<notin> set ys \<union> set zs" using live_brk[OF ok, of ?b] proc_holds_live[OF h(4)] by auto
  have ok1: "heap_ok ?h1" using ok al(1) by simp
  have brk1: "h_brk (hset h ?a c) = ?b" "h_brk ?h1 = Suc ?b" by (simp_all add: hset_def)
  have "proc_holds s ?h1 ys zs"
    by (rule proc_holds_frame[OF h(4) ok1]) (use b h(5) in \<open>auto simp: brk1\<close>)
  then have p1: "proc_holds ?s1 ?h1 ys zs" by (simp add: proc_holds_def)
  have k: "hget ?h1 ?b = Inr k" using hget_hnew[of "hset h ?a c" k ?b] ok al(1) by (simp add: brk1)
  have kn: "m_next k = 0" using hull_fields[of k "blank\<lparr>m_uid := uid, m_io := m_io m, m_conn := m_conn m, m_need_collect := False\<rparr>"] c(7)
    by (simp add: blank_def hull_def new_IMessage_def)
  from route_back_ok[OF p1 k kn b] obtain q h2 where h2: "route_back ?b (?s1, ?h1) = Inr (?s1\<lparr>pr_um := (fst (pr_um s), q)\<rparr>, h2)"
    "sent_back ?b ys zs k ?h1 (?s1\<lparr>pr_um := (fst (pr_um s), q)\<rparr>) h2" by auto
  let ?s2 = "?s1\<lparr>pr_um := (fst (pr_um s), q)\<rparr>" and ?c = "c\<lparr>m_uid := uid, m_id := Some mid\<rparr>"
  have ca: "h_cells h2 ?a = Some c" using h2(2) al(3) h(5) by (auto simp: sent_back_def keeps_def brk1)
  then have l2: "live h2 ?a" using al(2) by (simp add: live_def)
  let ?h3 = "hset h2 ?a ?c"
  have ab: "?a \<notin> set (ys @ [?b]) \<union> set zs" using h(5) al(3) by auto
  have "proc_holds ?s2 ?h3 (ys @ [?b]) zs"
    by (rule proc_holds_hset[OF _ l2 ab]) (use h2(2) in \<open>simp add: sent_back_def\<close>)
  then have p2: "proc_holds (?s2\<lparr>pr_service := v, pr_sent := w\<rparr>) ?h3 (ys @ [?b]) zs" for v w by (simp add: proc_holds_def)
  have "load_data ?c = load_data c" by (simp add: load_data_def)
  then have "hget ?h3 ?a = Inr ?c" "load_data ?c = Inr (rq_msg rq)" "service_ready (pr_service ?s2) (Suc n)"
    using al(2) r c(5) by (simp_all add: heap_simps rq_def request_of_def)
  from broker_dispatch_ok[OF this(1) _ this(2,3), of mid cfg] obtain res es service where d:
    "broker_dispatch cfg ?a (?s2, ?h3) = Inr (if isl res then -1 else 0, ?s2\<lparr>pr_service := service, pr_sent := pr_sent s @ replicate (length es) rq\<rparr>)"
    "invoke_within_3_attempts (pc_rpc cfg rq) (pr_service s) = Inr (res, es, service)" "calls_led_to 3 es res" "service_ready service n"
    by (auto simp: rq_def request_of_def)
  let ?s3 = "?s2\<lparr>pr_service := service, pr_sent := pr_sent s @ replicate (length es) rq\<rparr>" and ?ret = "if isl res then -1 else (0 :: int)"
  define zs' where "zs' = zs @ uncalled s res ?a"
  have z: "zs' = (if ?ret \<noteq> 0 \<and> pr_collector ?s3 \<noteq> None then zs @ [?a] else zs)" by (simp add: zs'_def uncalled_def)
  have "live ?h3 ?a" using al(2) by (simp add: live_def)
  from after_dispatch_ok[OF p2[where v = service and w = "pr_sent s @ replicate (length es) rq"] this ab, of ?ret] obtain s' h' where
    f: "after_dispatch ?ret ?a (?s3, ?h3) = Inr (s', h')"
    "proc_holds s' h' (ys @ [?b]) zs'" "live h' ?a \<longleftrightarrow> ?a \<in> set zs'" "keeps (insert ?a (set zs)) ?h3 h'" "h_brk h' = h_brk ?h3"
    "pr_um s' = pr_um ?s3" "pr_sent s' = pr_sent ?s3" "pr_service s' = pr_service ?s3" unfolding z[symmetric] by blast
  have zz: "set zs' \<subseteq> insert ?a (set zs)" "set zs \<subseteq> set zs'" by (auto simp: zs'_def uncalled_def)
  have "processMsgPack cfg i pack (s, h) = Inr (0, s', h')"
    using a(4,5) t(1) g c(1,2) h2(1) ca al(2) d(1) f(1)
    by (simp add: processMsgPack_def pack_admitted_eq[OF h(1) a(2)] a(3) getMsgPackTargetUserCount_def hmod_def hget_def)
  moreover have "h_cells h' ?b = Some k"
    using f(4) h2(2) al(3) b by (auto simp: keeps_def sent_back_def brk1 hset_def)
  moreover have "served 1 ?a (set ys \<union> set zs) h (set (ys @ [?b]) \<union> set zs') h'"
  proof (rule servedI[OF f(2)])
    show "keeps (insert ?a (set ys \<union> set zs)) h h'"
      using f(4) h2(2) by (auto simp: keeps_def sent_back_def brk1 hset_def)
    show br: "h_brk h' \<le> h_brk h + 1" using f(5) h2(2) by (simp add: sent_back_def hset_def)
    show "set (ys @ [?b]) \<union> set zs' \<subseteq> insert ?a (set ys \<union> set zs) \<union> {?b..}" using zz by auto
    show "\<not> live h' x" if "x \<in> insert ?a (set ys \<union> set zs)" "x \<notin> set (ys @ [?b]) \<union> set zs'" for x
      using that f(3) zz by auto
    show "\<not> live h' x" if "?b \<le> x" "x < h_brk h'" "x \<notin> set (ys @ [?b]) \<union> set zs'" for x using that br by auto
  qed
  ultimately show ?thesis using f(2,6-8) c(6,7) d(2-4) unfolding zs'_def
    by (intro exI[of _ s'] exI[of _ h'] exI[of _ k] exI[of _ res] exI[of _ es]) simp
qed

section \<open>The frame of the processors\<close>

definition app_accepts :: "IMessage \<Rightarrow> bool" where
  "app_accepts m \<longleftrightarrow> msg_wf m \<and> stamped m \<and> (\<exists>bs. load_data m = Inr bs)"

text \<open>A handler refuses the pack and changes nothing, or serves the message. Only the handler of client messages needs room,
  in the pools of the remote service.\<close>

definition proc_room :: "proc \<Rightarrow> nat \<Rightarrow> bool" where
  "proc_room s n \<longleftrightarrow> service_ready (pr_service s) n"

definition any_room :: "proc \<Rightarrow> nat \<Rightarrow> bool" where
  "any_room s n \<longleftrightarrow> True"

lemma room_less: "proc_room s (Suc n) \<Longrightarrow> proc_room (s\<lparr>pr_um := u\<rparr>) n" "any_room s n"
  using service_ready_mono[of "pr_service s" "Suc n" n] by (simp_all add: proc_room_def any_room_def)

definition handles :: "(proc \<Rightarrow> nat \<Rightarrow> bool) \<Rightarrow> (IMessagePack \<Rightarrow> proc \<times> mheap \<Rightarrow> (int \<times> proc \<times> mheap) res) \<Rightarrow> bool" where
  "handles room f \<longleftrightarrow> (\<forall>pack s h ys zs m n. handed s h ys zs (pk_msg pack) m \<longrightarrow> app_accepts m \<longrightarrow> room s (Suc n) \<longrightarrow>
     f pack (s, h) = Inr (-1, s, h) \<or>
     (\<exists>s' h' ys' zs'. f pack (s, h) = Inr (0, s', h') \<and> proc_holds s' h' ys' zs' \<and> room s' n \<and>
       served 1 (pk_msg pack) (set ys \<union> set zs) h (set ys' \<union> set zs') h'))"

definition begun :: "proc_in \<Rightarrow> IMessage \<Rightarrow> IMessage" where
  "begun i m = m\<lparr>m_process_begin_time := Some (pi_begin i)\<rparr>"

lemma plain_begun: "plain (begun i)"
  by (simp add: plain_def begun_def hull_def)

lemma begun_simps [simp]:
  "stamped (begun i m) = stamped m" "m_next (begun i m) = m_next m" "m_io (begun i m) = m_io m" "m_conn (begun i m) = m_conn m"
  "admitted st p (begun i m) = admitted st p m" "m_state (begun i m) = m_state m" "app_accepts (begun i m) = app_accepts m"
  "load_data (begun i m) = load_data m" "msg_wf (begun i m) = msg_wf m"
  using plain_wf[OF plain_begun] plain_load[OF plain_begun]
  by (auto simp: begun_def stamped_def admitted_def app_accepts_def)

lemma handed_begun: "handed s h ys zs a m \<Longrightarrow> handed s (hset h a (begun i m)) ys zs a (begun i m)"
  using handed_live[of s h ys zs a m] proc_holds_hset[of s h ys zs a "begun i m"] hget_hset[of h a "begun i m" a]
  by (auto simp: handed_def)

definition pack_in :: "(byte list \<Rightarrow> ImPack option) \<Rightarrow> byte list \<Rightarrow> ImPack option" where
  "pack_in rd bs = (case rd bs of None \<Rightarrow> None | Some p \<Rightarrow> if p_type p \<noteq> None \<and> p_content p \<noteq> None then Some p else None)"

lemma parse_eq:
  "hget h a = Inr m \<Longrightarrow> load_data m = Inr bs \<Longrightarrow> parse rd junk a h = Inr (map_option (createIMessagePack junk a) (pack_in rd bs))"
  by (auto simp: parse_def pack_in_def split: option.splits)

lemma served_hset:
  "served n a Q (hset h a c) Q' h' \<Longrightarrow> served n a Q h Q' h'"
  by (auto simp: served_def keeps_def hset_def)

lemma process_with_error:
  assumes "handed s h ys zs a m"
  shows "\<exists>q h'. bindr (processErrorPack i a (s, hset h a (begun i m))) (\<lambda>(s, h). Inr (-1 :: int, s, h)) =
      Inr (-1, s\<lparr>pr_um := (fst (pr_um s), q)\<rparr>, h') \<and>
    sent_back a ys zs (error_mark i (begun i m)) h (s\<lparr>pr_um := (fst (pr_um s), q)\<rparr>) h'"
proof -
  have h: "proc_holds s (hset h a (begun i m)) ys zs" "hget (hset h a (begun i m)) a = Inr (begun i m)" "m_next (begun i m) = 0"
    "a \<notin> set ys \<union> set zs" using handed_begun[OF assms, of i] by (auto simp: handed_def)
  from processErrorPack_ok[OF h, of i] show ?thesis using sent_back_hset by fastforce
qed

lemma process_with_law:
  assumes f: "handles room f" and h: "handed s h ys zs a m" "app_accepts m" and n: "room s (Suc n)"
    and less: "\<And>s u. room s (Suc n) \<Longrightarrow> room (s\<lparr>pr_um := u\<rparr>) n"
  shows "\<exists>r s' h' ys' zs'. process_with f cfg i a (s, h) = Inr (r, s', h') \<and> proc_holds s' h' ys' zs' \<and> room s' n \<and>
    served 1 a (set ys \<union> set zs) h (set ys' \<union> set zs') h'"
proof -
  let ?h = "hset h a (begun i m)"
  obtain bs where bs: "load_data m = Inr bs" using h(2) by (auto simp: app_accepts_def)
  have g: "hget h a = Inr m" "proc_holds s h ys zs" "live h a" using h(1) handed_live by (auto simp: handed_def)
  have g': "hget ?h a = Inr (begun i m)" "load_data (begun i m) = Inr bs" using handed_begun[OF h(1)] bs by (auto simp: handed_def)
  have st: "process_with f cfg i a (s, h) = (case pack_in (pc_dec cfg) bs of
       None \<Rightarrow> bindr (processErrorPack i a (s, ?h)) (\<lambda>(s, h). Inr (-1, s, h))
     | Some p \<Rightarrow> bindr (f (createIMessagePack (pi_junk i) a p) (s, ?h)) (\<lambda>(ret, s, h).
         if ret = 0 then Inr (0, s, h) else bindr (processErrorPack i a (s, h)) (\<lambda>(s, h). Inr (-1, s, h))))"
    using g(1) parse_eq[OF g'] by (auto simp: process_with_def hmod_def begun_def split: option.splits)
  obtain q h1 where e: "bindr (processErrorPack i a (s, ?h)) (\<lambda>(s, h). Inr (-1 :: int, s, h)) = Inr (-1, s\<lparr>pr_um := (fst (pr_um s), q)\<rparr>, h1)"
    "sent_back a ys zs (error_mark i (begun i m)) h (s\<lparr>pr_um := (fst (pr_um s), q)\<rparr>) h1"
    using process_with_error[OF h(1)] by blast
  have err: "\<exists>s' h' ys' zs'. bindr (processErrorPack i a (s, ?h)) (\<lambda>(s, h). Inr (-1 :: int, s, h)) = Inr (-1, s', h') \<and>
    proc_holds s' h' ys' zs' \<and> room s' n \<and> served 1 a (set ys \<union> set zs) h (set ys' \<union> set zs') h'"
    using e less[OF n] sent_back_served[OF e(2) g(2,3), of 1]
    by (intro exI[of _ "s\<lparr>pr_um := (fst (pr_um s), q)\<rparr>"] exI[of _ h1] exI[of _ "ys @ [a]"] exI[of _ zs]) (simp add: sent_back_def)
  show ?thesis
  proof (cases "pack_in (pc_dec cfg) bs")
    case None then show ?thesis unfolding st using err by fastforce
  next
    case (Some p)
    let ?p = "createIMessagePack (pi_junk i) a p"
    have "handed s ?h ys zs (pk_msg ?p) (begun i m)" "app_accepts (begun i m)"
      using handed_begun[OF h(1)] h(2) by (simp_all add: createIMessagePack_def)
    with f n consider "f ?p (s, ?h) = Inr (-1, s, ?h)" | s' h' ys' zs' where "f ?p (s, ?h) = Inr (0, s', h')" "proc_holds s' h' ys' zs'" "room s' n"
      "served 1 (pk_msg ?p) (set ys \<union> set zs) ?h (set ys' \<union> set zs') h'" unfolding handles_def by meson
    then show ?thesis
    proof cases
      case 1 then show ?thesis unfolding st using err Some by fastforce
    next
      case 2 then show ?thesis unfolding st using Some served_hset by (fastforce simp: createIMessagePack_def)
    qed
  qed
qed

definition pack_limit :: "proc_cfg \<Rightarrow> bool" where
  "pack_limit cfg \<longleftrightarrow> (\<forall>p. int (length (pc_ser cfg p)) < 2147483640)"

lemma serves_from_sent:
  "handed s h ys zs a m \<Longrightarrow> sent_back a ys zs c h s' h' \<Longrightarrow>
   \<exists>ys' zs'. proc_holds s' h' ys' zs' \<and> served 1 a (set ys \<union> set zs) h (set ys' \<union> set zs') h'"
  using sent_back_served[of a ys zs c h s' h' s 1] handed_live[of s h ys zs a m]
  by (intro exI[of _ "ys @ [a]"] exI[of _ zs]) (simp add: sent_back_def handed_def)

lemma app_serves:
  assumes "pack_limit cfg"
  shows "handles proc_room (app_handler_of cfg i)"
  unfolding handles_def
proof (intro allI impI)
  fix pack :: IMessagePack and s h ys zs m n
  let ?a = "pk_msg pack"
  let ?G = "\<lambda>r. r = Inr (-1, s, h) \<or> (\<exists>s' h' ys' zs'. r = Inr (0 :: int, s', h') \<and> proc_holds s' h' ys' zs' \<and> proc_room s' n \<and>
       served 1 ?a (set ys \<union> set zs) h (set ys' \<union> set zs') h')"
  assume h: "handed s h ys zs ?a m" and ac: "app_accepts m" and n: "proc_room s (Suc n)"
  then obtain bs where bs: "load_data m = Inr bs" and st: "stamped m" by (auto simp: app_accepts_def)
  have g: "hget h ?a = Inr m" using h by (simp add: handed_def)
  note lim = assms[unfolded pack_limit_def, rule_format]
  have 1: "?G (processTouchPack cfg i pack (s, h))"
  proof (cases "admitted 2 (pk_data pack) m \<and> getTouchPackUid pack \<noteq> -1")
    case True
    then show ?thesis using touch_ok[OF h st _ refl _ lim] serves_from_sent[OF h] room_less(1)[OF n] by fast
  qed (auto simp: processTouchPack_def pack_admitted_eq[OF g st])
  have 2: "?G (processAuthPack cfg i pack (s, h))"
  proof (cases "admitted 2 (pk_data pack) m \<and> getAuthPackUid pack \<noteq> -1")
    case True
    then show ?thesis using relogin_ok[OF h st _ refl _ lim] serves_from_sent[OF h] room_less(1)[OF n] by fast
  qed (auto simp: processAuthPack_def pack_admitted_eq[OF g st])
  have 3: "?G (processMsgPack cfg i pack (s, h))"
  proof (cases "admitted 2 (pk_data pack) m \<and> getMsgPackUser pack \<noteq> -1 \<and> im_target_uid (msg_of (pk_data pack)) \<noteq> []")
    case True
    obtain mid ct where gen: "genMsgId (pc_host_id cfg) i (pr_counter s) = (mid, ct)" by (cases "genMsgId (pc_host_id cfg) i (pr_counter s)")
    show ?thesis using msg_ok[OF h st _ refl _ _ bs lim n[unfolded proc_room_def] gen] True unfolding proc_room_def by fast
  qed (auto simp: processMsgPack_def pack_admitted_eq[OF g st] getMsgPackTargetUserCount_def)
  show "?G (app_handler_of cfg i pack (s, h))"
    using 1 2 3 by (cases "getMessagePackType pack") (simp_all add: app_handler_of_def)
qed

lemma auth_serves:
  assumes "pack_limit cfg" "pc_route_publisher cfg"
  shows "handles any_room (\<lambda>pack st. case getMessagePackType pack of AUTH \<Rightarrow> auth_processAuthPack cfg i pack st | _ \<Rightarrow> Inr (-1, st))"
  unfolding handles_def
proof (intro allI impI)
  fix pack :: IMessagePack and s h ys zs m n
  let ?a = "pk_msg pack"
  let ?G = "\<lambda>r. r = Inr (-1, s, h) \<or> (\<exists>s' h' ys' zs'. r = Inr (0 :: int, s', h') \<and> proc_holds s' h' ys' zs' \<and> any_room s' n \<and>
       served 1 ?a (set ys \<union> set zs) h (set ys' \<union> set zs') h')"
  assume h: "handed s h ys zs ?a m" and ac: "app_accepts m" and n: "any_room s (Suc n)"
  then have st: "stamped m" by (auto simp: app_accepts_def)
  have g: "hget h ?a = Inr m" using h by (simp add: handed_def)
  note lim = assms(1)[unfolded pack_limit_def, rule_format]
  have "?G (auth_processAuthPack cfg i pack (s, h))"
  proof (cases "admitted 1 (pk_data pack) m \<and> auth pack = 0")
    case True
    then show ?thesis using login_ok[OF h st _ refl _ lim assms(2)] serves_from_sent[OF h] room_less(2) by fast
  qed (auto simp: auth_processAuthPack_def pack_admitted_eq[OF g st])
  then show "?G (case getMessagePackType pack of AUTH \<Rightarrow> auth_processAuthPack cfg i pack (s, h) | _ \<Rightarrow> Inr (-1, s, h))"
    by (cases "getMessagePackType pack") simp_all
qed

end
