(* ===== verification/Delivery.thy ===== *)
theory Delivery
  imports Workers
begin

text \<open>
  What clients and other servers observe of the processors: the fan-out of a message to its targets, the replies to
  heartbeats and logins, the path of a message to the broker, the choice the dispatcher makes, and that the workers
  empty their queues without losing a message.
\<close>

section \<open>Fan-out\<close>

definition addressed :: "int \<Rightarrow> int \<Rightarrow> MESSAGE_SOURCE \<Rightarrow> IMessage \<Rightarrow> bool" where
  "addressed uid type from k \<longleftrightarrow> m_uid k = uid \<and> m_need_collect k \<and> m_type k = word_of_int type \<and>
     m_from k = Some (source_bits from) \<and> m_to k = Some (source_bits APP)"

lemma addressed_set_next [simp]: "addressed uid type from (set_next v k) = addressed uid type from k"
  by (simp add: addressed_def set_next_def)

lemma carries_set_next [simp]: "carries bs (set_next v k) = carries bs k"
  by (rule plain_carries) (simp add: plain_def set_next_def hull_def)

lemma plain_address: "plain (address_to uid type from to)"
  by (simp add: plain_def address_to_def hull_def)

lemma addressed_hull: "hull k = address_to uid type from APP (hull m) \<Longrightarrow> addressed uid type from k \<and> m_next k = m_next m \<and> m_io k = m_io m"
  by (cases k; cases m) (auto simp: hull_def address_to_def addressed_def)

lemma fan_one_ok:
  assumes "heap_ok h" "h_brk h < h_lim h" "int (length (ser (to_target uid data))) < 2147483640"
  shows "\<exists>k. fan_one ser data type from uid h = Inr (h_brk h, hnew k h) \<and> carries (ser (to_target uid data)) k \<and>
    addressed uid type from k \<and> m_next k = 0"
proof -
  from create_ok[OF assms(3,1,2) plain_address, of uid type "from" APP] obtain k where
    k: "fan_one ser data type from uid h = Inr (h_brk h, hnew k h)" "carries (ser (to_target uid data)) k"
      "hull k = address_to uid type from APP blank" by (auto simp: fan_one_def Let_def)
  have "hull k = address_to uid type from APP (hull (new_IMessage [] 0 0 0))" using k(3) by (simp add: blank_def)
  from addressed_hull[OF this] k(1,2) show ?thesis by (auto simp: new_IMessage_def)
qed

lemma fan_loop_ok:
  assumes "heap_ok h" "hget h prev = Inr m" "m_next m = 0" "h_brk h + length uids \<le> h_lim h"
    "\<And>p. int (length (ser p)) < 2147483640"
  shows "\<exists>h' v. fan_loop ser data type from uids prev h = Inr h' \<and> heap_ok h' \<and> h_brk h' = h_brk h + length uids \<and>
    keeps {prev} h h' \<and> h_cells h' prev = Some (set_next v m) \<and>
    mpath h' prev (prev # [h_brk h..<h_brk h + length uids]) 0 \<and>
    list_all2 (\<lambda>uid a. \<exists>k. h_cells h' a = Some k \<and> carries (ser (to_target uid data)) k \<and> addressed uid type from k)
      uids [h_brk h..<h_brk h + length uids]"
  using assms
proof (induction uids arbitrary: prev h m)
  case Nil
  then show ?case by (auto simp: keeps_def hget_Inr intro!: exI[of _ 0])
next
  case (Cons uid uids)
  let ?b = "h_brk h"
  have p: "prev \<noteq> 0" "prev < ?b" using Cons.prems(1,2) live_lt_brk[of h prev] live_iff_hget[of h prev] by (auto simp: hget_Inr)
  obtain k where k: "fan_one ser data type from uid h = Inr (?b, hnew k h)" "carries (ser (to_target uid data)) k"
    "addressed uid type from k" "m_next k = 0"
    using fan_one_ok[OF Cons.prems(1) _ Cons.prems(5)] Cons.prems(4) by fastforce
  let ?h = "hset (hnew k h) prev (set_next ?b m)"
  have g: "hget (hnew k h) prev = Inr m" "hget ?h ?b = Inr k" "heap_ok ?h" "h_brk ?h = Suc ?b" "h_lim ?h = h_lim h"
    using Cons.prems(1,2) p by (auto simp: heap_simps hget_Inr hset_def heap_ok_def)
  from Cons.IH[OF g(3,2) k(4) _ Cons.prems(5)] Cons.prems(4) obtain h' v where h':
    "fan_loop ser data type from uids ?b ?h = Inr h'" "heap_ok h'" "h_brk h' = Suc ?b + length uids"
    "keeps {?b} ?h h'" "h_cells h' ?b = Some (set_next v k)" "mpath h' ?b (?b # [Suc ?b..<Suc ?b + length uids]) 0"
    "list_all2 (\<lambda>uid a. \<exists>k. h_cells h' a = Some k \<and> carries (ser (to_target uid data)) k \<and> addressed uid type from k)
      uids [Suc ?b..<Suc ?b + length uids]" unfolding g(4,5) by auto
  have up: "[?b..<?b + length (uid # uids)] = ?b # [Suc ?b..<Suc ?b + length uids]" by (simp add: upt_rec)
  have pr: "h_cells h' prev = Some (set_next ?b m)" using h'(4) p by (auto simp: keeps_def g(4))
  have "keeps {prev} h h'" using h'(4) p by (auto simp: keeps_def hset_def)
  moreover have "mpath h' prev (prev # ?b # [Suc ?b..<Suc ?b + length uids]) 0"
    using pr p h'(6) by (simp only: path.simps) (simp add: set_next_def)
  moreover have "fan_loop ser data type from (uid # uids) prev h = Inr h'" using k(1) g(1) h'(1) by (simp add: hmod_def)
  ultimately show ?case unfolding up using h'(2,3,5,7) k(2,3) pr by (intro exI[of _ h'] exI[of _ ?b]) simp
qed

text \<open>Filled with at most \<open>TARGET_MAX\<close> targets, the array gives them back: the loop over its indices is the loop over the
  targets. One target more and the copy leaves the array.\<close>

lemma local_loop_eq:
  "(\<And>j. j \<in> set js \<Longrightarrow> arr_at arr j = Inr (f j)) \<Longrightarrow>
    local_loop ser data type arr js prev h = fan_loop ser data type BACKEND (map f js) prev h"
  by (induction js arbitrary: prev h) (auto intro!: bindr_cong split: sum.splits)

lemma target_array:
  assumes "length (u # us) \<le> TARGET_MAX"
  obtains arr where "arr_fill 0 (u # us) (replicate TARGET_MAX None) = Inr arr" "arr_at arr 0 = Inr u"
    "\<And>ser data type prev h. local_loop ser data type arr [1..<length (u # us)] prev h = fan_loop ser data type BACKEND us prev h"
proof
  let ?arr = "map Some (u # us) @ replicate (TARGET_MAX - length (u # us)) None"
  show "arr_fill 0 (u # us) (replicate TARGET_MAX None) = Inr ?arr"
    using arr_fill_fits[of 0 "u # us" "replicate TARGET_MAX None"] assms by (simp only: list.map) simp
  show "arr_at ?arr 0 = Inr u" using arr_at_filled[of 0 "u # us"] by simp
  have us: "map ((!) (u # us)) [1..<length (u # us)] = us"
    by (rule nth_equalityI) (simp_all del: upt_Suc)
  have "arr_at ?arr j = Inr ((u # us) ! j)" if "j \<in> set [1..<length (u # us)]" for j
    using that by (intro arr_at_filled) (simp del: upt_Suc)
  from local_loop_eq[OF this, where js = "[1..<length (u # us)]", unfolded us]
  show "local_loop ser data type ?arr [1..<length (u # us)] prev h = fan_loop ser data type BACKEND us prev h" for ser data type prev h .
qed

lemma createLocalMsgPack_overflows:
  "TARGET_MAX < length (im_target_uid (msg_of (pk_data pack))) \<Longrightarrow> createLocalMsgPack ser pack h = Inl Out_of_bounds"
  using arr_fill_overflows[of 0 "replicate TARGET_MAX None" "im_target_uid (msg_of (pk_data pack))"]
  by (auto simp: createLocalMsgPack_def Let_def)

text \<open>The messages for all targets, chained in their order; the first is the message that came in.\<close>

lemma createLocalMsgPack_ok:
  assumes "heap_ok h" "hget h (pk_msg pack) = Inr m" "msg_wf m" "m_next m = 0"
    "im_target_uid (msg_of (pk_data pack)) = uids" "uids \<noteq> []" "length uids \<le> 1024" "h_brk h + length uids \<le> h_lim h"
    "\<And>p. int (length (ser p)) < 2147483640"
  shows "\<exists>h' xs. createLocalMsgPack ser pack h = Inr (pk_msg pack, h') \<and> heap_ok h' \<and> h_brk h' + 1 = h_brk h + length uids \<and>
    keeps {pk_msg pack} h h' \<and> xs = pk_msg pack # [h_brk h..<h_brk h'] \<and> mpath h' (pk_msg pack) xs 0 \<and>
    list_all2 (\<lambda>uid a. \<exists>k. h_cells h' a = Some k \<and> carries (ser (to_target uid (pk_data pack))) k \<and>
      addressed uid (pk_type pack) BACKEND k) uids xs"
proof -
  let ?a = "pk_msg pack"
  obtain u us where u: "uids = u # us" using assms(6) by (cases uids) auto
  obtain arr where arr: "arr_fill 0 (u # us) (replicate TARGET_MAX None) = Inr arr" "arr_at arr 0 = Inr u"
    "\<And>ser data type prev h. local_loop ser data type arr [1..<length (u # us)] prev h = fan_loop ser data type BACKEND us prev h"
    using target_array[of u us] assms(7) u by (auto simp: TARGET_MAX_def)
  have a: "?a \<noteq> 0" "live h ?a" using assms(2) live_iff_hget by (auto simp: hget_Inr)
  have lt: "h_brk h < h_lim h" using assms(8) u by simp
  from refit_ok[OF assms(2,3) assms(9)[of "to_target u (pk_data pack)"] lt plain_address, of u "pk_type pack" BACKEND APP] obtain c where c:
    "bindr (fixIMessage ?a (int (length (ser (to_target u (pk_data pack))))) h) (\<lambda>h.
      bindr (hmod h ?a (address_to u (pk_type pack) BACKEND APP)) (store_data ?a (ser (to_target u (pk_data pack))))) = Inr (hset h ?a c)"
    "carries (ser (to_target u (pk_data pack))) c" "hull c = address_to u (pk_type pack) BACKEND APP (hull m)" by blast
  note ad = addressed_hull[OF c(3)]
  have g: "hget (hset h ?a c) ?a = Inr c" "heap_ok (hset h ?a c)" "h_brk (hset h ?a c) = h_brk h" "h_lim (hset h ?a c) = h_lim h"
    using a assms(1) by (simp_all add: heap_simps)
  from fan_loop_ok[OF g(2,1), of us ser "pk_data pack" "pk_type pack" BACKEND] ad assms(4,8,9) u obtain h' v where h':
    "fan_loop ser (pk_data pack) (pk_type pack) BACKEND us ?a (hset h ?a c) = Inr h'" "heap_ok h'" "h_brk h' = h_brk h + length us"
    "keeps {?a} (hset h ?a c) h'" "h_cells h' ?a = Some (set_next v c)" "mpath h' ?a (?a # [h_brk h..<h_brk h + length us]) 0"
    "list_all2 (\<lambda>uid a. \<exists>k. h_cells h' a = Some k \<and> carries (ser (to_target uid (pk_data pack))) k \<and> addressed uid (pk_type pack) BACKEND k)
      us [h_brk h..<h_brk h + length us]" unfolding g(3,4) by auto
  have "createLocalMsgPack ser pack h = bindr (bindr (fixIMessage ?a (int (length (ser (to_target u (pk_data pack))))) h) (\<lambda>h.
      bindr (hmod h ?a (address_to u (pk_type pack) BACKEND APP)) (store_data ?a (ser (to_target u (pk_data pack))))))
      (\<lambda>h. bindr (fan_loop ser (pk_data pack) (pk_type pack) BACKEND us ?a h) (\<lambda>h. Inr (?a, h)))"
    using assms(5) u arr by (simp add: createLocalMsgPack_def Let_def bindr_assoc del: upt_Suc)
  then have "createLocalMsgPack ser pack h = Inr (?a, h')" unfolding c(1) using h'(1) by simp
  moreover have "keeps {?a} h h'" using h'(4) by (auto simp: keeps_def hset_def)
  ultimately show ?thesis using h'(2,3,5,6,7) c(2) ad u
    by (intro exI[of _ h'] exI[of _ "?a # [h_brk h..<h_brk h']"]) simp
qed

text \<open>What is left after routing: into the collector, or released.\<close>

lemma drop_or_collect_ok:
  assumes p: "proc_holds s h ys zs" "mpath h pd ns 0" "set ns \<inter> (set ys \<union> set zs) = {}"
  defines "zs' \<equiv> if pr_collector s = None then zs else zs @ ns"
  shows "\<exists>s' h'. drop_or_collect pd (s, h) = Inr (s', h') \<and> proc_holds s' h' ys zs' \<and>
    (\<forall>b \<in> set ns. live h' b \<longleftrightarrow> b \<in> set zs') \<and> keeps (set zs \<union> set ns) h h' \<and> h_brk h' = h_brk h \<and>
    (\<forall>b. b \<notin> set zs \<union> set ns \<longrightarrow> h_cells h' b = h_cells h b) \<and> pr_um s' = pr_um s"
proof (cases "ns = []")
  case True
  then have "pd = 0" using p(2) by simp
  then show ?thesis using True p(1) by (auto simp: drop_or_collect_def zs'_def keeps_def)
next
  case False
  then have pd: "pd \<noteq> 0" using p(2) path_null[of m_next h] by metis
  show ?thesis
  proof (cases "pr_collector s")
    case None
    have zs: "zs = []" using p(1) None by (simp add: proc_holds_def)
    obtain h' where h': "nodes_of m_next h (h_brk h) pd = Inr ns" "release_all ns h = Inr h'"
      "\<And>a. h_cells h' a = (if a \<in> set ns then None else h_cells h a)" "heap_ok h'"
      using pending_collect_release[OF proc_holds_ok[OF p(1)] p(2)] by metis
    have b: "h_brk h' = h_brk h" "h_lim h' = h_lim h"
      using release_all_ok[of ns h] path_distinct[OF p(2)] path_live[OF p(2)] h'(2) by auto
    have "proc_holds s h' ys zs" by (rule proc_holds_frame[OF p(1) h'(4)]) (use p(3) h'(3) in auto)
    then show ?thesis using None h' b pd p(3) zs by (auto simp: drop_or_collect_def zs'_def keeps_def live_def)
  next
    case (Some c)
    then have "bq_holds (c, h) zs" using p(1) by (simp add: proc_holds_def)
    from bq_putList_ok[OF this p(2) False] p(3) obtain c' h' where h': "bq_putList pd (c, h) = Inr (c', h')"
      "bq_holds (c', h') (zs @ ns)" "relinked set_next h h'" "\<forall>a. a \<notin> set zs \<longrightarrow> h_cells h' a = h_cells h a" by auto
    have ok: "heap_ok h'" using h'(2) by (simp add: bq_holds_def)
    have "bq_holds (snd (pr_um s), h') ys" using p(1,3) h'(4) ok
      by (auto simp: proc_holds_def bq_holds_def intro!: seg_frame[of m_next h])
    then have "proc_holds (s\<lparr>pr_collector := Some c'\<rparr>) h' ys (zs @ ns)" using h'(2) p(1,3) by (auto simp: proc_holds_def)
    moreover have "keeps (set zs \<union> set ns) h h'" by (rule keeps_relinked[OF h'(3)]) (use h'(4) in auto)
    moreover have "h_brk h' = h_brk h" "\<forall>b \<in> set ns. live h' b"
      using h'(3) relinked_live[OF h'(3)] path_live[OF p(2)] by (auto simp: relinked_def)
    ultimately show ?thesis using Some h'(1,3,4) pd by (auto simp: drop_or_collect_def zs'_def collector_collectList_def)
  qed
qed

text \<open>The split of the fan-out by registered users.\<close>

definition uid_registered :: "register_table \<Rightarrow> int \<Rightarrow> bool" where
  "uid_registered t u \<longleftrightarrow> (case t u of None \<Rightarrow> False | Some c \<Rightarrow> ch_uid c \<noteq> -1)"

definition targets_in :: "(int \<Rightarrow> bool) \<Rightarrow> int list \<Rightarrow> addr list \<Rightarrow> addr list" where
  "targets_in P uids xs = map snd (filter (\<lambda>(u, x). P u) (zip uids xs))"

lemma filter_targets:
  "list_all2 R uids xs \<Longrightarrow> (\<And>u x. R u x \<Longrightarrow> Q x = P u) \<Longrightarrow> filter Q xs = targets_in P uids xs"
  unfolding targets_in_def by (induction rule: list_all2_induct) auto

lemma targets_in_set: "set (targets_in P uids xs) \<subseteq> set xs"
  by (auto simp: targets_in_def dest: set_zip_rightD)

text \<open>What the message for a registered target looks like when it reaches the queue of the local router.\<close>

definition delivered :: "proc_cfg \<Rightarrow> register_table \<Rightarrow> ImPack \<Rightarrow> mheap \<Rightarrow> int \<Rightarrow> addr \<Rightarrow> bool" where
  "delivered cfg t p h u x \<longleftrightarrow> (\<exists>k c. h_cells h x = Some k \<and> carries (pc_ser cfg (to_target u p)) k \<and> m_uid k = u \<and>
     t u = Some c \<and> m_io k = ch_io c \<and> m_conn k = ch_conn c)"

lemma plain_routed: "plain (set_next v)" "plain (routed t)"
proof -
  show "plain (set_next v)" by (simp add: plain_def set_next_def hull_def)
  show "plain (routed t)" by (auto simp: plain_def routed_def set_channel_def hull_def split: option.splits)
qed

lemma rerouted_delivered:
  assumes r: "rerouted t A h1 h2" "x \<in> A" and k: "h_cells h1 x = Some k" "carries (pc_ser cfg (to_target u p)) k" "m_uid k = u" and u: "uid_registered t u"
  shows "delivered cfg t p h2 u x"
proof -
  have "map_option (set_next 0) (h_cells h2 x) = Some (set_next 0 (routed t k))" using r k(1) by (simp add: rerouted_def)
  then obtain k2 where k2: "h_cells h2 x = Some k2" "set_next 0 k2 = set_next 0 (routed t k)" by auto
  have "carries (pc_ser cfg (to_target u p)) (set_next 0 k2)" unfolding k2(2) using k(2) plain_carries[OF plain_routed(2)] by simp
  then have "carries (pc_ser cfg (to_target u p)) k2" by simp
  moreover have "m_uid (set_next 0 k2) = m_uid (set_next 0 (routed t k))" "m_io (set_next 0 k2) = m_io (set_next 0 (routed t k))"
    "m_conn (set_next 0 k2) = m_conn (set_next 0 (routed t k))" by (simp_all only: k2(2))
  moreover obtain c where "t u = Some c" "ch_uid c \<noteq> -1" using u by (auto simp: uid_registered_def split: option.splits)
  ultimately show ?thesis using k2(1) k(3) by (auto simp: delivered_def set_next_def routed_def set_channel_def)
qed

lemma broker_msg_ok:
  assumes a: "handed s h ys zs (pk_msg pack) m" "getMsgPackUser pack \<noteq> -1" "h_brk h + 1024 \<le> h_lim h"
    and u: "im_target_uid (msg_of (pk_data pack)) = uids" "uids \<noteq> []" "length uids \<le> 1024" and l: "pack_limit cfg"
  defines "xs \<equiv> pk_msg pack # [h_brk h..<h_brk h + length uids - 1]"
  defines "t \<equiv> fst (pr_um s)"
  defines "rs \<equiv> targets_in (uid_registered t) uids xs" and "ns \<equiv> targets_in (\<lambda>u. \<not> uid_registered t u) uids xs"
  defines "zs' \<equiv> if pr_collector s = None then zs else zs @ ns"
  shows "\<exists>s' h'. broker_processMsgPack cfg i pack (s, h) = Inr (0, s', h') \<and> proc_holds s' h' (ys @ rs) zs' \<and>
    fst (pr_um s') = t \<and> list_all2 (\<lambda>u x. uid_registered t u \<longrightarrow> delivered cfg t (pk_data pack) h' u x) uids xs \<and>
    served 1024 (pk_msg pack) (set ys \<union> set zs) h (set (ys @ rs) \<union> set zs') h'"
proof -
  let ?a = "pk_msg pack"
  have h: "hget h ?a = Inr m" "msg_wf m" "m_next m = 0" "proc_holds s h ys zs" "?a \<notin> set ys \<union> set zs" using a(1) by (auto simp: handed_def)
  have ok: "heap_ok h" using proc_holds_ok[OF h(4)] .
  have al: "?a \<noteq> 0" "?a < h_brk h" using handed_live[OF a(1)] by auto
  have old: "b < h_brk h" if "b \<in> set ys \<union> set zs" for b using live_lt_brk[OF ok proc_holds_live[OF h(4) that]] .
  have room: "h_brk h + length uids \<le> h_lim h" using a(3) u(3) by simp
  have ul: "0 < length uids" using u(2) by simp
  obtain h1 xs' where h1: "createLocalMsgPack (pc_ser cfg) pack h = Inr (?a, h1)" "heap_ok h1" "h_brk h1 + 1 = h_brk h + length uids"
    "keeps {?a} h h1" "xs' = ?a # [h_brk h..<h_brk h1]" "mpath h1 ?a xs' 0"
    "list_all2 (\<lambda>uid a. \<exists>k. h_cells h1 a = Some k \<and> carries (pc_ser cfg (to_target uid (pk_data pack))) k \<and>
      addressed uid (pk_type pack) BACKEND k) uids xs'"
    using createLocalMsgPack_ok[where ser = "pc_ser cfg", OF ok h(1-3) u room] l by (auto simp: pack_limit_def)
  have b1: "h_brk h1 = h_brk h + length uids - 1" using h1(3) by simp
  have xs': "xs' = xs" unfolding h1(5) xs_def b1 ..
  note fan = h1(6,7)[unfolded xs']
  have dis: "set xs \<inter> (set ys \<union> set zs) = {}" using h(5) old by (fastforce simp: xs_def)
  have "h_cells h1 b = h_cells h b" if "b \<in> set ys \<union> set zs" for b
  proof -
    have "b \<noteq> ?a" using that h(5) by auto
    then show ?thesis using h1(4) old[OF that] by (simp add: keeps_def)
  qed
  with h(4) h1(2) have p1: "proc_holds s h1 ys zs" by (rule proc_holds_frame)
  obtain q where q: "pr_um s = (t, q)" by (cases "pr_um s") (auto simp: t_def)
  have r: "filter (\<lambda>x. registered t (imsg_at h1 x)) xs = rs" "filter (\<lambda>x. \<not> registered t (imsg_at h1 x)) xs = ns"
    unfolding rs_def ns_def
    by (rule filter_targets[OF fan(2)]; auto simp: registered_def uid_registered_def addressed_def)+
  have "bq_holds (q, h1) ys" "set ys \<inter> set xs = {}" using p1 dis q by (auto simp: proc_holds_def)
  from um_routeList_ok[OF this(1) fan(1) this(2), of "pi_stack i" t] obtain pd q' h2 where h2:
    "um_routeList (pi_stack i) ?a ((t, q), h1) = Inr (pd, (t, q'), h2)" "bq_holds (q', h2) (ys @ rs)" "mpath h2 pd ns 0"
    "rerouted t (set xs) h1 h2" "\<forall>a. a \<notin> set ys \<union> set xs \<longrightarrow> h_cells h2 a = h_cells h1 a" unfolding r by auto
  have ok2: "heap_ok h2" using h2(2) by (simp add: bq_holds_def)
  let ?s = "s\<lparr>pr_um := (t, q')\<rparr>"
  have rsub: "set rs \<subseteq> set xs" "set ns \<subseteq> set xs" unfolding rs_def ns_def by (rule targets_in_set)+
  have "set rs \<inter> set ns = {}" unfolding r[symmetric] by auto
  have "case pr_collector s of None \<Rightarrow> zs = [] | Some c \<Rightarrow> bq_holds (c, h2) zs"
    using p1 h2(5) dis ok2 by (auto simp: proc_holds_def bq_holds_def intro!: seg_frame[of m_next h1] split: option.splits)
  then have p2: "proc_holds ?s h2 (ys @ rs) zs" using h2(2) h(4) dis rsub by (auto simp: proc_holds_def)
  have "set ns \<inter> (set (ys @ rs) \<union> set zs) = {}" using dis rsub \<open>set rs \<inter> set ns = {}\<close> by auto
  from drop_or_collect_ok[OF p2 h2(3) this] obtain s' h' where h': "drop_or_collect pd (?s, h2) = Inr (s', h')"
    "proc_holds s' h' (ys @ rs) zs'" "\<forall>b \<in> set ns. live h' b \<longleftrightarrow> b \<in> set zs'" "keeps (set zs \<union> set ns) h2 h'" "h_brk h' = h_brk h2"
    "\<forall>b. b \<notin> set zs \<union> set ns \<longrightarrow> h_cells h' b = h_cells h2 b" "pr_um s' = (t, q')" by (auto simp: zs'_def)
  have e: "broker_processMsgPack cfg i pack (s, h) = Inr (0, s', h')"
    using a(2) h1(1) al(1) h2(1) q h'(1) by (simp add: broker_processMsgPack_def)
  have b2: "h_brk h2 = h_brk h1" "h_lim h2 = h_lim h1" using h2(4) by (auto simp: rerouted_def)
  have del: "list_all2 (\<lambda>u x. uid_registered t u \<longrightarrow> delivered cfg t (pk_data pack) h' u x) uids xs"
    unfolding list_all2_conv_all_nth
  proof (intro conjI allI impI)
    show "length uids = length xs" using list_all2_lengthD[OF fan(2)] .
    fix j assume j: "j < length uids" "uid_registered t (uids ! j)"
    let ?x = "xs ! j" and ?u = "uids ! j"
    have x: "?x \<in> set xs" using j list_all2_lengthD[OF fan(2)] by simp
    obtain k where k: "h_cells h1 ?x = Some k" "carries (pc_ser cfg (to_target ?u (pk_data pack))) k" "m_uid k = ?u"
      using list_all2_nthD[OF fan(2) j(1)] by (auto simp: addressed_def)
    have d2: "delivered cfg t (pk_data pack) h2 ?u ?x" by (rule rerouted_delivered[OF h2(4) x k j(2)])
    have "registered t (imsg_at h1 ?x)" using k(1,3) j(2) by (simp add: registered_def uid_registered_def)
    then have "?x \<notin> set ns" unfolding r[symmetric] by simp
    then have "h_cells h' ?x = h_cells h2 ?x" using h'(6) dis x by auto
    then show "delivered cfg t (pk_data pack) h' ?u ?x" using d2 by (simp add: delivered_def)
  qed
  have all: "set rs \<union> set ns = set xs" unfolding r[symmetric] by auto
  have br: "h_brk h' = h_brk h + length uids - 1" using h'(5) b2(1) b1 by simp
  have "served 1024 ?a (set ys \<union> set zs) h (set (ys @ rs) \<union> set zs') h'"
  proof (rule servedI[OF h'(2)])
    show "keeps (insert ?a (set ys \<union> set zs)) h h'"
      unfolding keeps_def
    proof (intro conjI allI impI)
      show "h_lim h' = h_lim h" using h'(4) b2 h1(4) by (simp add: keeps_def)
      show "h_brk h \<le> h_brk h'" using br ul by linarith
      fix b assume b: "b \<notin> insert ?a (set ys \<union> set zs)" "b < h_brk h"
      then have "b \<notin> set xs" by (auto simp: xs_def)
      then show "h_cells h' b = h_cells h b" using b h'(6) h2(5) h1(4) rsub by (auto simp: keeps_def)
    qed
    show "h_brk h' \<le> h_brk h + 1024" using br u(3) by simp
    show "set (ys @ rs) \<union> set zs' \<subseteq> insert ?a (set ys \<union> set zs) \<union> {h_brk h..}"
      using rsub by (auto simp: zs'_def xs_def split: if_splits)
    show "\<not> live h' x" if "x \<in> insert ?a (set ys \<union> set zs)" "x \<notin> set (ys @ rs) \<union> set zs'" for x
    proof -
      have "x = ?a" using that by (auto simp: zs'_def split: if_splits)
      then have "x \<in> set ns" using that(2) all by (auto simp: xs_def)
      then show ?thesis using h'(3) that(2) by auto
    qed
    show "\<not> live h' x" if "h_brk h \<le> x" "x < h_brk h'" "x \<notin> set (ys @ rs) \<union> set zs'" for x
    proof -
      have "x \<in> set xs" using that br by (auto simp: xs_def)
      then have "x \<in> set ns" using that(3) all by auto
      then show ?thesis using h'(3) that(3) by auto
    qed
  qed
  then show ?thesis using e h'(2,7) del by (intro exI[of _ s'] exI[of _ h']) simp
qed

section \<open>The three kinds of workers\<close>

definition broker_accepts :: "proc_cfg \<Rightarrow> IMessage \<Rightarrow> bool" where
  "broker_accepts cfg m \<longleftrightarrow> pack_limit cfg \<and> msg_wf m \<and> (\<exists>bs. load_data m = Inr bs \<and>
     (\<forall>p. pc_dec cfg bs = Some p \<longrightarrow> length (im_target_uid (msg_of p)) \<le> 1024))"

lemma release_served:
  assumes "handed s h ys zs a m"
  shows "\<exists>h'. releaseIMessage a h = Inr h' \<and> proc_holds s h' ys zs \<and> served n a (set ys \<union> set zs) h (set ys \<union> set zs) h'"
proof -
  let ?h = "h\<lparr>h_cells := (h_cells h)(a := None)\<rparr>"
  have l: "live h a" and p: "proc_holds s h ys zs" "a \<notin> set ys \<union> set zs" using handed_live[OF assms] assms by (auto simp: handed_def)
  have "proc_holds s ?h ys zs" by (rule proc_holds_frame[OF p(1)]) (use p(2) proc_holds_ok[OF p(1)] in auto)
  moreover from this have "served n a (set ys \<union> set zs) h (set ys \<union> set zs) ?h"
    by (rule servedI) (auto simp: keeps_def live_def)
  ultimately show ?thesis using hfree_live[OF l] by (auto simp: releaseIMessage_def)
qed

lemma broker_law:
  assumes h: "handed s h ys zs a m" "h_brk h + 1024 \<le> h_lim h" and b: "broker_accepts cfg m"
  shows "\<exists>r s' h' ys' zs'. broker_process cfg i a (s, h) = Inr (r, s', h') \<and> proc_holds s' h' ys' zs' \<and>
    served 1024 a (set ys \<union> set zs) h (set ys' \<union> set zs') h'"
proof -
  obtain bs where bs: "load_data m = Inr bs" "\<And>p. pc_dec cfg bs = Some p \<Longrightarrow> length (im_target_uid (msg_of p)) \<le> 1024"
    and l: "pack_limit cfg" using b by (auto simp: broker_accepts_def)
  have g: "hget h a = Inr m" using h(1) by (simp add: handed_def)
  obtain h1 where rel: "releaseIMessage a h = Inr h1" "proc_holds s h1 ys zs" "served 1024 a (set ys \<union> set zs) h (set ys \<union> set zs) h1"
    using release_served[OF h(1)] by blast
  have st: "broker_process cfg i a (s, h) = (case pack_in (pc_dec cfg) bs of
       None \<Rightarrow> Inr (-1, s, h1)
     | Some p \<Rightarrow> bindr (case getMessagePackType (createIMessagePack (pi_junk i) a p) of
           MSG \<Rightarrow> broker_processMsgPack cfg i (createIMessagePack (pi_junk i) a p) (s, h) | _ \<Rightarrow> Inr (-1, s, h))
         (\<lambda>(ret, s, h). if ret = -1 then bindr (releaseIMessage a h) (\<lambda>h. Inr (ret, s, h)) else Inr (ret, s, h)))"
    using rel(1) by (auto simp: broker_process_def parse_eq[OF g bs(1)] split: option.splits)
  show ?thesis
  proof (cases "pack_in (pc_dec cfg) bs")
    case None then show ?thesis unfolding st using rel(2,3) by auto
  next
    case (Some p)
    let ?p = "createIMessagePack (pi_junk i) a p"
    have pa: "pk_msg ?p = a" "pk_data ?p = p" by (simp_all add: createIMessagePack_def)
    have len: "length (im_target_uid (msg_of p)) \<le> 1024" using Some bs(2) by (auto simp: pack_in_def split: option.splits if_splits)
    consider (no) "(case getMessagePackType ?p of MSG \<Rightarrow> broker_processMsgPack cfg i ?p (s, h) | _ \<Rightarrow> Inr (-1, s, h)) = Inr (-1, s, h)"
      | (yes) "getMessagePackType ?p = MSG" "getMsgPackUser ?p \<noteq> -1" "im_target_uid (msg_of p) \<noteq> []"
    proof (cases "getMessagePackType ?p = MSG \<and> getMsgPackUser ?p \<noteq> -1 \<and> im_target_uid (msg_of p) \<noteq> []")
      case False
      then have "(case getMessagePackType ?p of MSG \<Rightarrow> broker_processMsgPack cfg i ?p (s, h) | _ \<Rightarrow> Inr (-1, s, h)) = Inr (-1, s, h)"
        by (auto simp: broker_processMsgPack_def createLocalMsgPack_def Let_def pa split: IMessagePackType.splits)
      then show ?thesis by (rule no)
    qed (use yes in blast)
    then show ?thesis
    proof cases
      case no then show ?thesis unfolding st using Some rel by auto
    next
      case yes
      have hd: "handed s h ys zs (pk_msg ?p) m" using h(1) by (simp add: pa)
      from broker_msg_ok[OF hd yes(2) h(2) _ _ _ l, of "im_target_uid (msg_of p)" i] yes(3) len show ?thesis
        unfolding st using Some yes(1) by (fastforce simp: pa)
    qed
  qed
qed

lemma handedI:
  "proc_holds s h ys zs \<Longrightarrow> hget h a = Inr m \<Longrightarrow> msg_wf m \<Longrightarrow> m_next m = 0 \<Longrightarrow> a \<notin> set ys \<union> set zs \<Longrightarrow> h_brk h + n \<le> h_lim h \<Longrightarrow>
   0 < n \<Longrightarrow> handed s h ys zs a m"
  by (simp add: handed_def)

lemma owns_laws:
  "proc_owns s h Q \<Longrightarrow> heap_ok h' \<Longrightarrow> (\<And>b. b \<in> Q \<Longrightarrow> h_cells h' b = h_cells h b) \<Longrightarrow> proc_owns s h' Q"
  "proc_owns s h Q \<Longrightarrow> b \<in> Q \<Longrightarrow> live h b"
  unfolding proc_owns_def using proc_holds_frame proc_holds_live by blast+

lemma accepts_next:
  "app_accepts (set_next v m) = app_accepts m" "broker_accepts cfg (set_next v m) = broker_accepts cfg m"
  using plain_wf[OF plain_routed(1)] plain_load[OF plain_routed(1)]
  by (auto simp: app_accepts_def broker_accepts_def stamped_def set_next_def)

interpretation app_worker: worker proc_owns "\<lambda>m. app_accepts m \<and> pack_limit cfg" 1 proc_room "process cfg" pq_waits pq_get for cfg
proof
  show "proc_owns s h' Q" if "proc_owns s h Q" "heap_ok h'" "\<And>b. b \<in> Q \<Longrightarrow> h_cells h' b = h_cells h b" for s h h' Q
    using that by (rule owns_laws(1))
  show "live h b" if "proc_owns s h Q" "b \<in> Q" for s h Q b using that by (rule owns_laws(2))
  show "\<exists>r s' h' Q'. process cfg i a (s, h) = Inr (r, s', h') \<and> proc_owns s' h' Q' \<and> served 1 a Q h Q' h' \<and> proc_room s' n"
    if pre: "proc_owns s h Q" "heap_ok h" "h_brk h + 1 \<le> h_lim h" "hget h a = Inr m" "app_accepts m \<and> pack_limit cfg" "m_next m = 0" "a \<notin> Q" "proc_room s (Suc n)"
    for s h Q a m i n
  proof -
    obtain ys zs where q: "proc_holds s h ys zs" "Q = set ys \<union> set zs" using pre(1) by (auto simp: proc_owns_def)
    have "handed s h ys zs a m" using handedI[OF q(1) pre(4) _ pre(6) _ pre(3)] pre(5,7) q(2) by (simp add: app_accepts_def)
    from process_with_law[where room = proc_room, OF app_serves this _ pre(8) room_less(1)] pre(5) show ?thesis unfolding process_def proc_owns_def q(2) by blast
  qed
qed (simp add: accepts_next)

interpretation auth_worker: worker proc_owns "\<lambda>m. app_accepts m \<and> pack_limit cfg \<and> pc_route_publisher cfg" 1 any_room "auth_process cfg"
  bq_holds "bq_get_count 1" for cfg
proof
  show "proc_owns s h' Q" if "proc_owns s h Q" "heap_ok h'" "\<And>b. b \<in> Q \<Longrightarrow> h_cells h' b = h_cells h b" for s h h' Q
    using that by (rule owns_laws(1))
  show "live h b" if "proc_owns s h Q" "b \<in> Q" for s h Q b using that by (rule owns_laws(2))
  show "\<exists>r s' h' Q'. auth_process cfg i a (s, h) = Inr (r, s', h') \<and> proc_owns s' h' Q' \<and> served 1 a Q h Q' h' \<and> any_room s' n"
    if pre: "proc_owns s h Q" "heap_ok h" "h_brk h + 1 \<le> h_lim h" "hget h a = Inr m" "app_accepts m \<and> pack_limit cfg \<and> pc_route_publisher cfg" "m_next m = 0" "a \<notin> Q" "any_room s (Suc n)"
    for s h Q a m i n
  proof -
    obtain ys zs where q: "proc_holds s h ys zs" "Q = set ys \<union> set zs" using pre(1) by (auto simp: proc_owns_def)
    have "handed s h ys zs a m" using handedI[OF q(1) pre(4) _ pre(6) _ pre(3)] pre(5,7) q(2) by (simp add: app_accepts_def)
    from process_with_law[where room = any_room, OF auth_serves this _ pre(8) room_less(2)] pre(5) show ?thesis unfolding auth_process_def proc_owns_def q(2) by blast
  qed
qed (simp add: accepts_next)

interpretation broker_worker: worker proc_owns "broker_accepts cfg" 1024 any_room "broker_process cfg" bq_holds "bq_get_count 1" for cfg
proof
  show "proc_owns s h' Q" if "proc_owns s h Q" "heap_ok h'" "\<And>b. b \<in> Q \<Longrightarrow> h_cells h' b = h_cells h b" for s h h' Q
    using that by (rule owns_laws(1))
  show "live h b" if "proc_owns s h Q" "b \<in> Q" for s h Q b using that by (rule owns_laws(2))
  show "\<exists>r s' h' Q'. broker_process cfg i a (s, h) = Inr (r, s', h') \<and> proc_owns s' h' Q' \<and> served 1024 a Q h Q' h' \<and> any_room s' n"
    if pre: "proc_owns s h Q" "heap_ok h" "h_brk h + 1024 \<le> h_lim h" "hget h a = Inr m" "broker_accepts cfg m" "m_next m = 0" "a \<notin> Q" "any_room s (Suc n)"
    for s h Q a m i n
  proof -
    obtain ys zs where q: "proc_holds s h ys zs" "Q = set ys \<union> set zs" using pre(1) by (auto simp: proc_owns_def)
    have "handed s h ys zs a m" using handedI[OF q(1) pre(4) _ pre(6) _ pre(3)] pre(5,7) q(2) by (simp add: broker_accepts_def)
    from broker_law[OF this pre(3,5)] room_less(2) show ?thesis unfolding proc_owns_def q(2) by blast
  qed
qed (simp add: accepts_next)

section \<open>Properties\<close>

lemma process_with_pack:
  assumes "handed s h ys zs a m" "load_data m = Inr bs" "pack_in (pc_dec cfg) bs = Some p"
  shows "process_with f cfg i a (s, h) = bindr (f (createIMessagePack (pi_junk i) a p) (s, hset h a (begun i m))) (\<lambda>(ret, s, h).
         if ret = 0 then Inr (0, s, h) else bindr (processErrorPack i a (s, h)) (\<lambda>(s, h). Inr (-1, s, h)))"
proof -
  have g: "hget h a = Inr m" "hget (hset h a (begun i m)) a = Inr (begun i m)" "load_data (begun i m) = Inr bs"
    using assms(1,2) handed_begun[OF assms(1)] by (auto simp: handed_def)
  show ?thesis using g(1) parse_eq[OF g(2,3)] assms(3) by (simp add: process_with_def hmod_def begun_def)
qed

lemma pack_fields [simp]:
  "pk_msg (createIMessagePack junk a p) = a" "pk_data (createIMessagePack junk a p) = p" "pk_type (createIMessagePack junk a p) = junk"
  by (simp_all add: createIMessagePack_def)

text \<open>The packs the processor of client messages acts on.\<close>

definition app_wants :: "ImPack \<Rightarrow> IMessage \<Rightarrow> bool" where
  "app_wants p m \<longleftrightarrow> admitted 2 p m \<and> (case p_type p of
       Some IM_MSG \<Rightarrow> getMsgPackUser (createIMessagePack 0 0 p) \<noteq> -1 \<and> im_target_uid (msg_of p) \<noteq> []
     | Some IM_TOUCH \<Rightarrow> getTouchPackUid (createIMessagePack 0 0 p) \<noteq> -1
     | Some IM_AUTH \<Rightarrow> getAuthPackUid (createIMessagePack 0 0 p) \<noteq> -1
     | _ \<Rightarrow> False)"

lemma pack_uids:
  "getMsgPackUser (createIMessagePack j a p) = getMsgPackUser (createIMessagePack 0 0 p)"
  "getTouchPackUid (createIMessagePack j a p) = getTouchPackUid (createIMessagePack 0 0 p)"
  "getAuthPackUid (createIMessagePack j a p) = getAuthPackUid (createIMessagePack 0 0 p)"
  by (simp_all add: getMsgPackUser_def getTouchPackUid_def getAuthPackUid_def)

lemma app_refuses:
  assumes "handed s h ys zs a m" "stamped m" "\<not> app_wants p m"
  shows "app_handler_of cfg i (createIMessagePack j a p) (s, h) = Inr (-1, s, h)"
proof -
  have g: "hget h (pk_msg (createIMessagePack j a p)) = Inr m" using assms(1) by (simp add: handed_def)
  let ?p = "createIMessagePack j a p"
  have 1: "processMsgPack cfg i ?p (s, h) = Inr (-1, s, h)"
    if "\<not> (admitted 2 p m \<and> getMsgPackUser (createIMessagePack 0 0 p) \<noteq> -1 \<and> im_target_uid (msg_of p) \<noteq> [])"
    using that by (auto simp: processMsgPack_def pack_admitted_eq[OF g assms(2)] pack_uids[of j a p] getMsgPackTargetUserCount_def)
  have 2: "processTouchPack cfg i ?p (s, h) = Inr (-1, s, h)" if "\<not> (admitted 2 p m \<and> getTouchPackUid (createIMessagePack 0 0 p) \<noteq> -1)"
    using that by (auto simp: processTouchPack_def pack_admitted_eq[OF g assms(2)] pack_uids[of j a p])
  have 3: "processAuthPack cfg i ?p (s, h) = Inr (-1, s, h)" if "\<not> (admitted 2 p m \<and> getAuthPackUid (createIMessagePack 0 0 p) \<noteq> -1)"
    using that by (auto simp: processAuthPack_def pack_admitted_eq[OF g assms(2)] pack_uids[of j a p])
  show ?thesis
  proof (cases "p_type p")
    case None then show ?thesis by (simp add: app_handler_of_def getMessagePackType_def getd_def)
  next
    case (Some ty)
    then show ?thesis using assms(3) 1 2 3
      by (cases ty) (simp_all add: app_handler_of_def getMessagePackType_def getd_def app_wants_def del: pack_uids)
  qed
qed

text \<open>An example: a client message, a configuration whose codec gives a fixed pack, and a processor with empty queues.\<close>

definition demo_msg_in :: "int \<Rightarrow> IMessage" where
  "demo_msg_in st = (new_IMessage (map Some (replicate 9 0)) 9 1 9)\<lparr>m_state := Some st, m_gen_time := Some (1420041700, 0),
     m_io := 1, m_conn := 5\<rparr>"

definition demo_in_heap :: "int \<Rightarrow> mheap" where
  "demo_in_heap st = \<lparr>h_cells = [1 \<mapsto> demo_msg_in st], h_brk = 2, h_lim = 5000\<rparr>"

definition demo_cfg :: "ImPack \<Rightarrow> proc_cfg" where
  "demo_cfg p = \<lparr>pc_ser = \<lambda>_. [7], pc_dec = \<lambda>_. Some p, pc_im_instance = 1, pc_broker_instance = 2, pc_host_id = 3,
     pc_rpc = \<lambda>_ _ _. Returns Response_OK, pc_route_publisher = True\<rparr>"

definition demo_proc_in :: proc_in where
  "demo_proc_in = \<lparr>pi_begin = (1, 2), pi_end = (3, 4), pi_now = 1420041701, pi_id_time = 1420041701, pi_counter_time = 1420041701,
     pi_rand1 = 11, pi_rand2 = 12, pi_tid = 13, pi_junk = 0, pi_stack = demo_channel\<rparr>"

definition demo_proc :: proc where
  "demo_proc = \<lparr>pr_um = (Map.empty, bq_new), pr_collector = Some bq_new, pr_counter = Counter_new 0,
     pr_service = demo_service, pr_sent = [], pr_published = []\<rparr>"

definition demo_pack :: "ImPackType \<Rightarrow> ImPackContent \<Rightarrow> ImPack" where
  "demo_pack ty c = \<lparr>p_type = Some ty, p_content = Some c, p_ts = Some 90\<rparr>"

lemma demo_handed: "handed demo_proc (demo_in_heap st) [] [] 1 (demo_msg_in st)"
  by (simp add: handed_def proc_holds_def demo_proc_def demo_in_heap_def heap_ok_def hget_def demo_msg_in_def new_IMessage_def msg_wf_def
    del: map_replicate)

lemma demo_load: "load_data (demo_msg_in st) = Inr [0]"
  by (simp add: load_data_def demo_msg_in_def new_IMessage_def rd_bytes_def those_eq_Some del: map_replicate) (simp add: numeral_eq_Suc)

lemma demo_accepts: "app_accepts (demo_msg_in st)" "stamped (demo_msg_in st)" "msg_wf (demo_msg_in st)"
  using demo_load[of st] by (auto simp: app_accepts_def stamped_def demo_msg_in_def new_IMessage_def msg_wf_def)

lemma demo_admitted: "admitted st (demo_pack ty c) (demo_msg_in st)"
  by (simp add: admitted_def demo_pack_def demo_msg_in_def getd_def TIMESTAMP_20150101000000_def s32_def)

lemma demo_dec: "pack_in (pc_dec (demo_cfg (demo_pack ty c))) bs = Some (demo_pack ty c)"
  by (simp add: pack_in_def demo_cfg_def demo_pack_def)

lemma demo_ser: "pc_ser (demo_cfg p) = (\<lambda>_. [7])" "pack_limit (demo_cfg p)"
  by (simp_all add: demo_cfg_def pack_limit_def)

text \<open>C9: A client message the processor cannot use (unreadable, of another type, too old, from a connection that is not
  logged in, without a user or without targets) is sent back on its connection, marked to close it: exactly this
  message is appended to the queue of the local router, marked not to be collected, to be pushed and to close.\<close>

theorem unusable_message_closes_connection:
  assumes "handed s h ys zs a m" "app_accepts m" "load_data m = Inr bs"
    "\<And>p. pack_in (pc_dec cfg) bs = Some p \<Longrightarrow> \<not> app_wants p m"
  shows "\<exists>q h' k. process cfg i a (s, h) = Inr (-1, s\<lparr>pr_um := (fst (pr_um s), q)\<rparr>, h') \<and>
    sent_back a ys zs k h (s\<lparr>pr_um := (fst (pr_um s), q)\<rparr>) h' \<and>
    m_close_conn k \<and> m_force_push k \<and> \<not> m_need_collect k \<and> m_io k = m_io m \<and> m_conn k = m_conn m"
proof -
  have st: "stamped m" using assms(2) by (simp add: app_accepts_def)
  obtain q h' where e: "bindr (processErrorPack i a (s, hset h a (begun i m))) (\<lambda>(s, h). Inr (-1 :: int, s, h)) =
      Inr (-1, s\<lparr>pr_um := (fst (pr_um s), q)\<rparr>, h')"
    "sent_back a ys zs (error_mark i (begun i m)) h (s\<lparr>pr_um := (fst (pr_um s), q)\<rparr>) h'" using process_with_error[OF assms(1)] by blast
  have "process cfg i a (s, h) = Inr (-1, s\<lparr>pr_um := (fst (pr_um s), q)\<rparr>, h')"
  proof (cases "pack_in (pc_dec cfg) bs")
    case None
    have g: "hget h a = Inr m" "hget (hset h a (begun i m)) a = Inr (begun i m)" "load_data (begun i m) = Inr bs"
      using assms(1,3) handed_begun[OF assms(1)] by (auto simp: handed_def)
    show ?thesis using g(1) parse_eq[OF g(2,3)] None e(1) by (simp add: process_def process_with_def hmod_def begun_def)
  next
    case (Some p)
    have "app_handler_of cfg i (createIMessagePack (pi_junk i) a p) (s, hset h a (begun i m)) = Inr (-1, s, hset h a (begun i m))"
      by (rule app_refuses[OF handed_begun[OF assms(1)]]) (use st assms(4)[OF Some] in \<open>auto simp: app_wants_def\<close>)
    then show ?thesis using e(1) by (simp add: process_def process_with_pack[OF assms(1,3) Some])
  qed
  then show ?thesis using e(2) by (intro exI[of _ q] exI[of _ h'] exI[of _ "error_mark i (begun i m)"]) (simp add: error_mark_def)
qed

theorem unusable_message_closes_connection_witness:
  "\<exists>q h' k. process (demo_cfg (demo_pack IM_MSG_ACK empty_content)) demo_proc_in 1 (demo_proc, demo_in_heap 2) =
      Inr (-1, demo_proc\<lparr>pr_um := (fst (pr_um demo_proc), q)\<rparr>, h') \<and>
    sent_back 1 [] [] k (demo_in_heap 2) (demo_proc\<lparr>pr_um := (fst (pr_um demo_proc), q)\<rparr>) h' \<and>
    m_close_conn k \<and> m_force_push k \<and> \<not> m_need_collect k \<and> m_io k = m_io (demo_msg_in 2) \<and> m_conn k = m_conn (demo_msg_in 2)"
  by (rule unusable_message_closes_connection[OF demo_handed demo_accepts(1) demo_load])
    (simp only: demo_dec option.inject, auto simp: app_wants_def demo_pack_def)

text \<open>C10: A heartbeat from a logged-in connection is acknowledged on that connection, and the user it names is from then on
  registered with that connection, whatever connection the user had and whoever logged in on this one.\<close>

theorem heartbeat_binds_user:
  assumes "handed s h ys zs a m" "app_accepts m" "load_data m = Inr bs" "pack_in (pc_dec cfg) bs = Some p"
    "p_type p = Some IM_TOUCH" "c_touch (content_of p) = Some (Some uid)" "uid \<noteq> -1" "admitted 2 p m"
    "int (length (pc_ser cfg (touch_ack_pack (pi_now i) uid))) < 2147483640"
  shows "\<exists>s' h' k. process cfg i a (s, h) = Inr (0, s', h') \<and> sent_back a ys zs k h s' h' \<and>
    fst (pr_um s') = (fst (pr_um s))(uid \<mapsto> channel_to (pc_im_instance cfg) uid m) \<and>
    carries (pc_ser cfg (touch_ack_pack (pi_now i) uid)) k \<and> m_io k = m_io m \<and> m_conn k = m_conn m \<and> m_close_conn k = m_close_conn m"
proof -
  let ?p = "createIMessagePack (pi_junk i) a p" and ?h = "hset h a (begun i m)"
  have hd: "handed s ?h ys zs (pk_msg ?p) (begun i m)" using handed_begun[OF assms(1)] by simp
  have ty: "getMessagePackType ?p = TOUCH" "getTouchPackUid ?p = uid"
    using assms(5,6) by (simp_all add: getMessagePackType_def getTouchPackUid_def getd_def)
  have "stamped (begun i m)" "admitted 2 (pk_data ?p) (begun i m)" using assms(2,8) by (simp_all add: app_accepts_def)
  from touch_ok[OF hd this ty(2) assms(7,9)] obtain q h' c where c:
    "processTouchPack cfg i ?p (s, ?h) = Inr (0, s\<lparr>pr_um := ((fst (pr_um s))(uid \<mapsto> channel_to (pc_im_instance cfg) uid (begun i m)), q)\<rparr>, h')"
    "sent_back a ys zs c ?h (s\<lparr>pr_um := ((fst (pr_um s))(uid \<mapsto> channel_to (pc_im_instance cfg) uid (begun i m)), q)\<rparr>) h'"
    "carries (pc_ser cfg (touch_ack_pack (pi_now i) uid)) c" "hull c = (hull (begun i m))\<lparr>m_uid := uid, m_need_collect := False\<rparr>" by auto
  have ch: "channel_to inst uid (begun i m) = channel_to inst uid m" for inst by (simp add: channel_to_def)
  have "process cfg i a (s, h) = Inr (0, s\<lparr>pr_um := ((fst (pr_um s))(uid \<mapsto> channel_to (pc_im_instance cfg) uid m), q)\<rparr>, h')"
    using c(1) ty(1) unfolding ch by (simp add: process_def process_with_pack[OF assms(1,3,4)] app_handler_of_def)
  moreover have "hull c = hull ((begun i m)\<lparr>m_uid := uid, m_need_collect := False\<rparr>)" using c(4) by (simp add: hull_def)
  from hull_fields[OF this] have "m_io c = m_io m" "m_conn c = m_conn m" "m_close_conn c = m_close_conn m" by (auto simp: begun_def)
  ultimately show ?thesis using sent_back_hset[OF c(2)] c(3) unfolding ch
    by (intro exI[of _ "s\<lparr>pr_um := ((fst (pr_um s))(uid \<mapsto> channel_to (pc_im_instance cfg) uid m), q)\<rparr>"] exI[of _ h'] exI[of _ c]) simp
qed

theorem heartbeat_binds_user_witness:
  "\<exists>s' h' k. process (demo_cfg (demo_pack IM_TOUCH (empty_content\<lparr>c_touch := Some (Some 9)\<rparr>))) demo_proc_in 1 (demo_proc, demo_in_heap 2) = Inr (0, s', h') \<and>
    sent_back 1 [] [] k (demo_in_heap 2) s' h' \<and>
    fst (pr_um s') = (fst (pr_um demo_proc))(9 \<mapsto> channel_to (pc_im_instance (demo_cfg (demo_pack IM_TOUCH (empty_content\<lparr>c_touch := Some (Some 9)\<rparr>)))) 9 (demo_msg_in 2)) \<and>
    carries (pc_ser (demo_cfg (demo_pack IM_TOUCH (empty_content\<lparr>c_touch := Some (Some 9)\<rparr>))) (touch_ack_pack (pi_now demo_proc_in) 9)) k \<and>
    m_io k = m_io (demo_msg_in 2) \<and> m_conn k = m_conn (demo_msg_in 2) \<and> m_close_conn k = m_close_conn (demo_msg_in 2)"
  by (rule heartbeat_binds_user[OF demo_handed demo_accepts(1) demo_load demo_dec _ _ _ demo_admitted])
    (simp_all add: demo_pack_def content_of_def demo_ser)

text \<open>C11: On a connection that is being authenticated, a login with any non-empty token succeeds: the user is registered
  with the connection, the route is published (the publisher of routes is set up), and the reply carries the state change to \<open>MSG_STATE\<close>.\<close>

theorem login_accepts_any_token:
  assumes "handed s h ys zs a m" "app_accepts m" "load_data m = Inr bs" "pack_in (pc_dec cfg) bs = Some p"
    "p_type p = Some IM_AUTH" "c_auth_req (content_of p) = Some \<lparr>req_uid = Some uid, req_token = Some token\<rparr>" "uid \<noteq> -1" "token \<noteq> []"
    "admitted 1 p m" "int (length (pc_ser cfg (auth_pack (pi_now i) token))) < 2147483640" "pc_route_publisher cfg"
  shows "\<exists>s' h' k. auth_process cfg i a (s, h) = Inr (0, s', h') \<and> sent_back a ys zs k h s' h' \<and>
    fst (pr_um s') = (fst (pr_um s))(uid \<mapsto> channel_to (pc_im_instance cfg) uid m) \<and>
    pr_published s' = pr_published s @ [(uid, pc_broker_instance cfg)] \<and>
    carries (pc_ser cfg (auth_pack (pi_now i) token)) k \<and> m_state k = Some 2 \<and> m_switch_state k = Fn_switch_state_app_msg \<and>
    m_io k = m_io m \<and> m_conn k = m_conn m"
proof -
  let ?p = "createIMessagePack (pi_junk i) a p" and ?h = "hset h a (begun i m)"
  have hd: "handed s ?h ys zs (pk_msg ?p) (begun i m)" using handed_begun[OF assms(1)] by simp
  have ty: "getMessagePackType ?p = AUTH" "getAuthPackUid ?p = uid" "getAuthPackToken ?p = token" "auth ?p = 0"
    using assms(5-8) by (simp_all add: getMessagePackType_def getAuthPackUid_def getAuthPackToken_def getd_def auth_def)
  have ad: "stamped (begun i m)" "admitted 1 (pk_data ?p) (begun i m)" using assms(2,9) by (simp_all add: app_accepts_def)
  have sz: "int (length (auth_reply cfg i ?p)) < 2147483640" using assms(10) ty(3) by simp
  have ch: "channel_to inst uid (begun i m) = channel_to inst uid m" for inst by (simp add: channel_to_def)
  from login_ok[OF hd ad ty(2,4) sz assms(11), unfolded ch] obtain q h' c s' where c:
    "auth_processAuthPack cfg i ?p (s, ?h) = Inr (0, s', h')"
    "s' = s\<lparr>pr_um := ((fst (pr_um s))(uid \<mapsto> channel_to (pc_im_instance cfg) uid m), q),
      pr_published := pr_published s @ [(uid, pc_broker_instance cfg)]\<rparr>"
    "sent_back a ys zs c ?h s' h'" "carries (auth_reply cfg i ?p) c"
    "hull c = (hull (begun i m))\<lparr>m_uid := uid, m_need_collect := False, m_state := Some 2, m_switch_state := Fn_switch_state_app_msg\<rparr>" by auto
  have "auth_process cfg i a (s, h) = Inr (0, s', h')"
    using c(1) ty(1) by (simp add: auth_process_def process_with_pack[OF assms(1,3,4)])
  moreover have "hull c = hull ((begun i m)\<lparr>m_uid := uid, m_need_collect := False, m_state := Some 2, m_switch_state := Fn_switch_state_app_msg\<rparr>)"
    using c(5) by (simp add: hull_def)
  from hull_fields[OF this] have "m_io c = m_io m" "m_conn c = m_conn m" "m_state c = Some 2" "m_switch_state c = Fn_switch_state_app_msg"
    by (auto simp: begun_def)
  ultimately show ?thesis using sent_back_hset[OF c(3)] c(2,4) ty(3) by (intro exI[of _ s'] exI[of _ h'] exI[of _ c]) simp
qed

abbreviation demo_login :: ImPack where
  "demo_login \<equiv> demo_pack IM_AUTH (empty_content\<lparr>c_auth_req := Some \<lparr>req_uid = Some 9, req_token = Some ''x''\<rparr>\<rparr>)"

theorem login_accepts_any_token_witness:
  "\<exists>s' h' k. auth_process (demo_cfg demo_login) demo_proc_in 1 (demo_proc, demo_in_heap 1) = Inr (0, s', h') \<and>
    sent_back 1 [] [] k (demo_in_heap 1) s' h' \<and>
    fst (pr_um s') = (fst (pr_um demo_proc))(9 \<mapsto> channel_to (pc_im_instance (demo_cfg demo_login)) 9 (demo_msg_in 1)) \<and>
    pr_published s' = pr_published demo_proc @ [(9, pc_broker_instance (demo_cfg demo_login))] \<and>
    carries (pc_ser (demo_cfg demo_login) (auth_pack (pi_now demo_proc_in) ''x'')) k \<and> m_state k = Some 2 \<and>
    m_switch_state k = Fn_switch_state_app_msg \<and> m_io k = m_io (demo_msg_in 1) \<and> m_conn k = m_conn (demo_msg_in 1)"
  by (rule login_accepts_any_token[OF demo_handed demo_accepts(1) demo_load demo_dec _ _ _ _ demo_admitted])
    (simp_all add: demo_pack_def content_of_def demo_ser demo_cfg_def)

text \<open>C7: A usable client message is acknowledged and handed to the remote service: the acknowledgement, a new message with
  the identifier and the client's sequence number, is appended to the queue of the local router for the connection of
  the sender. The request with that identifier and the payload (which for a request contains the identifier) is sent
  through the pools in at most three calls: once for each call made, none after one that returned, and not at all when
  no connection can be had. The message itself is released, unless all attempts failed and there is a collector, which
  then gets it.\<close>

theorem message_acknowledged_and_dispatched:
  fixes i :: proc_in
  assumes "handed s h ys zs a m" "app_accepts m" "load_data m = Inr bs" "pack_in (pc_dec cfg) bs = Some p"
    "p_type p = Some IM_MSG" "c_msg (content_of p) = Some mg" "im_uid mg = Some uid" "uid \<noteq> -1" "im_target_uid mg \<noteq> []"
    "admitted 2 p m" "pack_limit cfg" "service_ready (pr_service s) (Suc n)"
  defines "mid \<equiv> fst (genMsgId (pc_host_id cfg) i (pr_counter s))"
  defines "rq \<equiv> request_of cfg mid p bs"
  shows "\<exists>s' h' k res es. process cfg i a (s, h) = Inr (0, s', h') \<and>
    invoke_within_3_attempts (pc_rpc cfg rq) (pr_service s) = Inr (res, es, pr_service s') \<and> calls_led_to 3 es res \<and>
    service_ready (pr_service s') n \<and> pr_sent s' = pr_sent s @ replicate (length es) rq \<and>
    proc_holds s' h' (ys @ [h_brk h]) (if isl res \<and> pr_collector s \<noteq> None then zs @ [a] else zs) \<and> fst (pr_um s') = fst (pr_um s) \<and>
    h_cells h' (h_brk h) = Some k \<and> carries (pc_ser cfg (ack_of i mid p)) k \<and> m_uid k = uid \<and> m_io k = m_io m \<and> m_conn k = m_conn m \<and>
    (live h' a \<longleftrightarrow> isl res \<and> pr_collector s \<noteq> None)"
proof -
  let ?p = "createIMessagePack (pi_junk i) a p" and ?h = "hset h a (begun i m)"
  have hd: "handed s ?h ys zs (pk_msg ?p) (begun i m)" using handed_begun[OF assms(1)] by simp
  have mg: "msg_of p = mg" using assms(6) by (simp add: msg_of_def)
  have ty: "getMessagePackType ?p = MSG" "getMsgPackUser ?p = uid" "im_target_uid (msg_of (pk_data ?p)) \<noteq> []"
    using assms(5-7,9) mg by (simp_all add: getMessagePackType_def getMsgPackUser_def getd_def)
  have ad: "stamped (begun i m)" "admitted 2 (pk_data ?p) (begun i m)" "load_data (begun i m) = Inr bs" using assms(2,3,10) by (simp_all add: app_accepts_def)
  have g: "genMsgId (pc_host_id cfg) i (pr_counter s) = (mid, snd (genMsgId (pc_host_id cfg) i (pr_counter s)))" by (simp add: mid_def)
  from msg_ok[OF hd ad(1,2) ty(2) assms(8) ty(3) ad(3) assms(11)[unfolded pack_limit_def, rule_format] assms(12) g,
      unfolded pack_fields hset_brk begun_simps, folded rq_def] obtain s' h' k res es where r:
    "processMsgPack cfg i ?p (s, ?h) = Inr (0, s', h')" "proc_holds s' h' (ys @ [h_brk h]) (zs @ uncalled s res a)"
    "fst (pr_um s') = fst (pr_um s)" "pr_sent s' = pr_sent s @ replicate (length es) rq"
    "h_cells h' (h_brk h) = Some k" "carries (pc_ser cfg (ack_of i mid p)) k"
    "hull k = blank\<lparr>m_uid := uid, m_io := m_io m, m_conn := m_conn m, m_need_collect := False\<rparr>"
    "served 1 a (set ys \<union> set zs) ?h (set (ys @ [h_brk h]) \<union> set (zs @ uncalled s res a)) h'"
    "invoke_within_3_attempts (pc_rpc cfg rq) (pr_service s) = Inr (res, es, pr_service s')" "calls_led_to 3 es res"
    "service_ready (pr_service s') n" by blast
  have "process cfg i a (s, h) = Inr (0, s', h')"
    using r(1) ty(1) by (simp add: process_def process_with_pack[OF assms(1,3,4)] app_handler_of_def)
  moreover have "hull k = hull (blank\<lparr>m_uid := uid, m_io := m_io m, m_conn := m_conn m, m_need_collect := False\<rparr>)"
    using r(7) by (simp add: hull_def blank_def)
  from hull_fields[OF this] have "m_uid k = uid" "m_io k = m_io m" "m_conn k = m_conn m" by auto
  moreover have "live h' a \<longleftrightarrow> isl res \<and> pr_collector s \<noteq> None"
    using r(8) handed_live[OF assms(1)] assms(1) by (auto simp: served_def handed_def uncalled_def split: if_splits)
  moreover have "zs @ uncalled s res a = (if isl res \<and> pr_collector s \<noteq> None then zs @ [a] else zs)" by (simp add: uncalled_def)
  then have "proc_holds s' h' (ys @ [h_brk h]) (if isl res \<and> pr_collector s \<noteq> None then zs @ [a] else zs)" using r(2) by simp
  ultimately show ?thesis using r(3-6,9-11) by blast
qed

abbreviation demo_body :: ImMsg where
  "demo_body \<equiv> empty_msg\<lparr>im_uid := Some 9, im_seq := Some 3, im_target_uid := [7, 8], im_type := Some IM_REQUEST\<rparr>"

abbreviation demo_chat :: ImPack where
  "demo_chat \<equiv> demo_pack IM_MSG (empty_content\<lparr>c_msg := Some demo_body\<rparr>)"

theorem message_acknowledged_and_dispatched_witness:
  "\<exists>s' h' k res es. process (demo_cfg demo_chat) demo_proc_in 1 (demo_proc, demo_in_heap 2) = Inr (0, s', h') \<and>
    calls_led_to 3 es (res :: tz_error + ResponseCode) \<and> pr_sent s' = replicate (length es) (request_of (demo_cfg demo_chat)
      (fst (genMsgId (pc_host_id (demo_cfg demo_chat)) demo_proc_in (pr_counter demo_proc))) demo_chat [0]) \<and>
    proc_holds s' h' [h_brk (demo_in_heap 2)] (if isl res \<and> pr_collector demo_proc \<noteq> None then [1] else []) \<and>
    h_cells h' (h_brk (demo_in_heap 2)) = Some k \<and> m_uid k = 9"
proof -
  have p: "p_type demo_chat = Some IM_MSG" "im_uid demo_body = Some 9" "(9 :: int) \<noteq> -1" "im_target_uid demo_body \<noteq> []"
    "c_msg (content_of demo_chat) = Some demo_body" by (simp_all add: demo_pack_def content_of_def)
  have r: "service_ready (pr_service demo_proc) (Suc 1)" using demo_service_ready by (simp add: demo_proc_def numeral_2_eq_2)
  have e: "pr_sent demo_proc = []" by (simp add: demo_proc_def)
  show ?thesis
    using message_acknowledged_and_dispatched[OF demo_handed demo_accepts(1) demo_load demo_dec p(1,5,2,3,4) demo_admitted demo_ser(2) r, of demo_proc_in]
    unfolding e append_Nil by blast
qed

text \<open>C8: The fan-out of a message from another server: every registered target gets, in the order of the targets, one
  message in the queue of the local router that carries the pack addressed to this target alone and the io thread and
  connection of its user; the messages of the other targets go to the collector, or are released if there is none.\<close>

theorem fan_out_delivers:
  assumes "handed s h ys zs a m" "h_brk h + 1024 \<le> h_lim h" "load_data m = Inr bs" "pack_in (pc_dec cfg) bs = Some p"
    "p_type p = Some IM_MSG" "c_msg (content_of p) = Some mg" "im_uid mg = Some uid" "uid \<noteq> -1"
    "im_target_uid mg = uids" "uids \<noteq> []" "length uids \<le> 1024" "pack_limit cfg"
  defines "xs \<equiv> a # [h_brk h..<h_brk h + length uids - 1]"
  defines "t \<equiv> fst (pr_um s)"
  shows "\<exists>s' h'. broker_process cfg i a (s, h) = Inr (0, s', h') \<and>
    proc_holds s' h' (ys @ targets_in (uid_registered t) uids xs)
      (if pr_collector s = None then zs else zs @ targets_in (\<lambda>u. \<not> uid_registered t u) uids xs) \<and>
    list_all2 (\<lambda>u x. uid_registered t u \<longrightarrow> delivered cfg t p h' u x) uids xs"
proof -
  let ?p = "createIMessagePack (pi_junk i) a p"
  have mg: "msg_of p = mg" using assms(6) by (simp add: msg_of_def)
  have ty: "getMessagePackType ?p = MSG" "getMsgPackUser ?p \<noteq> -1" "im_target_uid (msg_of (pk_data ?p)) = uids"
    using assms(5-9) mg by (simp_all add: getMessagePackType_def getMsgPackUser_def getd_def)
  have hd: "handed s h ys zs (pk_msg ?p) m" and g: "hget h a = Inr m" using assms(1) by (simp_all add: handed_def)
  from broker_msg_ok[OF hd ty(2) assms(2) ty(3) assms(10-12), of i, unfolded pack_fields, folded xs_def t_def] obtain s' h' where r:
    "broker_processMsgPack cfg i ?p (s, h) = Inr (0, s', h')"
    "proc_holds s' h' (ys @ targets_in (uid_registered t) uids xs)
      (if pr_collector s = None then zs else zs @ targets_in (\<lambda>u. \<not> uid_registered t u) uids xs)"
    "list_all2 (\<lambda>u x. uid_registered t u \<longrightarrow> delivered cfg t p h' u x) uids xs" by blast
  have "broker_process cfg i a (s, h) = Inr (0, s', h')"
    using r(1) ty(1) by (simp add: broker_process_def parse_eq[OF g assms(3)] assms(4))
  then show ?thesis using r(2,3) by blast
qed

definition demo_router :: proc where
  "demo_router = demo_proc\<lparr>pr_um := ([7 \<mapsto> demo_channel], bq_new)\<rparr>"

lemma demo_router_handed: "handed demo_router (demo_in_heap st) [] [] 1 (demo_msg_in st)"
  using demo_handed[of st] by (simp add: handed_def proc_holds_def demo_router_def demo_proc_def)

theorem fan_out_delivers_witness:
  "\<exists>s' h'. broker_process (demo_cfg demo_chat) demo_proc_in 1 (demo_router, demo_in_heap 2) = Inr (0, s', h') \<and>
    proc_holds s' h' [1] [2] \<and> delivered (demo_cfg demo_chat) [7 \<mapsto> demo_channel] demo_chat h' 7 1"
proof -
  have p: "p_type demo_chat = Some IM_MSG" "c_msg (content_of demo_chat) = Some demo_body" by (simp_all add: demo_pack_def content_of_def)
  have u: "uid_registered [7 \<mapsto> demo_channel] 7" "\<not> uid_registered [7 \<mapsto> demo_channel] 8"
    by (simp_all add: uid_registered_def demo_channel_def)
  have h: "fst (pr_um demo_router) = [7 \<mapsto> demo_channel]" "pr_collector demo_router \<noteq> None" "h_brk (demo_in_heap 2) = 2"
    by (simp_all add: demo_router_def demo_proc_def demo_in_heap_def)
  have m: "h_brk (demo_in_heap 2) + 1024 \<le> h_lim (demo_in_heap 2)" by (simp add: demo_in_heap_def)
  show ?thesis
    using fan_out_delivers[OF demo_router_handed m demo_load demo_dec p, of 9 "[7, 8]" demo_proc_in] demo_ser(2) u h
    by (simp add: targets_in_def)
qed

text \<open>C14: With more than 1024 targets the loop that copies the targets writes past the end of its array of \<open>TARGET_MAX\<close> cells,
  whatever the message and the state.\<close>

theorem fan_out_overflows:
  assumes "handed s h ys zs a m" "load_data m = Inr bs" "pack_in (pc_dec cfg) bs = Some p"
    "p_type p = Some IM_MSG" "c_msg (content_of p) = Some mg" "im_uid mg = Some uid" "uid \<noteq> -1" "1024 < length (im_target_uid mg)"
  shows "broker_process cfg i a (s, h) = Inl Out_of_bounds"
proof -
  let ?p = "createIMessagePack (pi_junk i) a p"
  have mg: "msg_of p = mg" using assms(5) by (simp add: msg_of_def)
  have ty: "getMessagePackType ?p = MSG" "getMsgPackUser ?p \<noteq> -1"
    using assms(4-7) by (simp_all add: getMessagePackType_def getMsgPackUser_def getd_def)
  have g: "hget h a = Inr m" using assms(1) by (simp add: handed_def)
  have "createLocalMsgPack (pc_ser cfg) ?p h = Inl Out_of_bounds"
    by (rule createLocalMsgPack_overflows) (use assms(8) mg in \<open>simp add: TARGET_MAX_def createIMessagePack_def\<close>)
  then show ?thesis using ty by (simp add: broker_process_def parse_eq[OF g assms(2)] assms(3) broker_processMsgPack_def)
qed

theorem fan_out_overflows_witness:
  "broker_process (demo_cfg (demo_pack IM_MSG (empty_content\<lparr>c_msg := Some (empty_msg\<lparr>im_uid := Some 9, im_target_uid := replicate 1025 7\<rparr>)\<rparr>)))
     demo_proc_in 1 (demo_proc, demo_in_heap 2) = Inl Out_of_bounds"
proof (rule fan_out_overflows[OF demo_handed demo_load demo_dec, where uid = 9])
  show "c_msg (content_of (demo_pack IM_MSG (empty_content\<lparr>c_msg := Some (empty_msg\<lparr>im_uid := Some 9, im_target_uid := replicate 1025 7\<rparr>)\<rparr>))) =
    Some (empty_msg\<lparr>im_uid := Some 9, im_target_uid := replicate 1025 7\<rparr>)" by (simp add: demo_pack_def content_of_def)
qed (simp_all add: demo_pack_def)

text \<open>C12: The application workers empty their queue whatever the clients sent: as many turns as there are waiting messages
  succeed, and afterwards exactly those messages are alive that are in the queues of the local router and the collector
  or that had nothing to do with the workers. No message leaks, none is freed twice, and no turn faults, as long as memory
  lasts for the messages and for the clients the pools of the remote service create.\<close>

theorem app_workers_drain:
  assumes "pq_waits (q, h) xs" "proc_owns s h Q" "Q \<inter> set xs = {}" "h_brk h + length xs \<le> h_lim h"
    "\<And>x. x \<in> set xs \<Longrightarrow> app_accepts (imsg_at h x)" "pack_limit cfg" "length is = length xs"
    "service_ready (pr_service s) (length xs)"
  shows "\<exists>q' s' h' Q'. app_core_run cfg is (q, s, h) = Inr (q', s', h') \<and> pq_waits (q', h') [] \<and> proc_owns s' h' Q' \<and>
    (\<forall>b. live h' b \<longleftrightarrow> b \<in> Q' \<or> live h b \<and> b \<notin> Q \<union> set xs)"
  unfolding app_core_run_def using assms by (intro app_worker.turns_drain) (auto simp: proc_room_def)

definition demo_app_queue :: MsMessagePriorityQueue where
  "demo_app_queue = \<lparr>pq_priority_num = 2, pq_pri_queue = [uq_new, \<lparr>uq_head = 1, uq_tail = 1, uq_total_size = 1\<rparr>], pq_total_size = 1\<rparr>"

lemma demo_app_waits: "pq_waits (demo_app_queue, demo_in_heap 2) [1]"
  unfolding pq_waits_def
  by (rule exI[of _ "[[], [1]]"]) (simp add: pq_holds_def demo_app_queue_def demo_in_heap_def uq_holds_def uq_new_def heap_ok_def
    seg_def tail_of_def demo_msg_in_def new_IMessage_def)

lemma demo_owns: "proc_owns demo_proc (demo_in_heap st) {}"
  using demo_handed[of st] by (auto simp: proc_owns_def handed_def intro!: exI[of _ "[]"])

theorem app_workers_drain_witness:
  "\<exists>q' s' h' Q'. app_core_run (demo_cfg demo_chat) [demo_proc_in] (demo_app_queue, demo_proc, demo_in_heap 2) = Inr (q', s', h') \<and>
    pq_waits (q', h') [] \<and> proc_owns s' h' Q' \<and> (\<forall>b. live h' b \<longleftrightarrow> b \<in> Q' \<or> live (demo_in_heap 2) b \<and> b \<notin> {} \<union> set [1])"
  by (rule app_workers_drain[OF demo_app_waits demo_owns])
    (use demo_accepts(1)[of 2] service_ready_mono[OF demo_service_ready, of 1] in \<open>simp_all add: demo_ser demo_in_heap_def demo_proc_def\<close>)

text \<open>C13: The workers of the broker empty their queue when each message waiting there has at most 1024 targets, as many as
  the array of the fan-out holds: as many turns as there are messages succeed, none leaks or is freed twice, and
  no turn faults.\<close>

theorem broker_workers_drain:
  assumes "bq_holds (q, h) xs" "proc_owns s h Q" "Q \<inter> set xs = {}" "h_brk h + length xs * 1024 \<le> h_lim h"
    "\<And>x. x \<in> set xs \<Longrightarrow> broker_accepts cfg (imsg_at h x)" "length is = length xs"
  shows "\<exists>q' s' h' Q'. broker_core_run cfg is (q, s, h) = Inr (q', s', h') \<and> bq_holds (q', h') [] \<and> proc_owns s' h' Q' \<and>
    (\<forall>b. live h' b \<longleftrightarrow> b \<in> Q' \<or> live h b \<and> b \<notin> Q \<union> set xs)"
  unfolding broker_core_run_def using assms by (intro broker_worker.turns_drain) (auto simp: any_room_def)

theorem broker_workers_drain_witness:
  "\<exists>q' s' h' Q'. broker_core_run (demo_cfg demo_chat) [demo_proc_in] (\<lparr>bq_list = 1, bq_tail = 1, bq_list_size = 1\<rparr>, demo_proc, demo_in_heap 2) = Inr (q', s', h') \<and>
    bq_holds (q', h') [] \<and> proc_owns s' h' Q' \<and> (\<forall>b. live h' b \<longleftrightarrow> b \<in> Q' \<or> live (demo_in_heap 2) b \<and> b \<notin> {} \<union> set [1])"
proof (rule broker_workers_drain[OF _ demo_owns])
  show "bq_holds (\<lparr>bq_list = 1, bq_tail = 1, bq_list_size = 1\<rparr>, demo_in_heap 2) [1]"
    by (simp add: bq_holds_def demo_in_heap_def heap_ok_def seg_def tail_of_def demo_msg_in_def new_IMessage_def)
  show "broker_accepts (demo_cfg demo_chat) (imsg_at (demo_in_heap 2) x)" if "x \<in> set [1]" for x
    using that demo_accepts(3)[of 2] demo_load[of 2] demo_ser(2)[of demo_chat]
    by (simp add: broker_accepts_def demo_in_heap_def) (simp add: demo_cfg_def demo_pack_def msg_of_def content_of_def)
qed (simp_all add: demo_in_heap_def)

text \<open>The dispatcher sends a message by the state of its connection: one that is not yet logged in goes to the
  authentication workers, in the state \<open>AUTH_STATE\<close>, any other to the lower level of the application workers' queue,
  in its state; each behind all that wait there, and the other queue is untouched.\<close>

lemma dispatcher_by_state:
  assumes "bq_holds (d_auth d, h) xs" "pq_holds (d_app d, h) [ys, zs]" "set xs \<inter> set (ys @ zs) = {}"
    "hget h a = Inr m" "m_next m = 0" "m_state m = Some st" "a \<notin> set (xs @ ys @ zs)"
  shows "\<exists>d' h' k. dispatcher_process a (d, h) = Inr (0, d', h') \<and> h_cells h' a = Some k \<and>
    (if st = 0 \<or> st = 1 then bq_holds (d_auth d', h') (xs @ [a]) \<and> pq_holds (d_app d', h') [ys, zs] \<and> m_state k = Some 1
     else bq_holds (d_auth d', h') xs \<and> pq_holds (d_app d', h') [ys, zs @ [a]] \<and> m_state k = Some st)"
proof (cases "st = 0 \<or> st = 1")
  case True
  let ?m = "m\<lparr>m_state := Some 1, m_priority := 0\<rparr>"
  let ?h = "hset h a ?m"
  have a: "live h a" "a \<noteq> 0" and ok: "heap_ok h" using assms(1,4) live_iff_hget by (auto simp: hget_Inr bq_holds_def)
  have "bq_holds (d_auth d, ?h) xs" "live ?h a" using assms(1,7) a ok by (auto simp: bq_holds_def)
  from bq_put_ok[OF this] assms(7) obtain q h' where q: "bq_put a (d_auth d, ?h) = Inr (q, h')" "bq_holds (q, h') (xs @ [a])"
    "relinked set_next ?h h'" "\<forall>b. b \<notin> set (xs @ [a]) \<longrightarrow> h_cells h' b = h_cells ?h b" by auto
  have "heap_ok h'" using q(2) by (simp add: bq_holds_def)
  then have "pq_holds (d_app d, h') [ys, zs]"
    by (rule pq_holds_frame[OF assms(2)]) (use q(4) assms(3,7) in auto)
  moreover have "map_option (set_next 0) (h_cells h' a) = Some (set_next 0 ?m)" using q(3) by (simp add: relinked_def)
  then obtain k where k: "h_cells h' a = Some k" "set_next 0 k = set_next 0 ?m" by auto
  have "m_state (set_next 0 k) = m_state (set_next 0 ?m)" unfolding k(2) ..
  then have "m_state k = Some 1" by (simp add: set_next_def)
  ultimately show ?thesis using q(1,2) k(1) True assms(4,6) by (simp add: dispatcher_process_def auth_schedule_def)
next
  case False
  let ?m = "m\<lparr>m_priority := 1\<rparr>"
  let ?h = "hset h a ?m"
  have a: "live h a" "a \<noteq> 0" "heap_ok h" using assms(1,4) live_iff_hget by (auto simp: hget_Inr bq_holds_def)
  then have ok: "heap_ok ?h" by simp
  have g: "hget ?h a = Inr ?m" "m_next ?m = 0" using a assms(5) by (simp_all add: heap_simps)
  have p: "pq_holds (d_app d, ?h) [ys, zs]" by (rule pq_holds_frame[OF assms(2) ok]) (use assms(7) in auto)
  from pq_put_ok[OF p _ _ g, of 1] assms(7) obtain q h' where q: "pq_put a 1 (d_app d, ?h) = Inr (q, h')"
    "pq_holds (q, h') [ys, zs @ [a]]" "relinked set_next ?h h'" "\<forall>b. b \<notin> set (ys @ zs) \<longrightarrow> h_cells h' b = h_cells ?h b" by auto
  have "heap_ok h'" using q(2) by (simp add: pq_holds_def)
  then have "bq_holds (d_auth d, h') xs" using assms(1,3,7) q(4) by (auto simp: bq_holds_def intro!: seg_frame[of m_next h])
  moreover have "h_cells h' a = Some ?m" using q(4) assms(7) by simp
  ultimately show ?thesis using q(1,2) False assms(4,6) g(1) by (simp add: dispatcher_process_def app_schedule_def)
qed

end
