(* ===== verification/Spec2Isabelle.thy ===== *)
theory Spec2Isabelle
  imports IoCluster Delivery RpcPool
begin

text \<open>
  The message server xkim (\<open>src/msg_handler\<close>): an instant messaging server in C++ that keeps long connections to its clients, takes
  packs from them, answers them, and forwards messages between users through other servers of the same kind.

  \<^bold>\<open>The program.\<close>
  An accepting thread takes sockets from the listening socket and gives each to the io thread that has the fewest connections. An io thread
  runs the events of its connections: it cuts the bytes it reads into frames, wraps each frame in a message and hands the message to the
  dispatcher, and it writes the messages queued for it to the sockets of their connections. The dispatcher puts a message into the queue of the
  authentication workers or of the application workers, by the state of its connection. A worker parses the pack in the message, changes
  the table of users, answers with a message of its own, and gives a message for other users to the broker, which calls the server
  of the target over pooled connections, in up to three attempts. On that side a broker worker makes one message for each target and routes them by the table of users. Messages that were
  routed wait for the local router thread, which groups a batch by io thread and appends the groups to the queues of the threads (the remote router groups by connection,
  for the backend io). A message
  whose user is unknown, or whose connection is closed, goes to the collector of undelivered messages.

  \<^bold>\<open>Conventions.\<close>
  An operation returns a value of type \<open>res\<close>: \<open>Inr\<close> what the code computes, or \<open>Inl\<close> the reason why it does not go on (abort, failed assertion,
  null or dangling pointer, indeterminate value, access outside an array, \<open>memcpy\<close> of overlapping regions, waiting for ever, endless loop). Pointers are addresses into
  typed heaps with an allocator that has a limit, so that running out of memory is a branch. Machine integers that wrap are words
  or have the remainder written out. A region under a mutex is one step; where two threads interleave without one, the steps are a relation.
  The theories are named after what they model; the definitions have the names the source gives them, with a prefix where several classes
  share a name (\<open>bq_put\<close>, \<open>pq_put\<close>).

  \<^bold>\<open>Theories\<close>, in the order of their imports, with the files under \<open>src/msg_handler\<close>.
  \<^item> \<open>Prelude\<close>: outcomes, heaps, list segments; the locale \<open>linked_cells\<close> has the lemmas on lists linked through a field, and is interpreted
    for messages, push data, queue nodes and queue elements.
  \<^item> \<open>Message\<close> (\<open>framework/ms/ms_message.cpp\<close>): the message, its two constructors and its release; a reply has the frame the read side expects.
  \<^item> \<open>QueueContracts\<close>: what queues promise (\<open>fifo_queue\<close>, \<open>batch_queue\<close>) and what any interleaving of puts and gets observes.
  \<^item> \<open>MsgQueues\<close> (the queues of \<open>framework/ms\<close>), \<open>LibQueues\<close> (those of \<open>framework/lib\<close>), \<open>PushList\<close> (\<open>framework/io/io_push_list.h\<close>): every
    operation refines the abstract queue; order over the levels of the priority queues; the faults of the limited queue and of \<open>getM\<close>.
  \<^item> \<open>LinkedList\<close> (\<open>framework/lib/linked_list.h\<close>, \<open>thrift/pilot/linked_list.h\<close>): the circular lists, through the locale \<open>sentinel_list\<close> and its
    extension \<open>sentinel_deque\<close>.
  \<^item> \<open>Sampling\<close> (\<open>framework/io/io_sampling.cpp\<close>): the rates of a connection, and what the union of the two tables makes of them.
  \<^item> \<open>ConnCache\<close> (\<open>framework/io/connection_cache.inl\<close>, \<open>connection_register.h\<close>): the pool never hands out a connection recycled in the same turn.
  \<^item> \<open>Connection\<close>, \<open>Framing\<close>, \<open>Writing\<close> (\<open>framework/io/io_connection.cpp\<close>): the state machine of a socket. The frames handed on are those of the
    specification \<open>split_frames\<close>, however the stream is cut, as long as the incomplete rest of the buffer does not overlap the place it is
    moved to (\<open>calm\<close>), for the code moves it with \<open>memcpy\<close>; the bytes sent are the queued frames in order. \<open>frame_handler\<close> is the contract of
    the virtual functions.
  \<^item> \<open>AppConnection\<close> (\<open>framework/io/io_app_connection.cpp\<close>, \<open>io_backend_connection.cpp\<close>): the two subclasses, as interpretations of \<open>frame_handler\<close>; serving
    a stream of frames at the times of its clock (a sequence of readings, three for each frame served), its refusal by the rate limits, the overlapping move,
    and what happens to unwritten messages on a close.
  \<^item> \<open>StringAlgos\<close>, \<open>Util\<close>, \<open>IniReader\<close> (\<open>framework/lib\<close>, \<open>thrift/pilot/string_algo.cc\<close>): string helpers with the two dynamic programs against their
    recursive specifications (locale \<open>dp_table\<close>), identifiers and hashes, and the configuration file.
  \<^item> \<open>Routing\<close> (\<open>framework/ms/ms_message_router_local.cpp\<close>, \<open>ms_message_router_remote.cpp\<close>, \<open>ms_message_collector.cpp\<close>, \<open>message/im_user_message_router.cpp\<close>):
    the grouping of a batch, once for both routers in the locale \<open>slot_table\<close>; the table of users; the collector.
  \<^item> \<open>RpcPool\<close> (\<open>thrift/pilot\<close>): the pools of remote clients; calls neither lose nor share clients, and what a refresh of the registry leaves behind.
  \<^item> \<open>Parser\<close> (\<open>message/im_message_parser.cpp\<close>), \<open>Processing\<close> (\<open>message/im_message_processor.cpp\<close>, \<open>im_message_auth_processor.cpp\<close>,
    \<open>thrift/broker\<close>, the dispatcher and the workers): the packs and every handler. The fan-out copies its targets into the array of 1024 cells the code has;
    the broker sends its requests through \<open>RpcPool\<close>.
  \<^item> \<open>Workers\<close>, \<open>Delivery\<close>: the contracts \<open>processor\<close> and \<open>worker_queue\<close>, what a worker does over both (locale \<open>worker\<close>), and its interpretation for the three kinds of
    workers; then what each kind of pack leads to, as seen by clients and other servers. The contract lets a processor ask for room in its
    state, which for client messages is memory for the clients of the remote service.
  \<^item> \<open>Wakeups\<close> (\<open>framework/io/io_app.cpp\<close>, \<open>io_app_cluster.cpp\<close>): the notification of io threads as a step relation. Sockets queued one at a time are all
    picked up; messages queued in lists can be left behind.
  \<^item> \<open>IoThread\<close>, \<open>IoDelivery\<close> (\<open>framework/io/io_app.cpp\<close>): one io thread; it adopts the sockets queued for it and gives the messages queued for it to
    their connections.
  \<^item> \<open>IoCluster\<close> (\<open>framework/io/io_app_cluster.cpp\<close>, \<open>io_accept.cpp\<close>, \<open>io_app_accept_service.cpp\<close>, \<open>io_manager.cpp\<close>): the io threads together, and accepting.
  \<^item> This theory has the path of a routed message over \<open>Routing\<close>, \<open>IoCluster\<close>, \<open>IoDelivery\<close> and \<open>Writing\<close> to the wire.

  \<^bold>\<open>Loops and fuel.\<close>
  A loop over a linked list has as fuel the number of addresses the heap has handed out, which bounds the length of every
  acyclic list in it; a loop that uses it up on a list that has not ended is \<open>Diverge\<close>, which is what the code does on a cyclic list. The loop over the frames
  of a read buffer takes its fuel as an argument: every turn consumes at least one byte as long as the sizes are sane, so more than the 1024 bytes of the
  buffer are enough, and the properties ask for that. The endless loop of a thread is modelled one turn at a time; \<open>worker_turns\<close>, \<open>read_calls\<close> and
  \<open>write_calls\<close> are sequences of turns and events, and the properties say how many are enough. A wait on a condition
  that does not hold is \<open>Blocked\<close>.

  \<^bold>\<open>Parameters.\<close>
  The protobuf serialiser and parser (\<open>pc_ser\<close>, \<open>pc_dec\<close>), how a single remote call ends (\<open>pc_rpc\<close>), the clock, random numbers and thread ids, the results of socket calls (scripts), the order of a hash map,
  the network interfaces, what the regular expressions of boost find in a line, the opening of transports and the
  answers of the registry. The properties assume of them only what is named in their statements.

  \<^bold>\<open>Not modelled.\<close>
  \<^item> The backend io (\<open>framework/io/io_backend.cpp\<close> and its cluster): it calls a member that does not exist, so it cannot compile, and its uses are commented
    out. Its connection class is in \<open>AppConnection\<close>.
  \<^item> The wrappers of threads, mutexes, condition variables and thread local storage, and the event loop of libevent: they are the
    scheduling of the steps above.
  \<^item> Access to redis and the publishing of routes: calls of a library whose result the code only logs. The published routes are recorded in the state, and whether there is a
    publisher, which the code asserts, is part of the configuration.
  \<^item> Code the protobuf and thrift compilers generate, the headers of the JSON library, and the zookeeper client with the singletons around it.
  \<^item> The queue that feeds the registry tasks to their thread, and the one-shot macros of the call proxy; what the tasks do is in \<open>RpcPool\<close>.
  \<^item> Creating and binding sockets, creating threads, \<open>main\<close>, and the command line test clients: sequences of system calls without a state of their own.
  \<^item> The remote table of users, whose operations are stubs without state, and the byte buffers, which nothing uses.
\<close>

section \<open>From the router to the wire\<close>

lemma ready_relinked: "relinked set_next mh mh' \<Longrightarrow> ready mh key fr x \<Longrightarrow> ready mh' key fr x"
proof -
  assume r: "relinked set_next mh mh'" and x: "ready mh key fr x"
  obtain m where m: "hget mh x = Inr m" "pushable m" "m_conn m = key x" "load_frame m = Inr (fr x)" "fr x \<noteq> []" "\<not> m_close_conn m"
    using x by (auto simp: ready_def)
  have "map_option (set_next 0) (h_cells mh' x) = map_option (set_next 0) (h_cells mh x)" using r by (simp add: relinked_def)
  then obtain m' where m': "hget mh' x = Inr m'" "set_next 0 m' = set_next 0 m" using m(1) by (auto simp: hget_Inr)
  have "pushable m' = pushable m" "m_conn m' = m_conn m" "load_frame m' = load_frame m" "m_close_conn m' = m_close_conn m"
    using set_next_same_msg[of 0 m'] set_next_same_msg[of 0 m] m'(2) by simp_all
  then show ?thesis using m m'(1) by (auto simp: ready_def)
qed

lemma io_holds_thread: "io_holds (io\<lparr>ia_msg_queue := q, ia_push_notify := n\<rparr>) ph mh D B zs = io_holds io ph mh D B zs"
  by (simp only: io_holds_queue)

lemma pushed_obj_wire: "pushed_obj ob ob' \<Longrightarrow> co_wire ob' = co_wire ob \<and> c_wsock_state (co_conn ob') = c_wsock_state (co_conn ob)"
  by (simp add: pushed_obj_def)

text \<open>The router sorts its batch over the threads: the queue of each thread grows by the messages for it.\<close>

lemma router_to_threads:
  assumes q: "bq_holds (q, mh) xs" "xs \<noteq> []" and n: "\<And>x. x \<in> set xs \<Longrightarrow> io_index (imsg_at mh x) < length (cl_core_io cl)"
    and Q: "cl_queues cl mh Q" "\<And>j. j < length (cl_core_io cl) \<Longrightarrow> set (Q j) \<inter> set xs = {}"
  shows "\<exists>outs q' mh1 cl' mh2. local_run (length (cl_core_io cl)) (q, mh) = Inr (outs, q', mh1) \<and> dispatch_all outs (cl, mh1) = Inr (cl', mh2) \<and>
    cl_queues cl' mh2 (\<lambda>i. Q i @ filter (\<lambda>x. io_index (imsg_at mh x) = i) xs) \<and> same_threads cl cl' \<and> relinked set_next mh mh2 \<and>
    (\<forall>a. a \<notin> set xs \<longrightarrow> (\<forall>j < length (cl_core_io cl). a \<notin> set (Q j)) \<longrightarrow> h_cells mh2 a = h_cells mh a)"
proof -
  let ?n = "length (cl_core_io cl)" and ?Y = "\<lambda>i. filter (\<lambda>x. io_index (imsg_at mh x) = i) xs"
  from local_run_ok[OF q n] obtain outs q' mh1 where r: "local_run ?n (q, mh) = Inr (outs, q', mh1)" "bq_holds (q', mh1) []" "relinked set_next mh mh1"
    "map fst outs = filter (\<lambda>i. \<exists>x \<in> set xs. io_index (imsg_at mh x) = i) [0..<?n]" "\<And>i p. (i, p) \<in> set outs \<Longrightarrow> mpath mh1 p (?Y i) 0"
    "\<And>a. a \<notin> set xs \<Longrightarrow> h_cells mh1 a = h_cells mh a" by blast
  have ok: "heap_ok mh1" using r(2) by (simp add: bq_holds_def)
  have dom: "fst ` set outs = {i. i < ?n \<and> ?Y i \<noteq> []}" using arg_cong[OF r(4), of set] by (auto simp: filter_empty_conv)
  have "mq_holds (ia_msg_queue (cl_core_io cl ! j), mh1) (Q j)" if j: "j < ?n" for j
  proof -
    have m: "mq_holds (ia_msg_queue (cl_core_io cl ! j), mh) (Q j)" using Q(1) j by (simp add: cl_queues_def)
    show ?thesis using Q(2)[OF j] by (intro mq_holds_frame[OF m ok] r(6)) blast
  qed
  then have w: "cl_queues cl mh1 Q" using Q(1) unfolding cl_queues_def by blast
  have o: "i < ?n \<and> mpath mh1 p (?Y i) 0 \<and> ?Y i \<noteq> []" if "(i, p) \<in> set outs" for i p
  proof -
    have "i \<in> fst ` set outs" using that by force
    then show ?thesis unfolding dom using r(5)[OF that] by blast
  qed
  have d: "distinct (map fst outs)" unfolding r(4) by simp
  have qy: "set (Q j) \<inter> set (?Y i) = {}" if "j < ?n" for i j using Q(2)[OF that] by auto
  have yy: "set (?Y i) \<inter> set (?Y j) = {}" if "i \<noteq> j" for i j using that by auto
  from dispatch_all_ok[where Y = ?Y, OF w d o qy yy] obtain cl' mh2 where a: "dispatch_all outs (cl, mh1) = Inr (cl', mh2)"
    "cl_queues cl' mh2 (\<lambda>j. Q j @ (if j \<in> fst ` set outs then ?Y j else []))" "same_threads cl cl'" "relinked set_next mh1 mh2"
    "\<And>a. \<forall>j < ?n. a \<notin> set (Q j) \<Longrightarrow> h_cells mh2 a = h_cells mh1 a" by blast
  have "?Y j = []" if "\<not> j < ?n" for j using that n by (auto simp: filter_empty_conv)
  then have "(if j \<in> fst ` set outs then ?Y j else []) = ?Y j" for j unfolding dom by auto
  then have "cl_queues cl' mh2 (\<lambda>i. Q i @ ?Y i)" using a(2) by (simp only:)
  moreover have "h_cells mh2 b = h_cells mh b" if "b \<notin> set xs" "\<forall>j < ?n. b \<notin> set (Q j)" for b using a(5)[OF that(2)] r(6)[OF that(1)] by simp
  ultimately show ?thesis using r(1) a(1,3) relinked_trans[OF r(3) a(4)] by blast
qed

text \<open>
  C1: From the queue of the local router to the wire of a client. One turn of the router sorts its batch over the io threads and
  hands each thread its messages; one turn of the push side of thread \<open>i\<close> gives every message to its connection and leaves the connection
  waiting for its write event; and the write events of a connection, over any sequence of partial sends that is long enough, put on its wire what it still had to write followed by
  the frames of exactly those messages that are for it, first the ones that already waited for the thread and then those of the batch, in the
  order in which they were queued.
\<close>

theorem routed_messages_reach_wire:
  assumes "bq_holds (q, mh) xs" "xs \<noteq> []" "\<And>x. x \<in> set xs \<Longrightarrow> io_index (imsg_at mh x) < length (cl_core_io cl)"
    and "cl_queues cl mh Q" "\<And>j. j < length (cl_core_io cl) \<Longrightarrow> set (Q j) \<inter> set xs = {}"
    and "i < length (cl_core_io cl)" "io_holds (thread_of cl i) ph mh D B zs"
    and "\<And>j. j < length (cl_core_io cl) \<Longrightarrow> (set (Q j) \<union> set xs) \<inter> (owned (thread_of cl i) ph D \<union> set zs) = {}"
    and "\<And>x. x \<in> set (Q i) \<union> set xs \<Longrightarrow> ready mh key fr x" "h_brk ph + length (Q i) + length xs \<le> h_lim ph"
    and "ia_online_register (thread_of cl i) cid = Some conn" "c_wsock_state (co_conn (ia_conns (thread_of cl i) conn)) = SOCKET_DATA_WRITE"
    and new: "new = filter (\<lambda>x. ia_online_register (thread_of cl i) (key x) = Some conn) (Q i @ filter (\<lambda>x. io_index (imsg_at mh x) = i) xs)"
    and out: "out = concat (B conn) @ concat (map fr new)" and "length out \<le> n" "length out \<le> length ks"
  shows "\<exists>outs q' mh1 cl' mh2 io' ph' mh3 c' sc' e'. local_run (length (cl_core_io cl)) (q, mh) = Inr (outs, q', mh1) \<and>
    dispatch_all outs (cl, mh1) = Inr (cl', mh2) \<and> push junk (thread_of cl' i, ph, mh2) = Inr (io', ph', mh3) \<and>
    (new \<noteq> [] \<longrightarrow> c_wevent_flag (co_conn (ia_conns io' conn))) \<and>
    (case enter clk conn (p, io', ph', mh3) of (c, e) \<Rightarrow> write_calls n so (io_vtable pr conn) (c, map Sent ks, e)) = Inr (c', sc', e') \<and>
    e_wire e' = co_wire (ia_conns (thread_of cl i) conn) @ out"
proof -
  let ?Y = "\<lambda>i. filter (\<lambda>x. io_index (imsg_at mh x) = i) xs"
  from router_to_threads[OF assms(1-5)] obtain outs q' mh1 cl' mh2 where r: "local_run (length (cl_core_io cl)) (q, mh) = Inr (outs, q', mh1)"
    "dispatch_all outs (cl, mh1) = Inr (cl', mh2)" "cl_queues cl' mh2 (\<lambda>i. Q i @ ?Y i)" "same_threads cl cl'" "relinked set_next mh mh2"
    "\<And>a. a \<notin> set xs \<Longrightarrow> \<forall>j < length (cl_core_io cl). a \<notin> set (Q j) \<Longrightarrow> h_cells mh2 a = h_cells mh a" by blast
  define io where "io = thread_of cl' i"
  obtain mq k where io: "io = (thread_of cl i)\<lparr>ia_msg_queue := mq, ia_push_notify := k\<rparr>" unfolding io_def by (rule same_threads_of[OF r(4) assms(6)])
  have f: "ia_online_register io = ia_online_register (thread_of cl i)" "ia_conns io = ia_conns (thread_of cl i)" "owned io ph D = owned (thread_of cl i) ph D"
    "ia_collector io = ia_collector (thread_of cl i)" by (simp_all add: io owned_def)
  have len: "length (cl_core_io cl') = length (cl_core_io cl)" using r(4) by (simp add: same_threads_def)
  note d = io_holdsD[OF assms(7)]
  have ok: "heap_ok mh2" using relinked_ok[OF r(5)] d(2) by simp
  have same: "h_cells mh2 a = h_cells mh a" if "a \<in> owned (thread_of cl i) ph D \<union> set zs" for a
    using that assms(8) assms(6) by (intro r(6)) blast+
  have "io_holds ((thread_of cl i)\<lparr>ia_collector := ia_collector (thread_of cl i)\<rparr>) ph mh2 D B zs"
  proof (rule io_holds_other[OF assms(7) ok _ d(6)])
    show "h_cells mh2 a = h_cells mh a" if "a \<in> owned (thread_of cl i) ph D" for a using that by (intro same) simp
    show "collector_holds (ia_collector (thread_of cl i)) mh2 zs" by (rule collector_holds_frame[OF d(7) ok]) (rule same, simp)
  qed
  then have h: "io_holds io ph mh2 D B zs" unfolding io io_holds_thread by simp
  have mq: "mq_holds (ia_msg_queue io, mh2) (Q i @ ?Y i)" using r(3) assms(6) len by (simp add: cl_queues_def io_def thread_of_def)
  have rd: "ready mh2 key fr x" if "x \<in> set (Q i @ ?Y i)" for x using that by (intro ready_relinked[OF r(5)] assms(9)) auto
  have dj: "set (Q i @ ?Y i) \<inter> (owned io ph D \<union> set zs) = {}" unfolding f using assms(8)[OF assms(6)] by auto
  have "length (?Y i) \<le> length xs" by simp
  then have room: "h_brk ph + length (Q i @ ?Y i) \<le> h_lim ph" using assms(10) unfolding length_append by linarith
  from push_ok[OF h mq rd dj room, of junk] obtain io' ph' mh3 D' zs' where pu: "push junk (io, ph, mh2) = Inr (io', ph', mh3)"
    "ia_online_register io' = ia_online_register io" "\<And>conn. pushed_obj (ia_conns io conn) (ia_conns io' conn)"
    "io_holds io' ph' mh3 D' (\<lambda>conn. B conn @ map fr (filter (\<lambda>x. ia_online_register io (key x) = Some conn) (Q i @ ?Y i))) zs'"
    "\<And>conn. (\<exists>x \<in> set (Q i @ ?Y i). ia_online_register io (key x) = Some conn) \<Longrightarrow> flagged (ia_conns io' conn)" by blast
  have R: "conn \<in> ran (ia_online_register io')" unfolding pu(2) f using assms(11) by (auto simp: ran_def)
  have b: "concat (B conn @ map fr (filter (\<lambda>x. ia_online_register io (key x) = Some conn) (Q i @ ?Y i))) = out" unfolding out new f by simp
  note w = pushed_obj_wire[OF pu(3)[of conn], unfolded f]
  obtain c e where en: "enter clk conn (p, io', ph', mh3) = (c, e)" by (metis prod.exhaust)
  have st: "c_wsock_state (co_conn (ia_conns io' conn)) = SOCKET_DATA_WRITE" using w assms(12) by simp
  have fl: "new \<noteq> [] \<longrightarrow> c_wevent_flag (co_conn (ia_conns io' conn))"
    using pu(5)[of conn] st unfolding new f by (auto simp: flagged_def filter_empty_conv)
  from conn_writes_out[OF pu(4) R st _ _ en, of n ks so pr, unfolded b] assms(15,16) obtain c' sc' e' where
    "write_calls n so (io_vtable pr conn) (c, map Sent ks, e) = Inr (c', sc', e')" "e_wire e' = co_wire (ia_conns io' conn) @ out" by blast
  then show ?thesis using r(1,2) pu(1) en w fl unfolding io_def
    by (intro exI[of _ outs] exI[of _ q'] exI[of _ mh1] exI[of _ cl'] exI[of _ mh2] exI[of _ io'] exI[of _ ph'] exI[of _ mh3] exI[of _ c'] exI[of _ sc'] exI[of _ e']) simp
qed

definition demo_thread :: IoApp where
  "demo_thread = demo_io\<lparr>ia_sock_queue := qu_new, ia_conn_count := 1, ia_online_register := [1 \<mapsto> 1],
     ia_conns := (\<lambda>_. (conn_obj_new 0 0 0)\<lparr>co_conn := demo_conn\<rparr>)\<rparr>"

definition demo_server :: IoAppCluster where
  "demo_server = IoAppCluster_new\<lparr>cl_cluster_size := 1, cl_core_io := [demo_thread]\<rparr>"

definition demo_routed :: mheap where
  "demo_routed = hnew (app_message demo_conn demo_app [7]) (heap_empty 100)"

definition demo_router :: MsMessageBlockQueue where
  "demo_router = \<lparr>bq_list = 1, bq_tail = 1, bq_list_size = 1\<rparr>"

lemma demo_routed_facts: "heap_ok demo_routed" "hget demo_routed 1 = Inr (app_message demo_conn demo_app [7])" "h_cells demo_routed 1 = Some (app_message demo_conn demo_app [7])"
proof -
  have h: "heap_ok (heap_empty 100 :: mheap)" "h_brk (heap_empty 100 :: mheap) = 1" by (simp_all add: heap_empty_def heap_ok_def)
  then show "heap_ok demo_routed" "hget demo_routed 1 = Inr (app_message demo_conn demo_app [7])" "h_cells demo_routed 1 = Some (app_message demo_conn demo_app [7])"
    by (simp_all add: demo_routed_def hget_hnew)
qed

lemma demo_message: "m_next (app_message demo_conn demo_app [7]) = 0" "io_index (app_message demo_conn demo_app [7]) = 0" "m_conn (app_message demo_conn demo_app [7]) = 1"
  "pushable (app_message demo_conn demo_app [7])" "\<not> m_close_conn (app_message demo_conn demo_app [7])"
  by (simp_all add: app_message_def new_IMessage_def io_index_def demo_conn_def conn_initialize_def pushable_def)

lemma demo_thread_of: "thread_of demo_server 0 = demo_thread"
  by (simp add: thread_of_def demo_server_def IoAppCluster_new_def demo_thread_def demo_io_def)

lemma demo_thread_holds: "io_holds demo_thread (heap_empty 100) demo_routed (\<lambda>_. []) (\<lambda>_. []) []" "owned demo_thread (heap_empty 100) (\<lambda>_. []) = {}"
proof -
  have h: "heap_ok (heap_empty 100 :: pheap)" by (simp add: heap_empty_def heap_ok_def)
  have c: "cur_of demo_thread conn = 0" "ac_push_buffer (co_app (ia_conns demo_thread conn)) = pl_new" for conn
    by (simp_all add: demo_thread_def demo_conn_write conn_obj_new_def IoAppConnection_new_def)
  have "conn_out demo_thread (heap_empty 100) demo_routed conn [] []" for conn
    unfolding conn_out_def' c Let_def using h demo_routed_facts(1) by (simp add: pl_holds_def pl_new_def cur_list_def)
  moreover show "owned demo_thread (heap_empty 100) (\<lambda>_. []) = {}" by (simp add: owned_def c cur_list_def)
  moreover have "ia_collector demo_thread = None" by (simp add: demo_thread_def demo_io_def)
  ultimately show "io_holds demo_thread (heap_empty 100) demo_routed (\<lambda>_. []) (\<lambda>_. []) []"
    using h demo_routed_facts(1) by (simp add: io_holds_def c cur_list_def collector_holds_def)
qed

theorem routed_messages_reach_wire_witness:
  "\<exists>outs q' mh1 cl' mh2 io' ph' mh3 c' sc' e'. local_run 1 (demo_router, demo_routed) = Inr (outs, q', mh1) \<and>
    dispatch_all outs (demo_server, mh1) = Inr (cl', mh2) \<and> push demo_junk (thread_of cl' 0, heap_empty 100, mh2) = Inr (io', ph', mh3) \<and>
    c_wevent_flag (co_conn (ia_conns io' 1)) \<and>
    (case enter no_clock 1 ([], io', ph', mh3) of (c, e) \<Rightarrow> write_calls 9 0 (io_vtable note_msg 1) (c, map Sent [4, 1, 1, 1, 1, 1, 1, 1, 1], e)) = Inr (c', sc', e') \<and>
    e_wire e' = frame_of [7]"
proof -
  have len: "length (cl_core_io demo_server) = 1" by (simp add: demo_server_def)
  have q: "bq_holds (demo_router, demo_routed) [1]" using demo_routed_facts demo_message(1) by (simp add: bq_holds_def demo_router_def seg_def tail_of_def)
  have x: "imsg_at demo_routed 1 = app_message demo_conn demo_app [7]" using demo_routed_facts(3) by simp
  have xi: "io_index (imsg_at demo_routed (Suc 0)) = 0" using x demo_message(2) by simp
  have Q: "cl_queues demo_server demo_routed (\<lambda>_. [])" using demo_routed_facts(1)
    by (simp add: cl_queues_def demo_server_def mq_holds_def seg_def tail_of_def demo_thread_def demo_io_def mq_new_def)
  have rd: "ready demo_routed (\<lambda>_. 1) (\<lambda>_. frame_of [7]) 1"
    using demo_routed_facts(2) demo_message by (simp add: ready_def app_message_data frame_of_header)
  have rg: "ia_online_register demo_thread 1 = Some 1" "c_wsock_state (co_conn (ia_conns demo_thread 1)) = SOCKET_DATA_WRITE" "co_wire (ia_conns demo_thread 1) = []"
    by (simp_all add: demo_thread_def demo_conn_write conn_obj_new_def)
  have b: "h_brk (heap_empty 100 :: pheap) = 1" "h_lim (heap_empty 100 :: pheap) = 100" by (simp_all add: heap_empty_def)
  show ?thesis
    using routed_messages_reach_wire[where cl = demo_server and q = demo_router and mh = demo_routed and xs = "[1]" and Q = "\<lambda>_. []" and i = 0
      and ph = "heap_empty 100" and D = "\<lambda>_. []" and B = "\<lambda>_. []" and zs = "[]" and key = "\<lambda>_. 1" and fr = "\<lambda>_. frame_of [7]" and cid = 1 and conn = 1
      and new = "[1]" and out = "frame_of [7]" and n = 9 and ks = "[4, 1, 1, 1, 1, 1, 1, 1, 1]" and junk = demo_junk and clk = no_clock and p = "[]" and so = 0 and pr = note_msg]
      q Q rd rg b demo_thread_holds unfolding len demo_thread_of by (simp add: xi)
qed

end
